(* ===== verification/Prelude.thy ===== *)
theory Prelude
  imports Main "HOL-Library.Word"
begin

text \<open>
  Shared vocabulary of the development.

  A C buffer handed over as a pointer and a length is a \<open>string\<close> (a list of 8-bit
  \<open>char\<close>) and its length; a cursor into it (a pointer or an unsigned position) is a
  \<open>nat\<close>.  The loops every scanner of the server is made of are defined here once:
  \<open>scan_while\<close> is the C loop \<open>while ((i<n) && P(s[i])) { ++i; }\<close> and \<open>scan_back\<close> is
  \<open>while ((e>lo) && P(s[e-1])) { --e; }\<close>.  Their characterisations by the library's
  \<open>takeWhile\<close> are collected in \<open>scan_facts\<close>.  The ctype and strings.h functions the
  sources call (\<open>toupper\<close>, \<open>tolower\<close>, \<open>strncasecmp\<close>, \<open>memcmp\<close>, \<open>memchr\<close>) are
  modelled for the C locale.  What the sources do that C leaves undefined is a value of
  the type \<open>fault\<close>.
\<close>

named_theorems scan_facts

section \<open>Characters\<close>

type_synonym u8 = "8 word"
type_synonym u32 = "32 word"
type_synonym u64 = "64 word"

text \<open>The value of a byte read as \<open>unsigned char\<close>, and as the signed \<open>char\<close> of x86.\<close>

abbreviation byte_val :: "char \<Rightarrow> nat" where
  "byte_val c \<equiv> of_char c"

definition schar_val :: "char \<Rightarrow> int" where
  "schar_val c = (if byte_val c < 128 then int (byte_val c) else int (byte_val c) - 256)"

abbreviation NUL :: char where "NUL \<equiv> CHR 0x00"
abbreviation TAB :: char where "TAB \<equiv> CHR 0x09"
abbreviation LF :: char where "LF \<equiv> CHR 0x0A"
abbreviation CR :: char where "CR \<equiv> CHR 0x0D"
abbreviation SPC :: char where "SPC \<equiv> CHR 0x20"
abbreviation QUOTE :: char where "QUOTE \<equiv> CHR 0x22"
abbreviation BACKSLASH :: char where "BACKSLASH \<equiv> CHR 0x5C"

abbreviation crlf :: string where "crlf \<equiv> [CR, LF]"

definition is_digit :: "char \<Rightarrow> bool" where
  "is_digit c \<longleftrightarrow> 48 \<le> byte_val c \<and> byte_val c \<le> 57"

definition digit_val :: "char \<Rightarrow> nat" where
  "digit_val c = byte_val c - 48"

definition toupper :: "char \<Rightarrow> char" where
  "toupper c = (if 97 \<le> byte_val c \<and> byte_val c \<le> 122 then char_of (byte_val c - 32) else c)"

definition tolower :: "char \<Rightarrow> char" where
  "tolower c = (if 65 \<le> byte_val c \<and> byte_val c \<le> 90 then char_of (byte_val c + 32) else c)"

lemma byte_val_lt: "byte_val c < 256"
  by (rule nat_of_char_less_256)

lemma byte_val_char_of [simp]: "n < 256 \<Longrightarrow> byte_val (char_of n) = n" for n :: nat
  by simp

section \<open>Undefined behaviour\<close>

datatype fault = Out_of_bounds | Null_deref

type_synonym 'a checked = "fault + 'a"

definition read_at :: "string \<Rightarrow> nat \<Rightarrow> char checked" where
  "read_at s i = (if i < length s then Inr (s ! i) else Inl Out_of_bounds)"

definition write_at :: "string \<Rightarrow> nat \<Rightarrow> char \<Rightarrow> string checked" where
  "write_at s i c = (if i < length s then Inr (s[i := c]) else Inl Out_of_bounds)"

section \<open>Scanning loops\<close>

function scan_while :: "(char \<Rightarrow> bool) \<Rightarrow> string \<Rightarrow> nat \<Rightarrow> nat \<Rightarrow> nat" where
  "scan_while P s n i = (if i < n \<and> P (s ! i) then scan_while P s n (Suc i) else i)"
  by pat_completeness auto
termination
  by (relation "measure (\<lambda>(P, s, n, i). n - i)") auto

declare scan_while.simps [simp del]

function scan_back :: "(char \<Rightarrow> bool) \<Rightarrow> string \<Rightarrow> nat \<Rightarrow> nat \<Rightarrow> nat" where
  "scan_back P s lo e = (if lo < e \<and> P (s ! (e - 1)) then scan_back P s lo (e - 1) else e)"
  by pat_completeness auto
termination
  by (relation "measure (\<lambda>(P, s, lo, e). e)") auto

declare scan_back.simps [simp del]

lemma scan_while_ge [scan_facts]: "i \<le> scan_while P s n i"
proof (induction P s n i rule: scan_while.induct)
  case (1 P s n i)
  then show ?case by (auto simp: scan_while.simps [of P s n i] intro: Suc_leD)
qed

lemma scan_while_le [scan_facts]: "i \<le> n \<Longrightarrow> scan_while P s n i \<le> n"
proof (induction P s n i rule: scan_while.induct)
  case (1 P s n i)
  then show ?case by (auto simp: scan_while.simps [of P s n i])
qed

lemma scan_while_stop [scan_facts]:
  "scan_while P s n i < n \<Longrightarrow> \<not> P (s ! scan_while P s n i)"
proof (induction P s n i rule: scan_while.induct)
  case (1 P s n i)
  then show ?case
    by (cases "i < n \<and> P (s ! i)") (auto simp: scan_while.simps [of P s n i])
qed

lemma scan_while_between [scan_facts]:
  "i \<le> k \<Longrightarrow> k < scan_while P s n i \<Longrightarrow> P (s ! k)"
proof (induction P s n i rule: scan_while.induct)
  case (1 P s n i)
  show ?case
  proof (cases "i < n \<and> P (s ! i)")
    case True
    with 1 show ?thesis
      by (cases "k = i") (auto simp: scan_while.simps [of P s n i])
  next
    case False
    with "1.prems" show ?thesis by (auto simp: scan_while.simps [of P s n i])
  qed
qed

text \<open>A scan may start after any bytes that satisfy its test.\<close>

lemma scan_while_skip:
  assumes "i \<le> j" and "j \<le> n" and "\<And>k. i \<le> k \<Longrightarrow> k < j \<Longrightarrow> P (s ! k)"
  shows "scan_while P s n i = scan_while P s n j"
  using assms
proof (induction "j - i" arbitrary: i)
  case 0
  then show ?case by simp
next
  case (Suc m)
  from Suc have "i < n" and "P (s ! i)" by auto
  then have "scan_while P s n i = scan_while P s n (Suc i)"
    using scan_while.simps [of P s n i] by simp
  also have "\<dots> = scan_while P s n j" using Suc by (intro Suc.hyps(1)) auto
  finally show ?case .
qed

lemma scan_while_at: "i < n \<Longrightarrow> \<not> P (s ! i) \<Longrightarrow> scan_while P s n i = i"
  by (simp add: scan_while.simps [of P s n i])

text \<open>A scan only looks at the bytes up to where it stops: more bytes do not move it.\<close>

lemma scan_while_extend:
  assumes "n \<le> length s" and "scan_while P s n i < n" and "n \<le> m" and "m \<le> length s + length t"
  shows "scan_while P (s @ t) m i = scan_while P s n i"
  using assms
proof (induction P s n i rule: scan_while.induct)
  case (1 P s n i)
  have lt: "i < n"
    using "1.prems"(2) scan_while_ge [of i P s n] by linarith
  then have nth: "(s @ t) ! i = s ! i"
    using "1.prems"(1) by (simp add: nth_append)
  show ?case
  proof (cases "P (s ! i)")
    case True
    with lt "1.prems" have "scan_while P (s @ t) m (Suc i) = scan_while P s n (Suc i)"
      using "1.IH" by (simp add: scan_while.simps [of P s n i])
    with True lt "1.prems" nth show ?thesis
      by (simp add: scan_while.simps [of P s n i] scan_while.simps [of P "s @ t" m i])
  next
    case False
    with lt nth show ?thesis
      by (simp add: scan_while.simps [of P s n i] scan_while.simps [of P "s @ t" m i])
  qed
qed

text \<open>The loop is \<open>takeWhile\<close> on the bytes from the cursor to the end of the buffer.\<close>

lemma scan_while_takeWhile:
  "i \<le> n \<Longrightarrow> n \<le> length s \<Longrightarrow>
     scan_while P s n i = i + length (takeWhile P (drop i (take n s)))"
proof (induction P s n i rule: scan_while.induct)
  case (1 P s n i)
  show ?case
  proof (cases "i < n")
    case True
    then have "drop i (take n s) = s ! i # drop (Suc i) (take n s)"
      using "1.prems"(2) by (subst Cons_nth_drop_Suc [symmetric]) auto
    with 1 True show ?thesis by (simp add: scan_while.simps [of P s n i])
  next
    case False
    with "1.prems" have "i = n" by simp
    then show ?thesis using "1.prems" by (simp add: scan_while.simps [of P s n n])
  qed
qed

text \<open>Scanning over a known run of bytes: the loop stops right after it.\<close>

lemma scan_while_run:
  assumes "\<forall>c \<in> set mid. P c" and "\<not> P c"
  shows "scan_while P (pre @ mid @ c # post) (length (pre @ mid @ c # post)) (length pre)
           = length pre + length mid"
  using assms
  by (subst scan_while_takeWhile) (auto simp: takeWhile_append)

lemma scan_while_run_end:
  assumes "\<forall>c \<in> set mid. P c"
  shows "scan_while P (pre @ mid) (length (pre @ mid)) (length pre) = length pre + length mid"
  using assms by (subst scan_while_takeWhile) (auto simp: takeWhile_eq_all_conv [THEN iffD2])

lemma scan_run_to:
  assumes "\<forall>c \<in> set mid. P c" and "\<not> P c" and "length pre + length mid < n" and "n \<le> length (pre @ mid @ c # post)"
  shows "scan_while P (pre @ mid @ c # post) n (length pre) = length pre + length mid"
proof -
  have "drop (length pre) (take n (pre @ mid @ c # post)) = mid @ c # take (n - length pre - length mid - 1) post"
    using assms(3) by (auto simp: take_Cons' add.commute diff_diff_left)
  then show ?thesis using assms by (subst scan_while_takeWhile) (simp_all add: takeWhile_append)
qed

lemma scan_back_le [scan_facts]: "scan_back P s lo e \<le> e"
proof (induction P s lo e rule: scan_back.induct)
  case (1 P s lo e)
  then show ?case by (force simp: scan_back.simps [of P s lo e])
qed

lemma scan_back_ge [scan_facts]: "lo \<le> e \<Longrightarrow> lo \<le> scan_back P s lo e"
proof (induction P s lo e rule: scan_back.induct)
  case (1 P s lo e)
  then show ?case by (auto simp: scan_back.simps [of P s lo e])
qed

lemma scan_back_stop [scan_facts]:
  "lo < scan_back P s lo e \<Longrightarrow> \<not> P (s ! (scan_back P s lo e - 1))"
proof (induction P s lo e rule: scan_back.induct)
  case (1 P s lo e)
  then show ?case
    by (cases "lo < e \<and> P (s ! (e - 1))") (auto simp: scan_back.simps [of P s lo e])
qed

section \<open>Comparing and slicing\<close>

text \<open>The \<open>n\<close> bytes at position \<open>i\<close>.\<close>

definition slice :: "string \<Rightarrow> nat \<Rightarrow> nat \<Rightarrow> string" where
  "slice s i n = take n (drop i s)"

text \<open>The bytes from position \<open>i\<close> up to (not including) position \<open>j\<close>.\<close>

definition between :: "string \<Rightarrow> nat \<Rightarrow> nat \<Rightarrow> string" where
  "between s i j = take (j - i) (drop i s)"

lemma between_append:
  "i \<le> j \<Longrightarrow> j \<le> k \<Longrightarrow> between s i k = between s i j @ between s j k"
proof -
  assume ij: "i \<le> j" and jk: "j \<le> k"
  then have "k - i = (j - i) + (k - j)" and "drop j s = drop (j - i) (drop i s)"
    by simp_all
  then show ?thesis unfolding between_def by (metis take_add)
qed

lemma drop_between: "i \<le> j \<Longrightarrow> drop i s = between s i j @ drop j s"
  unfolding between_def by (metis append_take_drop_id drop_drop le_add_diff_inverse2)

lemma slice_between: "slice s i n = between s i (i + n)"
  by (simp add: slice_def between_def)

lemma between_mid: "between (x @ y @ z) (length x) (length x + length y) = y"
  by (simp add: between_def)

lemma slice_mid: "slice (x @ y @ z) (length x) (length y) = y"
  by (simp add: slice_def)

lemma between_same [simp]: "between s i i = []"
  by (simp add: between_def)

lemma between_Suc [simp]: "i < length s \<Longrightarrow> between s i (Suc i) = [s ! i]"
  by (simp add: between_def Suc_diff_le take_Suc_conv_app_nth)

lemma between_all: "between s 0 (length s) = s"
  by (simp add: between_def)

lemma length_between: "j \<le> length s \<Longrightarrow> length (between s i j) = j - i"
  by (simp add: between_def)

lemma set_between: "j \<le> length s \<Longrightarrow> set (between s i j) = {s ! k | k. i \<le> k \<and> k < j}"
proof (intro set_eqI iffI)
  fix c
  assume j: "j \<le> length s"
  {
    assume "c \<in> set (between s i j)"
    then obtain m where "m < j - i" and "c = between s i j ! m"
      using j by (auto simp: in_set_conv_nth length_between)
    then have "i \<le> i + m \<and> i + m < j \<and> c = s ! (i + m)" using j by (simp add: between_def)
    then show "c \<in> {s ! k | k. i \<le> k \<and> k < j}" by blast
  next
    assume "c \<in> {s ! k | k. i \<le> k \<and> k < j}"
    then obtain k where "i \<le> k" and "k < j" and "c = s ! k" by blast
    then have "c = between s i j ! (k - i)" and "k - i < length (between s i j)"
      using j by (simp_all add: between_def)
    then show "c \<in> set (between s i j)" by simp
  }
qed

text \<open>What a scan has passed satisfies its test.\<close>

lemma between_scan_while:
  "n \<le> length s \<Longrightarrow> i \<le> n \<Longrightarrow> \<forall>c \<in> set (between s i (scan_while P s n i)). P c"
  using scan_while_between [of i _ P s n] scan_while_le [of i n P s]
  by (auto simp: set_between)

text \<open>Scanning inside the bytes from \<open>i\<close> to \<open>k\<close>, as list functions.\<close>

lemma between_takeWhile [scan_facts]:
  assumes "i \<le> k" and "k \<le> length s"
  shows "between s i (scan_while P s k i) = takeWhile P (between s i k)"
proof -
  let ?b = "between s i k"
  have b: "?b = drop i (take k s)" by (simp add: between_def drop_take)
  have "between s i (scan_while P s k i) = take (length (takeWhile P ?b)) (drop i s)"
    using scan_while_takeWhile [OF assms, of P] b by (simp add: between_def)
  also have "\<dots> = take (length (takeWhile P ?b)) ?b"
    using length_takeWhile_le [of P ?b] assms by (simp add: between_def)
  also have "\<dots> = takeWhile P ?b" by (rule takeWhile_eq_take [symmetric])
  finally show ?thesis .
qed

lemma between_dropWhile [scan_facts]:
  assumes "i \<le> k" and "k \<le> length s"
  shows "between s (scan_while P s k i) k = dropWhile P (between s i k)"
proof -
  let ?j = "scan_while P s k i"
  have "between s i k = between s i ?j @ between s ?j k"
    using assms by (intro between_append) (simp_all add: scan_while_ge scan_while_le)
  moreover have "between s i k = takeWhile P (between s i k) @ dropWhile P (between s i k)" by simp
  ultimately show ?thesis using between_takeWhile [OF assms, of P] by (metis append_same_eq same_append_eq)
qed

definition trim_right :: "(char \<Rightarrow> bool) \<Rightarrow> string \<Rightarrow> string" where
  "trim_right P s = rev (dropWhile P (rev s))"

lemma between_snoc: "lo < e \<Longrightarrow> e \<le> length s \<Longrightarrow> between s lo e = between s lo (e - 1) @ [s ! (e - 1)]"
  using between_append [of lo "e - 1" e s] between_Suc [of "e - 1" s] by simp

lemma between_trim_right [scan_facts]:
  "lo \<le> e \<Longrightarrow> e \<le> length s \<Longrightarrow> between s lo (scan_back P s lo e) = trim_right P (between s lo e)"
proof (induction P s lo e rule: scan_back.induct)
  case (1 P s lo e)
  show ?case
  proof (cases "lo < e \<and> P (s ! (e - 1))")
    case True
    then have "between s lo e = between s lo (e - 1) @ [s ! (e - 1)]"
      using between_snoc "1.prems" by simp
    moreover have "between s lo (scan_back P s lo (e - 1)) = trim_right P (between s lo (e - 1))"
      by (rule "1.IH" [OF True]) (use True "1.prems" in auto)
    ultimately show ?thesis using True by (simp add: scan_back.simps [of P s lo e] trim_right_def)
  next
    case False
    show ?thesis
    proof (cases "lo < e")
      case True
      then have "between s lo e = between s lo (e - 1) @ [s ! (e - 1)]"
        using between_snoc "1.prems" by simp
      with False True show ?thesis by (simp add: scan_back.simps [of P s lo e] trim_right_def)
    qed (use "1.prems" in \<open>simp add: scan_back.simps trim_right_def between_def\<close>)
  qed
qed

text \<open>The pieces of a string between the separators \<open>c\<close>, and the first of them a test accepts.\<close>

function split_on :: "char \<Rightarrow> string \<Rightarrow> string list" where
  "split_on c s =
     (case dropWhile (\<lambda>d. d \<noteq> c) s of
        [] \<Rightarrow> [s]
      | _ # r \<Rightarrow> takeWhile (\<lambda>d. d \<noteq> c) s # split_on c r)"
  by pat_completeness auto
termination
proof (relation "measure (\<lambda>(c, s). length s)", goal_cases)
  case (2 c s d r)
  have "length (dropWhile (\<lambda>d. d \<noteq> c) s) \<le> length s" by (rule length_dropWhile_le)
  with 2 show ?case by simp
qed simp

declare split_on.simps [simp del]

lemma split_on_none: "c \<notin> set s \<Longrightarrow> split_on c s = [s]"
proof -
  assume "c \<notin> set s"
  then have "dropWhile (\<lambda>d. d \<noteq> c) s = []" by auto
  then show ?thesis by (subst split_on.simps) (simp only: list.case)
qed

lemma split_on_sep: "c \<notin> set a \<Longrightarrow> split_on c (a @ c # s) = a # split_on c s"
proof -
  assume a: "c \<notin> set a"
  then have "dropWhile (\<lambda>d. d \<noteq> c) (a @ c # s) = c # s" "takeWhile (\<lambda>d. d \<noteq> c) (a @ c # s) = a"
    by (auto simp: dropWhile_append takeWhile_append)
  then show ?thesis by (subst split_on.simps) simp
qed

lemma split_on_scan:
  assumes "i \<le> length s" and "e = scan_while (\<lambda>d. d \<noteq> c) s (length s) i"
  shows "split_on c (drop i s)
           = (if e = length s then [between s i e] else between s i e # split_on c (drop (e + 1) s))"
proof -
  have none: "c \<notin> set (between s i e)"
    using between_scan_while [of "length s" s i "\<lambda>d. d \<noteq> c"] assms by auto
  have e: "i \<le> e" "e \<le> length s" using assms by (simp_all add: scan_while_ge scan_while_le)
  show ?thesis
  proof (cases "e = length s")
    case True
    then show ?thesis using split_on_none [OF none] by (simp add: between_def)
  next
    case False
    then have "e < length s" and "s ! e = c"
      using e scan_while_stop [of "\<lambda>d. d \<noteq> c" s "length s" i] assms by simp_all
    then have "drop e s = c # drop (e + 1) s" by (simp add: Cons_nth_drop_Suc [symmetric])
    then have "drop i s = between s i e @ c # drop (e + 1) s"
      using drop_between [OF e(1), of s] by simp
    then show ?thesis using split_on_sep [OF none] False by simp
  qed
qed

text \<open>A byte of a C string; the byte at its length is the terminating NUL.\<close>

definition c_at :: "string \<Rightarrow> nat \<Rightarrow> char" where
  "c_at s i = (if i < length s then s ! i else NUL)"

text \<open>\<open>memmem\<close>: whether the bytes \<open>pat\<close> occur.\<close>

fun memmem :: "string \<Rightarrow> string \<Rightarrow> bool" where
  "memmem [] pat = (pat = [])"
| "memmem (c # s) pat = (take (length pat) (c # s) = pat \<or> memmem s pat)"

fun first_some :: "('a \<Rightarrow> 'b option) \<Rightarrow> 'a list \<Rightarrow> 'b option" where
  "first_some f [] = None"
| "first_some f (x # xs) = (case f x of None \<Rightarrow> first_some f xs | Some y \<Rightarrow> Some y)"

lemma first_some_if: "f x = Some y \<Longrightarrow> first_some f (if b then [x] else x # xs) = Some y"
  by simp

text \<open>
  \<open>strncasecmp(s,t,n)==0\<close>: the comparison stops after \<open>n\<close> bytes or at a common NUL; a
  list that has run out counts as its terminating NUL.
\<close>

fun strncaseeq :: "string \<Rightarrow> string \<Rightarrow> nat \<Rightarrow> bool" where
  "strncaseeq s t 0 = True"
| "strncaseeq [] [] (Suc n) = True"
| "strncaseeq [] (y # ys) (Suc n) = (y = NUL)"
| "strncaseeq (x # xs) [] (Suc n) = (x = NUL)"
| "strncaseeq (x # xs) (y # ys) (Suc n) =
     (tolower x = tolower y \<and> (x = NUL \<or> strncaseeq xs ys n))"

lemma char_eq_byte_val: "c = d \<longleftrightarrow> byte_val c = byte_val d"
  by simp

lemma tolower_NUL [simp]: "tolower c = NUL \<longleftrightarrow> c = NUL"
  by (auto simp: tolower_def char_eq_byte_val [of _ NUL])

lemma tolower_toupper [simp]: "tolower (toupper c) = tolower c"
  by (auto simp: toupper_def tolower_def)

lemma toupper_tolower [simp]: "toupper (tolower c) = toupper c"
  by (auto simp: toupper_def tolower_def)

text \<open>Against a literal of \<open>n\<close> bytes without a NUL it is equality up to case.\<close>

lemma strncaseeq_iff:
  "NUL \<notin> set t \<Longrightarrow>
     strncaseeq s t (length t) \<longleftrightarrow> length t \<le> length s \<and> map tolower (take (length t) s) = map tolower t"
proof (induction t arbitrary: s)
  case Nil
  then show ?case by simp
next
  case (Cons y t)
  show ?case
  proof (cases s)
    case Nil
    with Cons.prems show ?thesis by auto
  next
    case (Cons x xs)
    with Cons.prems Cons.IH [of xs] show ?thesis
      by (auto dest: arg_cong [where f = "\<lambda>c. c = NUL"])
  qed
qed

text \<open>\<open>memchr\<close>: the position of the first \<open>c\<close> in the buffer from \<open>i\<close> to \<open>n\<close>.\<close>

definition memchr :: "string \<Rightarrow> char \<Rightarrow> nat \<Rightarrow> nat \<Rightarrow> nat option" where
  "memchr s c i n = (let k = scan_while (\<lambda>d. d \<noteq> c) s n i in if k < n then Some k else None)"

lemma memchr_Some:
  assumes "memchr s c i n = Some k"
  shows "i \<le> k" and "k < n" and "s ! k = c" and "\<And>j. i \<le> j \<Longrightarrow> j < k \<Longrightarrow> s ! j \<noteq> c"
  using assms scan_while_ge [of i "\<lambda>d. d \<noteq> c" s n] scan_while_stop [of "\<lambda>d. d \<noteq> c" s n i]
    scan_while_between [of i _ "\<lambda>d. d \<noteq> c" s n]
  by (auto simp: memchr_def Let_def split: if_splits)

lemma memchr_None:
  assumes "memchr s c i n = None" and "i \<le> j" and "j < n"
  shows "s ! j \<noteq> c"
  using assms scan_while_between [of i j "\<lambda>d. d \<noteq> c" s n]
  by (auto simp: memchr_def Let_def split: if_splits)

lemma memchr_run:
  assumes "c \<notin> set mid" and "length pre + length mid < n"
  shows "memchr (pre @ mid @ c # post) c (length pre) n = Some (length pre + length mid)"
proof -
  let ?s = "pre @ mid @ c # post"
  have "scan_while (\<lambda>d. d \<noteq> c) ?s n (length pre) = scan_while (\<lambda>d. d \<noteq> c) ?s n (length pre + length mid)"
  proof (rule scan_while_skip)
    fix k assume "length pre \<le> k" and "k < length pre + length mid"
    then have "k - length pre < length mid" and "?s ! k = mid ! (k - length pre)" by (auto simp: nth_append)
    then show "?s ! k \<noteq> c" using assms(1) by (metis nth_mem)
  qed (use assms(2) in simp_all)
  also have "\<dots> = length pre + length mid"
    using assms(2) by (intro scan_while_at) (simp_all add: nth_append)
  finally show ?thesis using assms(2) by (simp add: memchr_def)
qed

lemma memchr_absent:
  assumes "c \<notin> set mid"
  shows "memchr (pre @ mid @ post) c (length pre) (length pre + length mid) = None"
proof (rule ccontr)
  assume "memchr (pre @ mid @ post) c (length pre) (length pre + length mid) \<noteq> None"
  then obtain k where k: "memchr (pre @ mid @ post) c (length pre) (length pre + length mid) = Some k" by auto
  note m = memchr_Some [OF k]
  then have lt: "k - length pre < length mid" by auto
  then have "(pre @ mid @ post) ! k = mid ! (k - length pre)" using m(1) by (auto simp: nth_append)
  with lt m(3) assms show False by (metis nth_mem)
qed

section \<open>Interfaces\<close>

text \<open>
  What every encoding in the server promises its callers: decoding an encoded value gives
  it back.  The clients rely on what follows from it: distinct values have distinct codes.
\<close>

locale codec =
  fixes encode :: "'a \<Rightarrow> 'b"
    and decode :: "'b \<Rightarrow> 'a option"
  assumes decode_encode: "decode (encode x) = Some x"
begin

lemma encode_eq_iff: "encode x = encode y \<longleftrightarrow> x = y"
  by (metis decode_encode option.inject)

lemma decode_of_encode: "c = encode x \<Longrightarrow> decode c = Some y \<Longrightarrow> y = x"
  by (simp add: decode_encode)

lemma encode_inj: "inj encode"
  by (simp add: inj_def encode_eq_iff)

end

text \<open>
  What a table of strings promises: an insertion of an absent key and a removal change the
  finite map the table stands for, and nothing else.  Updating a key is removing it first.
\<close>

datatype 'v table_op = Put string 'v | Remove string

fun table_spec :: "'v table_op \<Rightarrow> (string \<Rightarrow> 'v option) \<Rightarrow> (string \<Rightarrow> 'v option)" where
  "table_spec (Put k v) m = m(k \<mapsto> v)"
| "table_spec (Remove k) m = m(k := None)"

fun table_run ::
    "('s \<Rightarrow> string \<Rightarrow> 'v \<Rightarrow> 's option) \<Rightarrow> ('s \<Rightarrow> string \<Rightarrow> 's) \<Rightarrow> 's \<Rightarrow> 'v table_op list \<Rightarrow> 's option" where
  "table_run add del s [] = Some s"
| "table_run add del s (Put k v # ops) =
     (case add (del s k) k v of None \<Rightarrow> None | Some s \<Rightarrow> table_run add del s ops)"
| "table_run add del s (Remove k # ops) = table_run add del (del s k) ops"

locale string_table =
  fixes inv :: "'s \<Rightarrow> bool"
    and view :: "'s \<Rightarrow> string \<Rightarrow> 'v option"
    and add :: "'s \<Rightarrow> string \<Rightarrow> 'v \<Rightarrow> 's option"
    and del :: "'s \<Rightarrow> string \<Rightarrow> 's"
  assumes add_view: "inv s \<Longrightarrow> view s k = None \<Longrightarrow> add s k v = Some s' \<Longrightarrow> inv s' \<and> view s' = (view s)(k \<mapsto> v)"
    and del_view: "inv s \<Longrightarrow> inv (del s k) \<and> view (del s k) = (view s)(k := None)"
begin

lemma replace_view:
  assumes "inv s" and "add (del s k) k v = Some s'"
  shows "inv s' \<and> view s' = (view s)(k \<mapsto> v)"
  using add_view [of "del s k" k v s'] del_view [OF assms(1), of k] assms(2) by simp

lemma run_view:
  "inv s \<Longrightarrow> table_run add del s ops = Some s' \<Longrightarrow> inv s' \<and> view s' = fold table_spec ops (view s)"
proof (induction ops arbitrary: s)
  case (Cons oper ops)
  show ?case
  proof (cases oper)
    case (Put k v)
    then obtain t where "add (del s k) k v = Some t" "table_run add del t ops = Some s'"
      using Cons.prems(2) by (auto split: option.splits)
    moreover from this(1) have "inv t" and "view t = (view s)(k \<mapsto> v)"
      using replace_view [OF Cons.prems(1)] by blast+
    ultimately show ?thesis
      using Cons.IH [of t] by (simp only: Put list.simps fold_simps table_spec.simps)
  next
    case (Remove k)
    then have "inv (del s k)" and "view (del s k) = (view s)(k := None)" and "table_run add del (del s k) ops = Some s'"
      using Cons.prems del_view [of s k] by auto
    then show ?thesis
      using Cons.IH [of "del s k"] by (simp only: Remove fold_simps table_spec.simps)
  qed
qed simp

end

text \<open>
  What a message framing promises the connection that reads with it: it finds the length
  of the first message of the bytes received so far, and bytes that arrive later do not
  change its mind.  Then the messages of a connection do not depend on how the network cuts
  the byte stream into reads.
\<close>

function frames :: "(string \<Rightarrow> nat option) \<Rightarrow> string \<Rightarrow> string list \<times> string" where
  "frames msg_end s =
     (case msg_end s of
        None \<Rightarrow> ([], s)
      | Some n \<Rightarrow>
          if 0 < n \<and> n \<le> length s
          then (let (ms, r) = frames msg_end (drop n s) in (take n s # ms, r))
          else ([], s))"
  by pat_completeness auto
termination
  by (relation "measure (\<lambda>(msg_end, s). length s)") auto

declare frames.simps [simp del]

fun receive :: "(string \<Rightarrow> nat option) \<Rightarrow> string \<Rightarrow> string list \<Rightarrow> string list \<times> string" where
  "receive msg_end held [] = ([], held)"
| "receive msg_end held (chunk # chunks) =
     (let (ms, r) = frames msg_end (held @ chunk);
          (ms', r') = receive msg_end r chunks
      in (ms @ ms', r'))"

locale framing =
  fixes msg_end :: "string \<Rightarrow> nat option"
  assumes end_bounds: "msg_end s = Some n \<Longrightarrow> 0 < n \<and> n \<le> length s"
    and end_stable: "msg_end s = Some n \<Longrightarrow> msg_end (s @ t) = Some n"
begin

lemma frames_Some: "msg_end s = Some n \<Longrightarrow> frames msg_end s = (take n s # fst (frames msg_end (drop n s)), snd (frames msg_end (drop n s)))"
  using end_bounds [of s n] by (subst frames.simps) (simp add: case_prod_unfold Let_def)

lemma frames_None: "msg_end s = None \<Longrightarrow> frames msg_end s = ([], s)"
  by (subst frames.simps) simp

lemma frames_rest: "msg_end (snd (frames msg_end s)) = None"
proof (induction "length s" arbitrary: s rule: less_induct)
  case less
  show ?case
  proof (cases "msg_end s")
    case None
    then show ?thesis by (simp add: frames_None)
  next
    case (Some n)
    have shorter: "length (drop n s) < length s" using end_bounds [OF Some] by auto
    show ?thesis using less [OF shorter] Some by (simp add: frames_Some)
  qed
qed

lemma frames_append:
  "frames msg_end (s @ t) = (fst (frames msg_end s) @ fst (frames msg_end (snd (frames msg_end s) @ t)),
                         snd (frames msg_end (snd (frames msg_end s) @ t)))"
proof (induction "length s" arbitrary: s rule: less_induct)
  case less
  show ?case
  proof (cases "msg_end s")
    case None
    then show ?thesis by (simp add: frames_None)
  next
    case (Some n)
    have shorter: "length (drop n s) < length s" and n: "n \<le> length s" using end_bounds [OF Some] by auto
    then show ?thesis
      using less [OF shorter] Some end_stable [OF Some, of t] by (simp add: frames_Some)
  qed
qed

lemma receive_frames: "msg_end held = None \<Longrightarrow> receive msg_end held chunks = frames msg_end (held @ concat chunks)"
proof (induction chunks arbitrary: held)
  case Nil
  then show ?case by (simp add: frames_None)
next
  case (Cons c cs)
  let ?r = "snd (frames msg_end (held @ c))"
  have "receive msg_end ?r cs = frames msg_end (?r @ concat cs)" by (rule Cons.IH) (rule frames_rest)
  then show ?case
    using frames_append [of "held @ c" "concat cs"] by (simp add: case_prod_unfold Let_def)
qed

end

end
