(* ===== verification/JsonEscape.thy ===== *)
theory JsonEscape
  imports Prelude
begin

text \<open>
  Escaping text into a JSON response
  (\<open>JSONEscapeNeededIn8\<close> and \<open>AmmServer_JSONEscape\<close> of
  \<open>src/AmmServerlib/tools/json_tools.c\<close>).  The code finds the next byte that needs
  escaping sixteen bytes at a time with SSE2 where the build has it, eight bytes at a time
  with a word trick, then byte by byte; the theory keeps all three searches and proves that
  they find the same byte, so that both builds write the same text.  The tests on the
  output (\<open>written+n>outSize\<close>) are kept at their 32 bits; the input is at most
  2 to the 32 minus 17 bytes, so that \<open>run+16\<close> and \<open>run+8\<close> do not wrap.
\<close>

unbundle bit_operations_syntax

section \<open>Eight bytes at a time\<close>

text \<open>\<open>memcpy(&v,at,8)\<close> on a little-endian machine.\<close>

fun load_le :: "string \<Rightarrow> int" where
  "load_le [] = 0"
| "load_le (c # cs) = int (byte_val c) + 256 * load_le cs"

definition JSONEscapeNeededIn8 :: "string \<Rightarrow> bool" where
  "JSONEscapeNeededIn8 at =
     (let v = word_of_int (load_le (take 8 at)) :: u64;
          ones = 0x0101010101010101;
          high = 0x8080808080808080;
          control = (v - 0x20 * ones) AND NOT v;
          quote = v XOR (0x22 * ones);
          quote = (quote - ones) AND NOT quote;
          slash = v XOR (0x5C * ones);
          slash = (slash - ones) AND NOT slash
      in (control OR quote OR slash) AND high \<noteq> 0)"

definition needs_escape :: "char \<Rightarrow> bool" where
  "needs_escape c \<longleftrightarrow> c = QUOTE \<or> c = BACKSLASH \<or> byte_val c < 0x20"

lemma needs_escape_iff:
  "needs_escape c \<longleftrightarrow> byte_val c = 0x22 \<or> byte_val c = 0x5C \<or> byte_val c < 0x20"
proof -
  have "c = QUOTE \<longleftrightarrow> byte_val c = 0x22" and "c = BACKSLASH \<longleftrightarrow> byte_val c = 0x5C"
    unfolding char_eq_byte_val [of c QUOTE] char_eq_byte_val [of c BACKSLASH] by simp_all
  then show ?thesis by (simp add: needs_escape_def)
qed

text \<open>\<open>n\<close> bytes of value \<open>b\<close>.\<close>

fun rep_bytes :: "nat \<Rightarrow> nat \<Rightarrow> int" where
  "rep_bytes b 0 = 0"
| "rep_bytes b (Suc n) = int b + 256 * rep_bytes b n"

lemma bit_byte_low:
  fixes x :: int
  assumes "0 \<le> b" and "b < 256"
  shows "bit (b + 256 * x) 7 \<longleftrightarrow> 128 \<le> b"
proof -
  have "(b + 256 * x) div 128 = b div 128 + 2 * x" by simp
  then have "bit (b + 256 * x) 7 \<longleftrightarrow> odd (b div 128)"
    by (simp add: bit_iff_odd)
  also have "\<dots> \<longleftrightarrow> 128 \<le> b"
  proof (cases "128 \<le> b")
    case True
    with assms have "b div 128 = 1" by (simp add: div_pos_geq)
    with True show ?thesis by simp
  next
    case False
    with assms show ?thesis by simp
  qed
  finally show ?thesis .
qed

lemma bit_byte_high:
  fixes x :: int
  assumes "0 \<le> b" and "b < 256"
  shows "bit (b + 256 * x) (8 * Suc i + 7) \<longleftrightarrow> bit x (8 * i + 7)"
proof -
  have pw: "(2::int) ^ (8 * Suc i + 7) = 256 * 2 ^ (8 * i + 7)"
    by (simp add: power_add)
  have "(b + 256 * x) div 2 ^ (8 * Suc i + 7) = (b + 256 * x) div 256 div 2 ^ (8 * i + 7)"
    unfolding pw by (rule zdiv_zmult2_eq) simp
  also have "(b + 256 * x) div 256 = x" using assms by simp
  finally show ?thesis by (simp add: bit_iff_odd)
qed

text \<open>
  The word trick, on integers: subtracting \<open>b\<close> from every byte sets the top bit of some
  byte whose top bit was clear exactly when some byte is below \<open>b\<close>.
\<close>

lemma has_byte_below:
  assumes "b \<le> 128"
  shows "(\<exists>i<length cs. bit (load_le cs - rep_bytes b (length cs)) (8 * i + 7) \<and> \<not> bit (load_le cs) (8 * i + 7))
         \<longleftrightarrow> (\<exists>c\<in>set cs. byte_val c < b)"
proof (induction cs)
  case Nil
  then show ?case by simp
next
  case (Cons c cs)
  let ?c = "int (byte_val c)" and ?L = "load_le cs" and ?R = "rep_bytes b (length cs)"
  have c256: "?c < 256" using byte_val_lt [of c] by simp
  let ?hit = "\<lambda>i. bit (load_le (c # cs) - rep_bytes b (length (c # cs))) (8 * i + 7) \<and>
                  \<not> bit (load_le (c # cs)) (8 * i + 7)"
  have split: "(\<exists>i<length (c # cs). ?hit i) \<longleftrightarrow> ?hit 0 \<or> (\<exists>i<length cs. ?hit (Suc i))"
    using Ex_less_Suc2 [of "length cs" ?hit] by simp
  have L0: "bit (load_le (c # cs)) 7 \<longleftrightarrow> 128 \<le> ?c"
    using bit_byte_low [of ?c ?L] c256 by simp
  have LS: "bit (load_le (c # cs)) (8 * Suc i + 7) \<longleftrightarrow> bit ?L (8 * i + 7)" for i
    using bit_byte_high [of ?c ?L i] c256 by simp
  show ?case
  proof (cases "byte_val c < b")
    case True
    have eq: "load_le (c # cs) - rep_bytes b (length (c # cs)) = (?c - int b + 256) + 256 * (?L - ?R - 1)"
      by (simp add: algebra_simps)
    have "bit ((?c - int b + 256) + 256 * (?L - ?R - 1)) 7 \<longleftrightarrow> 128 \<le> ?c - int b + 256"
      using True assms c256 by (intro bit_byte_low) simp_all
    then have "?hit 0" unfolding eq using L0 True assms by simp
    with True show ?thesis unfolding split by simp
  next
    case False
    have eq: "load_le (c # cs) - rep_bytes b (length (c # cs)) = (?c - int b) + 256 * (?L - ?R)"
      by (simp add: algebra_simps)
    have "bit ((?c - int b) + 256 * (?L - ?R)) 7 \<longleftrightarrow> 128 \<le> ?c - int b"
      using False c256 by (intro bit_byte_low) linarith+
    then have h0: "\<not> ?hit 0" unfolding eq using L0 False by simp
    have "bit ((?c - int b) + 256 * (?L - ?R)) (8 * Suc i + 7) \<longleftrightarrow> bit (?L - ?R) (8 * i + 7)" for i
      using False c256 by (intro bit_byte_high) linarith+
    then have hS: "?hit (Suc i) \<longleftrightarrow> bit (?L - ?R) (8 * i + 7) \<and> \<not> bit ?L (8 * i + 7)" for i
      unfolding eq using LS by simp
    have "(\<exists>i<length cs. ?hit (Suc i)) \<longleftrightarrow> (\<exists>d\<in>set cs. byte_val d < b)"
      unfolding hS by (rule Cons.IH)
    with split h0 have "(\<exists>i<length (c # cs). ?hit i) \<longleftrightarrow> (\<exists>d\<in>set cs. byte_val d < b)"
      by blast
    also have "\<dots> \<longleftrightarrow> (\<exists>d\<in>set (c # cs). byte_val d < b)" using False by simp
    finally show ?thesis .
  qed
qed

lemma load_le_bounds: "0 \<le> load_le cs \<and> load_le cs < 256 ^ length cs"
proof (induction cs)
  case (Cons c cs)
  have "int (byte_val c) < 256" using byte_val_lt [of c] by simp
  then have "int (byte_val c) + 256 * load_le cs < 256 * (load_le cs + 1)" by simp
  also have "\<dots> \<le> 256 * 256 ^ length cs" using Cons.IH by simp
  finally show ?case using Cons.IH by simp
qed simp

text \<open>The same with every byte first combined with \<open>b\<close> by exclusive or: a byte becomes 0 when it is \<open>b\<close>.\<close>

definition xor_bytes :: "nat \<Rightarrow> string \<Rightarrow> string" where
  "xor_bytes b cs = map (\<lambda>c. char_of (byte_val c XOR b)) cs"

lemma xor_eq_0_nat: "a XOR b = 0 \<longleftrightarrow> a = b" for a b :: nat
  by (auto simp: bit_eq_iff bit_xor_iff)

lemma xor_byte_lt: "b < 256 \<Longrightarrow> byte_val c XOR b < 256"
proof -
  assume b: "b < 256"
  have "take_bit 8 (byte_val c XOR b) = take_bit 8 (byte_val c) XOR take_bit 8 b"
    by (rule take_bit_xor)
  also have "\<dots> = byte_val c XOR b"
    using b byte_val_lt [of c] by (simp add: take_bit_eq_mod)
  finally have "(byte_val c XOR b) mod 256 = byte_val c XOR b" by (simp add: take_bit_eq_mod)
  then show ?thesis by (metis mod_less_divisor zero_less_numeral)
qed

lemma int_eq_byte_split:
  fixes x y :: int
  shows "x mod 256 = y mod 256 \<Longrightarrow> x div 256 = y div 256 \<Longrightarrow> x = y"
  by (metis div_mult_mod_eq)

lemma xor_byte_split:
  fixes L R :: int
  assumes "0 \<le> c" "c < 256" "0 \<le> b" "b < 256"
  shows "(c + 256 * L) XOR (b + 256 * R) = (c XOR b) + 256 * (L XOR R)"
proof (rule int_eq_byte_split)
  have xb: "0 \<le> c XOR b \<and> c XOR b < 256"
    using assms XOR_upper [of c 8 b] by simp
  have "((c + 256 * L) XOR (b + 256 * R)) mod 256 = take_bit 8 (c + 256 * L) XOR take_bit 8 (b + 256 * R)"
    unfolding take_bit_xor [symmetric] by (simp only: take_bit_eq_mod) simp
  also have "\<dots> = c XOR b" using assms by (simp add: take_bit_eq_mod)
  also have "\<dots> = ((c XOR b) + 256 * (L XOR R)) mod 256" using xb by simp
  finally show "((c + 256 * L) XOR (b + 256 * R)) mod 256 = ((c XOR b) + 256 * (L XOR R)) mod 256" .
  have "((c + 256 * L) XOR (b + 256 * R)) div 256 = drop_bit 8 (c + 256 * L) XOR drop_bit 8 (b + 256 * R)"
    unfolding drop_bit_xor [symmetric] by (simp only: drop_bit_eq_div) simp
  also have "\<dots> = L XOR R" using assms by (simp add: drop_bit_eq_div)
  also have "\<dots> = ((c XOR b) + 256 * (L XOR R)) div 256" using xb by simp
  finally show "((c + 256 * L) XOR (b + 256 * R)) div 256 = ((c XOR b) + 256 * (L XOR R)) div 256" .
qed

lemma load_le_xor:
  "b < 256 \<Longrightarrow> load_le (xor_bytes b cs) = load_le cs XOR rep_bytes b (length cs)"
proof (induction cs)
  case Nil
  then show ?case by (simp add: xor_bytes_def)
next
  case (Cons c cs)
  have "int (byte_val c XOR b) = int (byte_val c) XOR int b" by (rule of_nat_xor_eq)
  then show ?case
    using Cons xor_byte_lt [of b c] byte_val_lt [of c]
      xor_byte_split [of "int (byte_val c)" "int b" "load_le cs" "rep_bytes b (length cs)"]
    by (simp add: xor_bytes_def)
qed

lemma bit_high_mask:
  "bit (0x8080808080808080 :: u64) n \<longleftrightarrow> (\<exists>i<8. n = 8 * i + 7)"
proof (cases "n < 64")
  case True
  have "list_all (\<lambda>n. bit (0x8080808080808080 :: u64) n \<longleftrightarrow> n mod 8 = 7) [0..<64]"
    by (simp add: upt_rec)
  then have "bit (0x8080808080808080 :: u64) n \<longleftrightarrow> n mod 8 = 7"
    using True by (simp add: list_all_iff)
  also have "\<dots> \<longleftrightarrow> (\<exists>i<8. n = 8 * i + 7)"
  proof
    assume "n mod 8 = 7"
    then have "n = 8 * (n div 8) + 7" by (metis mult_div_mod_eq)
    moreover have "n div 8 < 8" using True by auto
    ultimately show "\<exists>i<8. n = 8 * i + 7" by blast
  qed auto
  finally show ?thesis .
next
  case False
  then show ?thesis using bit_imp_le_length [of "0x8080808080808080 :: u64" n] by auto
qed

lemma and_high_mask:
  "(w :: u64) AND 0x8080808080808080 \<noteq> 0 \<longleftrightarrow> (\<exists>i<8. bit w (8 * i + 7))"
proof -
  have "w AND 0x8080808080808080 \<noteq> 0 \<longleftrightarrow> (\<exists>n. bit w n \<and> bit (0x8080808080808080 :: u64) n)"
    unfolding bit_eq_iff [of "w AND 0x8080808080808080"] bit_and_iff
    using bit_imp_possible_bit [of w] by auto
  then show ?thesis unfolding bit_high_mask by blast
qed

lemma bit_or3:
  "(\<exists>i<8. bit (a OR b OR c) (8 * i + 7)) \<longleftrightarrow>
     (\<exists>i<8. bit a (8 * i + 7)) \<or> (\<exists>i<8. bit b (8 * i + 7)) \<or> (\<exists>i<8. bit c (8 * i + 7))"
  for a b c :: u64
  by (auto simp: bit_or_iff)

lemma has_byte_below_word:
  fixes w B :: u64
  assumes "length cs = 8" and "w = word_of_int (load_le cs)" and "B = word_of_int (rep_bytes b 8)" and "b \<le> 128"
  shows "(\<exists>i<8. bit ((w - B) AND NOT w) (8 * i + 7)) \<longleftrightarrow> (\<exists>c\<in>set cs. byte_val c < b)"
proof -
  have d: "w - B = word_of_int (load_le cs - rep_bytes b 8)" unfolding assms(2,3) by (rule wi_homs)
  have "bit ((w - B) AND NOT w) (8 * i + 7) \<longleftrightarrow>
      bit (load_le cs - rep_bytes b (length cs)) (8 * i + 7) \<and> \<not> bit (load_le cs) (8 * i + 7)" if "i < 8" for i
    unfolding d using that assms(1,2) by (simp only: bit_and_iff bit_not_iff bit_word_of_int_iff) simp
  then show ?thesis using has_byte_below [OF assms(4), of cs] assms(1) by auto
qed

lemma JSONEscapeNeededIn8_iff:
  assumes "length cs = 8"
  shows "JSONEscapeNeededIn8 cs \<longleftrightarrow> (\<exists>c\<in>set cs. needs_escape c)"
proof -
  let ?v = "word_of_int (load_le cs) :: u64"
  have ones: "(0x0101010101010101 :: u64) = word_of_int (rep_bytes 1 8)"
    and sp: "0x20 * (0x0101010101010101 :: u64) = word_of_int (rep_bytes 0x20 8)"
    and qu: "0x22 * (0x0101010101010101 :: u64) = word_of_int (rep_bytes 0x22 8)"
    and sl: "0x5C * (0x0101010101010101 :: u64) = word_of_int (rep_bytes 0x5C 8)"
    by (simp_all only: numeral_nat rep_bytes.simps) simp_all
  have zero_byte:
    "(\<exists>i<8. bit (((?v XOR B) - 0x0101010101010101) AND NOT (?v XOR B)) (8 * i + 7)) \<longleftrightarrow>
       (\<exists>c\<in>set cs. byte_val c = b)"
    if b: "b < 256" and B: "B = word_of_int (rep_bytes b 8)" for b and B :: u64
  proof -
    have x: "?v XOR B = word_of_int (load_le (xor_bytes b cs))"
      unfolding B load_le_xor [OF b] assms by (rule bit_eqI) (simp add: bit_xor_iff bit_word_of_int_iff)
    have ln: "length (xor_bytes b cs) = 8" using assms by (simp add: xor_bytes_def)
    have "(\<exists>c\<in>set (xor_bytes b cs). byte_val c < 1) \<longleftrightarrow> (\<exists>c\<in>set cs. byte_val c = b)"
      using xor_byte_lt [OF b] by (simp add: xor_bytes_def xor_eq_0_nat)
    then show ?thesis using has_byte_below_word [OF ln x ones] by simp
  qed
  have tk: "take 8 cs = cs" using assms by simp
  have lt22: "(0x22::nat) < 256" and lt5C: "(0x5C::nat) < 256" and le: "(0x20::nat) \<le> 128" by simp_all
  note below = has_byte_below_word [OF assms refl sp le]
  have "JSONEscapeNeededIn8 cs \<longleftrightarrow>
      (\<exists>c\<in>set cs. byte_val c < 0x20) \<or> (\<exists>c\<in>set cs. byte_val c = 0x22) \<or> (\<exists>c\<in>set cs. byte_val c = 0x5C)"
    unfolding JSONEscapeNeededIn8_def Let_def and_high_mask bit_or3 tk
      below zero_byte [OF lt22 qu] zero_byte [OF lt5C sl] disj_assoc by (rule refl)
  also have "\<dots> \<longleftrightarrow> (\<exists>c\<in>set cs. needs_escape c)"
    unfolding needs_escape_iff by blast
  finally show ?thesis .
qed

section \<open>Finding the next byte to escape\<close>

text \<open>
  The SSE2 loop: sixteen bytes, a mask with one bit per byte that is a quote, a backslash
  or at most 0x1F (\<open>max\<close> against 0x1F leaves 0x1F), and \<open>ctz\<close> of the mask.  The first
  component says whether the loop left by the \<open>goto\<close>.
\<close>

definition sse2_mask :: "string \<Rightarrow> nat \<Rightarrow> nat list" where
  "sse2_mask s run =
     filter (\<lambda>k. let c = s ! (run + k) in c = QUOTE \<or> c = BACKSLASH \<or> max (byte_val c) 0x1F = 0x1F) [0..<16]"

function sse2_run :: "string \<Rightarrow> nat \<Rightarrow> bool \<times> nat" where
  "sse2_run s run =
     (if run + 16 \<le> length s then
        (case sse2_mask s run of
           k # _ \<Rightarrow> (True, run + k)
         | [] \<Rightarrow> sse2_run s (run + 16))
      else (False, run))"
  by pat_completeness auto
termination
  by (relation "measure (\<lambda>(s, run). length s - run)") auto

declare sse2_run.simps [simp del]

function word_run :: "string \<Rightarrow> nat \<Rightarrow> nat" where
  "word_run s run =
     (if run + 8 \<le> length s \<and> \<not> JSONEscapeNeededIn8 (slice s run 8) then word_run s (run + 8) else run)"
  by pat_completeness auto
termination
  by (relation "measure (\<lambda>(s, run). length s - run)") auto

declare word_run.simps [simp del]

definition escape_run :: "bool \<Rightarrow> string \<Rightarrow> nat \<Rightarrow> nat" where
  "escape_run sse2 s i =
     (case (if sse2 then sse2_run s i else (False, i)) of
        (True, run) \<Rightarrow> run
      | (False, run) \<Rightarrow>
          scan_while (\<lambda>c. \<not> (c = QUOTE \<or> c = BACKSLASH \<or> byte_val c < 0x20)) s (length s) (word_run s run))"

abbreviation plain :: "char \<Rightarrow> bool" where
  "plain c \<equiv> \<not> needs_escape c"

lemma sse2_mask_filter: "sse2_mask s run = filter (\<lambda>k. needs_escape (s ! (run + k))) [0..<16]"
  by (auto simp: sse2_mask_def needs_escape_def Let_def max_def intro!: filter_cong)

lemma upt_first:
  assumes "filter P [0..<n] = k # ks"
  shows "k < n \<and> P k \<and> (\<forall>j<k. \<not> P j)"
proof -
  obtain us vs where uv: "[0..<n] = us @ k # vs" and us: "\<forall>u\<in>set us. \<not> P u" and k: "P k"
    using filter_eq_ConsD [OF assms] by blast
  have len: "length us < n" using arg_cong [OF uv, of length] by simp
  have "k = [0..<n] ! length us" unfolding uv by simp
  then have kl: "k = length us" using len by simp
  have "us = take (length us) [0..<n]" unfolding uv by simp
  then have "us = [0..<k]" using len kl by simp
  then have "set us = {0..<k}" by (metis set_upt)
  then show ?thesis using us k len kl by simp
qed

lemma sse2_run_spec:
  "i \<le> length s \<Longrightarrow>
     (case sse2_run s i of
        (True, r) \<Rightarrow> r < length s \<and> needs_escape (s ! r)
      | (False, r) \<Rightarrow> r \<le> length s) \<and>
     i \<le> snd (sse2_run s i) \<and> (\<forall>k. i \<le> k \<and> k < snd (sse2_run s i) \<longrightarrow> plain (s ! k))"
proof (induction s i rule: sse2_run.induct)
  case (1 s i)
  show ?case
  proof (cases "i + 16 \<le> length s")
    case False
    with "1.prems" show ?thesis by (auto simp: sse2_run.simps [of s i])
  next
    case le: True
    show ?thesis
    proof (cases "sse2_mask s i")
      case (Cons k ks)
      then have k: "k < 16 \<and> needs_escape (s ! (i + k)) \<and> (\<forall>j<k. plain (s ! (i + j)))"
        unfolding sse2_mask_filter by (rule upt_first)
      then have "plain (s ! j)" if "i \<le> j" and "j < i + k" for j
        using that by (metis add_diff_inverse_nat diff_less_mono less_diff_conv2 linorder_not_le add_diff_cancel_left')
      with k Cons le show ?thesis by (auto simp: sse2_run.simps [of s i])
    next
      case Nil
      then have none: "\<forall>j<16. plain (s ! (i + j))"
        unfolding sse2_mask_filter by (simp add: filter_empty_conv)
      have p: "plain (s ! j)" if "i \<le> j" and "j < i + 16" for j
        using none that le_add_diff_inverse [of i j] by (metis add_less_cancel_left)
      have eq: "sse2_run s i = sse2_run s (i + 16)"
        using Nil le by (simp add: sse2_run.simps [of s i])
      show ?thesis
        using "1.IH" [OF le Nil] le p unfolding eq
        by (auto split: prod.splits bool.splits simp: not_less) (metis not_less)+
    qed
  qed
qed

lemma word_run_spec:
  "i \<le> length s \<Longrightarrow>
     i \<le> word_run s i \<and> word_run s i \<le> length s \<and> (\<forall>k. i \<le> k \<and> k < word_run s i \<longrightarrow> plain (s ! k))"
proof (induction s i rule: word_run.induct)
  case (1 s i)
  show ?case
  proof (cases "i + 8 \<le> length s \<and> \<not> JSONEscapeNeededIn8 (slice s i 8)")
    case True
    then have "length (slice s i 8) = 8" by (auto simp: slice_def min_def)
    then have "\<forall>c\<in>set (slice s i 8). plain c"
      using JSONEscapeNeededIn8_iff True by blast
    then have p: "plain (s ! j)" if "i \<le> j" and "j < i + 8" for j
      using that True by (auto simp: slice_between set_between)
    have eq: "word_run s i = word_run s (i + 8)" using True by (simp add: word_run.simps [of s i])
    show ?thesis using "1.IH" [OF True] True p unfolding eq by (auto simp: not_less) (metis not_less)
  next
    case False
    with "1.prems" show ?thesis by (auto simp: word_run.simps [of s i])
  qed
qed

lemma escape_run_eq:
  assumes "i \<le> length s"
  shows "escape_run sse2 s i = scan_while plain s (length s) i"
proof -
  have byte: "(\<lambda>c. \<not> (c = QUOTE \<or> c = BACKSLASH \<or> byte_val c < 0x20)) = plain"
    by (simp add: needs_escape_def fun_eq_iff)
  have word: "scan_while plain s (length s) (word_run s r) = scan_while plain s (length s) r"
    if "r \<le> length s" for r
    using word_run_spec [OF that] by (intro scan_while_skip [symmetric]) auto
  show ?thesis
  proof (cases sse2)
    case False
    then show ?thesis using word [OF assms] byte by (simp add: escape_run_def)
  next
    case True
    obtain b r where sr: "sse2_run s i = (b, r)" by fastforce
    note sp = sse2_run_spec [OF assms, unfolded sr]
    have skip: "scan_while plain s (length s) i = scan_while plain s (length s) r"
      using sp by (intro scan_while_skip) (auto split: bool.splits)
    show ?thesis
      using sp True sr skip word [of r] byte by (auto simp: escape_run_def scan_while_at split: bool.splits)
  qed
qed

section \<open>Escaping\<close>

definition hex_digit :: "nat \<Rightarrow> char" where
  "hex_digit n = ''0123456789abcdef'' ! n"

text \<open>What the \<open>switch\<close> writes for one byte.\<close>

definition escape_seq :: "char \<Rightarrow> string" where
  "escape_seq c =
     (if c = QUOTE then [BACKSLASH, QUOTE]
      else if c = BACKSLASH then [BACKSLASH, BACKSLASH]
      else if c = CHR 0x08 then [BACKSLASH, CHR ''b'']
      else if c = CHR 0x0C then [BACKSLASH, CHR ''f'']
      else if c = LF then [BACKSLASH, CHR ''n'']
      else if c = CR then [BACKSLASH, CHR ''r'']
      else if c = TAB then [BACKSLASH, CHR ''t'']
      else [BACKSLASH, CHR ''u'', CHR ''0'', CHR ''0'',
            hex_digit (drop_bit 4 (byte_val c) AND 0xF), hex_digit (byte_val c AND 0xF)])"

text \<open>
  The test \<open>written+n>outSize\<close> guarding every write is an addition of \<open>unsigned int\<close>.
  The output written so far is the list \<open>out\<close>; the result is the return value and that
  list.
\<close>

definition fits_u32 :: "nat \<Rightarrow> nat \<Rightarrow> nat \<Rightarrow> bool" where
  "fits_u32 written n outSize \<longleftrightarrow> (written + n) mod 2 ^ 32 \<le> outSize"

lemma escape_run_ge: "i \<le> length s \<Longrightarrow> i \<le> escape_run sse2 s i"
  by (simp add: escape_run_eq scan_while_ge)

function json_escape_loop :: "bool \<Rightarrow> string \<Rightarrow> nat \<Rightarrow> nat \<Rightarrow> string \<Rightarrow> nat \<times> string" where
  "json_escape_loop sse2 inp outSize i out =
     (if i < length inp then
        (let run = escape_run sse2 inp i in
         if run > i \<and> \<not> fits_u32 (length out) (run - i) outSize then (0, out)
         else
           (let out = out @ between inp i run in
            if run > i \<and> run = length inp then (length out, out)
            else
              (let seq = escape_seq (inp ! run) in
               if \<not> fits_u32 (length out) (length seq) outSize then (0, out)
               else json_escape_loop sse2 inp outSize (run + 1) (out @ seq))))
      else (length out, out))"
  by pat_completeness auto
termination
proof (relation "measure (\<lambda>(sse2, inp, outSize, i, out). length inp - i)", goal_cases)
  case (2 sse2 inp outSize i out run outa seq)
  then have "i \<le> run" using escape_run_ge [of i inp sse2] by simp
  with 2 show ?case by auto
qed simp

declare json_escape_loop.simps [simp del]

definition AmmServer_JSONEscape :: "bool \<Rightarrow> string \<Rightarrow> nat \<Rightarrow> nat \<times> string" where
  "AmmServer_JSONEscape sse2 inp outSize = json_escape_loop sse2 inp outSize 0 []"

text \<open>The text the escaping stands for, one byte at a time.\<close>

fun json_text :: "string \<Rightarrow> string" where
  "json_text [] = []"
| "json_text (c # cs) = (if needs_escape c then escape_seq c else [c]) @ json_text cs"

lemma json_text_append: "json_text (a @ b) = json_text a @ json_text b"
  by (induction a) auto

lemma json_text_plain: "\<forall>c\<in>set a. plain c \<Longrightarrow> json_text a = a"
  by (induction a) auto

lemma escape_seq_length: "0 < length (escape_seq c) \<and> length (escape_seq c) \<le> 6"
  by (simp add: escape_seq_def)

lemma json_text_length: "length s \<le> length (json_text s)"
proof (induction s)
  case (Cons c s)
  then show ?case using escape_seq_length [of c] by (cases "escape_seq c") auto
qed simp

lemma fits_u32_iff:
  "written \<le> outSize \<Longrightarrow> outSize + n < 2 ^ 32 \<Longrightarrow> fits_u32 written n outSize \<longleftrightarrow> written + n \<le> outSize"
  by (simp add: fits_u32_def)

lemma json_escape_loop_eq:
  assumes "i \<le> length inp" and "length out \<le> outSize" and "outSize + length inp + 6 < 2 ^ 32"
  shows "fst (json_escape_loop sse2 inp outSize i out)
           = (if length (out @ json_text (drop i inp)) \<le> outSize then length (out @ json_text (drop i inp)) else 0) \<and>
         (length (out @ json_text (drop i inp)) \<le> outSize \<longrightarrow>
            snd (json_escape_loop sse2 inp outSize i out) = out @ json_text (drop i inp))"
  using assms
proof (induction sse2 inp outSize i out rule: json_escape_loop.induct)
  case (1 sse2 inp outSize i out)
  show ?case
  proof (cases "i < length inp")
    case False
    with "1.prems" show ?thesis by (subst (1 2) json_escape_loop.simps) simp
  next
    case lt: True
    let ?run = "escape_run sse2 inp i" and ?b = "between inp i (escape_run sse2 inp i)"
    note rs = escape_run_eq [of i inp sse2, OF less_imp_le, OF lt]
    have r: "i \<le> ?run" "?run \<le> length inp" and stop: "?run < length inp \<Longrightarrow> needs_escape (inp ! ?run)"
      using scan_while_ge [of i plain inp "length inp"] scan_while_le [of i "length inp" plain inp]
        scan_while_stop [of plain inp "length inp" i] lt unfolding rs by auto
    have b: "\<forall>c\<in>set ?b. plain c"
      unfolding rs using lt by (intro between_scan_while) simp_all
    have lb: "length ?b = ?run - i" using r by (simp add: length_between)
    have dr: "json_text (drop i inp) = ?b @ json_text (drop ?run inp)"
      using drop_between [OF r(1), of inp] json_text_plain [OF b] by (simp add: json_text_append)
    have f1: "fits_u32 (length out) (?run - i) outSize \<longleftrightarrow> length out + length ?b \<le> outSize"
      using "1.prems" r lb by (simp add: fits_u32_iff)
    show ?thesis
    proof (cases "?run = length inp")
      case True
      with lt f1 dr show ?thesis
        by (auto simp: json_escape_loop.simps [of sse2 inp outSize i out] Let_def lb)
    next
      case False
      with r have rl: "?run < length inp" by simp
      let ?c = "inp ! ?run" and ?out = "out @ ?b"
      have dr2: "json_text (drop ?run inp) = escape_seq ?c @ json_text (drop (?run + 1) inp)"
        using rl stop by (simp add: Cons_nth_drop_Suc [symmetric])
      show ?thesis
      proof (cases "length ?out \<le> outSize")
        case f: True
        have f2: "fits_u32 (length ?out) (length (escape_seq ?c)) outSize
            \<longleftrightarrow> length (?out @ escape_seq ?c) \<le> outSize"
          using f "1.prems" escape_seq_length [of ?c] by (subst fits_u32_iff) auto
        show ?thesis
        proof (cases "length (?out @ escape_seq ?c) \<le> outSize")
          case True
          let ?out2 = "?out @ escape_seq ?c"
          have g1: "\<not> (i < ?run \<and> \<not> fits_u32 (length out) (?run - i) outSize)" using f1 f by simp
          have g2: "\<not> (i < ?run \<and> ?run = length inp)" using rl by simp
          have g3: "\<not> \<not> fits_u32 (length ?out) (length (escape_seq ?c)) outSize" using f2 True by simp
          have eq: "json_escape_loop sse2 inp outSize i out = json_escape_loop sse2 inp outSize (?run + 1) ?out2"
            using lt g1 g2 g3 by (subst json_escape_loop.simps) (auto simp: Let_def)
          have al: "out @ json_text (drop i inp) = ?out2 @ json_text (drop (?run + 1) inp)"
            unfolding dr dr2 by simp
          have le: "?run + 1 \<le> length inp" using rl by simp
          show ?thesis
            unfolding eq al by (rule "1.IH" [OF lt refl g1 refl g2 refl g3 le True "1.prems"(3)])
        next
          case False
          then show ?thesis
            using lt rl f f1 f2 lb dr dr2
            by (auto simp: json_escape_loop.simps [of sse2 inp outSize i out] Let_def)
        qed
      next
        case nf: False
        then have "i < ?run" using "1.prems"(2) lb by (cases "?run = i") auto
        with nf lt f1 lb dr show ?thesis
          by (auto simp: json_escape_loop.simps [of sse2 inp outSize i out] Let_def)
      qed
    qed
  qed
qed

lemma AmmServer_JSONEscape_text:
  assumes "outSize + length inp + 16 < 2 ^ 32"
  shows "fst (AmmServer_JSONEscape sse2 inp outSize)
           = (if length (json_text inp) \<le> outSize then length (json_text inp) else 0)"
    and "length (json_text inp) \<le> outSize \<Longrightarrow> snd (AmmServer_JSONEscape sse2 inp outSize) = json_text inp"
  using json_escape_loop_eq [of 0 inp "[]" outSize sse2] assms
  by (simp_all add: AmmServer_JSONEscape_def)

section \<open>Properties\<close>

text \<open>
  as long as the two sizes together stay below 2 to the 32, escaping returns the
  length of the escaped text and has written exactly that text when it fits the output,
  and returns 0 when it does not.
\<close>

lemma json_escape_writes_text:
  assumes "outSize + length inp + 16 < 2 ^ 32"
  shows "fst (AmmServer_JSONEscape sse2 inp outSize)
           = (if length (json_text inp) \<le> outSize then length (json_text inp) else 0) \<and>
         (length (json_text inp) \<le> outSize \<longrightarrow> snd (AmmServer_JSONEscape sse2 inp outSize) = json_text inp)"
  using assms by (simp add: AmmServer_JSONEscape_text)

lemma json_escape_writes_text_witness:
  "fst (AmmServer_JSONEscape True (''say '' @ [QUOTE] @ ''hi'' @ [QUOTE, LF]) 20) = 12"
  using json_escape_writes_text [of 20 "''say '' @ [QUOTE] @ ''hi'' @ [QUOTE, LF]" True]
  by (simp add: needs_escape_def escape_seq_def)

lemma json_escape_loop_sse2:
  "json_escape_loop True inp outSize i out = json_escape_loop False inp outSize i out"
proof (induction False inp outSize i out rule: json_escape_loop.induct)
  case (1 inp outSize i out)
  show ?case
  proof (cases "i < length inp")
    case False
    then show ?thesis by (subst (1 2) json_escape_loop.simps) simp
  next
    case True
    then have run: "escape_run True inp i = escape_run False inp i" by (simp add: escape_run_eq)
    show ?thesis
      by (subst (1 2) json_escape_loop.simps) (use 1 True run in \<open>auto simp: Let_def\<close>)
  qed
qed

text \<open>
  the SSE2 build and the portable build write the same bytes and return the same
  length on every input for which \<open>run+16\<close> does not wrap, whatever the size of the output
  buffer.
\<close>

lemma json_escape_builds_agree:
  assumes "length inp + 16 < 2 ^ 32"
  shows "AmmServer_JSONEscape True inp outSize = AmmServer_JSONEscape False inp outSize"
  by (simp add: AmmServer_JSONEscape_def json_escape_loop_sse2)

lemma json_escape_builds_agree_witness:
  "AmmServer_JSONEscape True (replicate 40 (CHR ''a'') @ [QUOTE, NUL]) 64
     = AmmServer_JSONEscape False (replicate 40 (CHR ''a'') @ [QUOTE, NUL]) 64"
  by (rule json_escape_builds_agree) simp

lemma json_escape_loop_run:
  assumes "i < length inp" and "\<forall>k<length inp - i. plain (inp ! (i + k))"
    and "(length out + (length inp - i)) mod 2 ^ 32 \<le> outSize"
  shows "length (snd (json_escape_loop sse2 inp outSize i out)) = length out + (length inp - i)"
proof -
  have "scan_while plain inp (length inp) i = scan_while plain inp (length inp) (length inp)"
  proof (rule scan_while_skip)
    fix k assume "i \<le> k" and "k < length inp"
    with assms(2) [rule_format, of "k - i"] show "plain (inp ! k)" by simp
  qed (use assms in simp_all)
  then have "escape_run sse2 inp i = length inp"
    using assms(1) by (simp add: escape_run_eq scan_while.simps)
  with assms show ?thesis
    by (subst json_escape_loop.simps) (simp add: Let_def fits_u32_def length_between)
qed

lemma json_escape_loop_special:
  assumes "i < length inp" and "inp ! i = NUL" and "length out + 6 \<le> outSize" and "outSize < 2 ^ 32"
  shows "json_escape_loop sse2 inp outSize i out = json_escape_loop sse2 inp outSize (Suc i) (out @ escape_seq NUL)"
proof -
  have "needs_escape NUL" by (simp add: needs_escape_def)
  with assms(1,2) have "escape_run sse2 inp i = i"
    by (simp add: escape_run_eq scan_while_at)
  moreover have "fits_u32 (length out) (length (escape_seq NUL)) outSize"
    using assms(3,4) by (simp add: fits_u32_def escape_seq_def)
  ultimately show ?thesis
    using assms(1,2) by (subst json_escape_loop.simps) (simp add: Let_def between_def)
qed

text \<open>
  the size test is an unsigned addition that wraps: an input of 2 to the 32 minus 20
  bytes, four NUL bytes followed by letters, is written past the end of every output
  buffer that has room for the four escapes.
\<close>

lemma json_escape_wraps:
  assumes "24 \<le> outSize" and "outSize < 2 ^ 32"
  shows "outSize < length (snd (AmmServer_JSONEscape sse2 (replicate 4 NUL @ replicate (2 ^ 32 - 24) (CHR ''a'')) outSize))"
proof -
  define n :: nat where "n = 2 ^ 32 - 24"
  let ?inp = "replicate 4 NUL @ replicate n (CHR ''a'')"
  let ?loop = "json_escape_loop sse2 ?inp outSize"
  let ?e = "escape_seq NUL"
  have n: "24 + n = 2 ^ 32" "0 < n" by (simp_all add: n_def)
  have e: "length ?e = 6" by (simp add: escape_seq_def)
  have special: "?loop i out = ?loop (Suc i) (out @ ?e)" if "i < 4" and "length out + 6 \<le> outSize" for i out
    using that assms(2) by (intro json_escape_loop_special) (simp_all add: nth_append)
  have "?loop 0 [] = ?loop 4 (?e @ ?e @ ?e @ ?e)"
    using special [of 0 "[]"] special [of 1 ?e] special [of 2 "?e @ ?e"] special [of 3 "?e @ ?e @ ?e"] assms(1) e
    by (simp add: numeral_2_eq_2 [symmetric])
  moreover have "length (snd (?loop 4 (?e @ ?e @ ?e @ ?e))) = 24 + n"
  proof (subst json_escape_loop_run)
    show "\<forall>k<length ?inp - 4. plain (?inp ! (4 + k))" by (simp add: nth_append needs_escape_def)
    show "(length (?e @ ?e @ ?e @ ?e) + (length ?inp - 4)) mod 2 ^ 32 \<le> outSize"
      using n(1) by (simp add: e)
  qed (use n(2) e in simp_all)
  ultimately show ?thesis
    using assms(2) n(1) unfolding AmmServer_JSONEscape_def n_def [symmetric] by simp
qed

lemma json_escape_wraps_witness:
  "64 < length (snd (AmmServer_JSONEscape False (replicate 4 NUL @ replicate (2 ^ 32 - 24) (CHR ''a'')) 64))"
  by (rule json_escape_wraps) simp_all

end
