(* ===== verification/JsonParse.thy ===== *)
theory JsonParse
  imports JsonEscape
begin

text \<open>
  The JSON reader of \<open>src/AmmServerlib/tools/json_tools.c\<close>: one string field out of the
  top level object of a document.  \<open>struct JsonParser\<close> is the record \<open>json_parser\<close>; a
  routine that returns 0 is None, one that returns 1 is Some of the parser it leaves.  The
  mutual recursion of \<open>ParseValue\<close>, \<open>ParseObject\<close> and \<open>ParseArray\<close> carries fuel; the
  fuel the entry point starts with is always enough (\<open>parse_fuel_enough\<close>).
\<close>

unbundle bit_operations_syntax

section \<open>The parser state\<close>

record json_parser =
  doc :: string
  cursor :: nat                \<comment> \<open>the field \<open>at\<close>\<close>
  wantedField :: string
  depth :: nat
  outBuf :: string             \<comment> \<open>the field \<open>out\<close>, of \<open>outSize\<close> bytes\<close>
  outLength :: nat
  found :: bool
  foundIsString :: bool

abbreviation outSize :: "json_parser \<Rightarrow> nat" where
  "outSize p \<equiv> length (outBuf p)"

abbreviation docLength :: "json_parser \<Rightarrow> nat" where
  "docLength p \<equiv> length (doc p)"

text \<open>\<open>(p->at<p->length) && (p->doc[p->at]==c)\<close>.\<close>

definition at_char :: "json_parser \<Rightarrow> char \<Rightarrow> bool" where
  "at_char p c \<longleftrightarrow> cursor p < docLength p \<and> doc p ! cursor p = c"

definition advance :: "nat \<Rightarrow> json_parser \<Rightarrow> json_parser" where
  "advance n p = p\<lparr>cursor := cursor p + n\<rparr>"

definition SkipWhitespace :: "json_parser \<Rightarrow> json_parser" where
  "SkipWhitespace p =
     p\<lparr>cursor := scan_while (\<lambda>c. c = SPC \<or> c = TAB \<or> c = LF \<or> c = CR) (doc p) (docLength p) (cursor p)\<rparr>"

definition EmitDecodedByte :: "bool \<Rightarrow> char \<Rightarrow> json_parser \<Rightarrow> json_parser" where
  "EmitDecodedByte capture byte p =
     (if \<not> capture then p
      else p\<lparr>outBuf := (if outLength p < outSize p then (outBuf p)[outLength p := byte] else outBuf p),
             outLength := outLength p + 1\<rparr>)"

definition hex_nibble :: "char \<Rightarrow> nat option" where
  "hex_nibble c =
     (let b = byte_val c
      in if 48 \<le> b \<and> b \<le> 57 then Some (b - 48)
         else if 97 \<le> b \<and> b \<le> 102 then Some (b - 97 + 10)
         else if 65 \<le> b \<and> b \<le> 70 then Some (b - 65 + 10)
         else None)"

text \<open>The loop over \<open>n\<close> hexadecimal digits, written out twice in \<open>ParseUnicodeEscape\<close>.\<close>

fun hex_digits :: "string \<Rightarrow> nat \<Rightarrow> nat \<Rightarrow> nat \<Rightarrow> nat option" where
  "hex_digits d i 0 acc = Some acc"
| "hex_digits d i (Suc n) acc =
     (case hex_nibble (d ! i) of
        None \<Rightarrow> None
      | Some v \<Rightarrow> hex_digits d (Suc i) n ((push_bit 4 acc) OR v))"

text \<open>The branches that write a code point as UTF-8.\<close>

definition emit_utf8 :: "bool \<Rightarrow> nat \<Rightarrow> json_parser \<Rightarrow> json_parser" where
  "emit_utf8 capture cp p =
     (if cp < 0x80 then EmitDecodedByte capture (char_of cp) p
      else if cp < 0x800 then
        EmitDecodedByte capture (char_of (0x80 OR (cp AND 0x3F)))
          (EmitDecodedByte capture (char_of (0xC0 OR drop_bit 6 cp)) p)
      else if cp < 0x10000 then
        EmitDecodedByte capture (char_of (0x80 OR (cp AND 0x3F)))
          (EmitDecodedByte capture (char_of (0x80 OR (drop_bit 6 cp AND 0x3F)))
            (EmitDecodedByte capture (char_of (0xE0 OR drop_bit 12 cp)) p))
      else
        EmitDecodedByte capture (char_of (0x80 OR (cp AND 0x3F)))
          (EmitDecodedByte capture (char_of (0x80 OR (drop_bit 6 cp AND 0x3F)))
            (EmitDecodedByte capture (char_of (0x80 OR (drop_bit 12 cp AND 0x3F)))
              (EmitDecodedByte capture (char_of (0xF0 OR drop_bit 18 cp)) p))))"

definition ParseUnicodeEscape :: "bool \<Rightarrow> json_parser \<Rightarrow> json_parser option" where
  "ParseUnicodeEscape capture p =
     (if cursor p + 4 > docLength p then None
      else
        (case hex_digits (doc p) (cursor p) 4 0 of
           None \<Rightarrow> None
         | Some cp \<Rightarrow>
             (let p = advance 4 p in
              if 0xD800 \<le> cp \<and> cp \<le> 0xDBFF then
                (if cursor p + 6 \<le> docLength p \<and> doc p ! cursor p = BACKSLASH \<and>
                    doc p ! (cursor p + 1) = CHR ''u''
                 then
                   (case hex_digits (doc p) (cursor p + 2) 4 0 of
                      None \<Rightarrow> None
                    | Some low \<Rightarrow>
                        if low < 0xDC00 \<or> low > 0xDFFF then None
                        else Some (emit_utf8 capture
                                     (0x10000 + push_bit 10 (cp - 0xD800) + (low - 0xDC00)) (advance 6 p)))
                 else None)
              else if 0xDC00 \<le> cp \<and> cp \<le> 0xDFFF then None
              else Some (emit_utf8 capture cp p))))"

text \<open>The \<open>switch\<close> on an escaped character, \<open>u\<close> apart.\<close>

definition simple_escape :: "char \<Rightarrow> char option" where
  "simple_escape c =
     (if c = QUOTE then Some QUOTE
      else if c = BACKSLASH then Some BACKSLASH
      else if c = CHR ''/'' then Some (CHR ''/'')
      else if c = CHR ''b'' then Some (CHR 0x08)
      else if c = CHR ''f'' then Some (CHR 0x0C)
      else if c = CHR ''n'' then Some LF
      else if c = CHR ''r'' then Some CR
      else if c = CHR ''t'' then Some TAB
      else None)"

lemma EmitDecodedByte_same [simp]:
  "doc (EmitDecodedByte c b p) = doc p" "cursor (EmitDecodedByte c b p) = cursor p"
  "depth (EmitDecodedByte c b p) = depth p" "wantedField (EmitDecodedByte c b p) = wantedField p"
  "outSize (EmitDecodedByte c b p) = outSize p" "found (EmitDecodedByte c b p) = found p"
  by (simp_all add: EmitDecodedByte_def)

lemma advance_same [simp]:
  "doc (advance n p) = doc p" "cursor (advance n p) = cursor p + n" "depth (advance n p) = depth p"
  "wantedField (advance n p) = wantedField p" "outBuf (advance n p) = outBuf p"
  "outLength (advance n p) = outLength p" "found (advance n p) = found p"
  by (simp_all add: advance_def)

lemma emit_utf8_same [simp]:
  "doc (emit_utf8 c cp p) = doc p" "cursor (emit_utf8 c cp p) = cursor p"
  "outSize (emit_utf8 c cp p) = outSize p"
  by (simp_all add: emit_utf8_def)

lemma ParseUnicodeEscape_progress:
  "ParseUnicodeEscape capture p = Some q \<Longrightarrow>
     doc q = doc p \<and> cursor p + 4 \<le> cursor q \<and> cursor q \<le> docLength p \<and> outSize q = outSize p"
  by (auto simp: ParseUnicodeEscape_def Let_def split: if_splits option.splits)

text \<open>The loop of \<open>ParseString\<close> from behind the opening quote; the parser is left behind the closing one.\<close>

function string_loop :: "bool \<Rightarrow> json_parser \<Rightarrow> json_parser option" where
  "string_loop capture p =
     (if cursor p < docLength p then
        (let c = doc p ! cursor p in
         if c = QUOTE then Some (advance 1 p)
         else if c = BACKSLASH then
           (if cursor p + 1 \<ge> docLength p then None
            else
              (let escaped = doc p ! (cursor p + 1); p2 = advance 2 p in
               if escaped = CHR ''u'' then
                 (case ParseUnicodeEscape capture p2 of
                    None \<Rightarrow> None
                  | Some q \<Rightarrow> string_loop capture q)
               else
                 (case simple_escape escaped of
                    None \<Rightarrow> None
                  | Some b \<Rightarrow> string_loop capture (EmitDecodedByte capture b p2))))
         else if byte_val c < 0x20 then None
         else string_loop capture (advance 1 (EmitDecodedByte capture c p)))
      else None)"
  by pat_completeness auto
termination
proof (relation "measure (\<lambda>(capture, p). docLength p - cursor p)", goal_cases)
  case (2 capture p c escaped p2 q)
  then have "docLength q = docLength p" and "cursor p + 6 \<le> cursor q" and "cursor q \<le> docLength p"
    using ParseUnicodeEscape_progress [of capture p2 q] by simp_all
  then show ?case by simp
qed auto

declare string_loop.simps [simp del]

text \<open>\<open>ParseString\<close>; the raw bytes it hands back are a start and a length in the document.\<close>

definition ParseString :: "bool \<Rightarrow> json_parser \<Rightarrow> (json_parser \<times> nat \<times> nat) option" where
  "ParseString capture p =
     (if \<not> at_char p QUOTE then None
      else
        (let p = advance 1 p; start = cursor p;
             p = (if capture then p\<lparr>outLength := 0\<rparr> else p)
         in case string_loop capture p of
              None \<Rightarrow> None
            | Some q \<Rightarrow> Some (q, start, cursor q - 1 - start)))"

definition skip_digits :: "json_parser \<Rightarrow> json_parser" where
  "skip_digits p = p\<lparr>cursor := scan_while is_digit (doc p) (docLength p) (cursor p)\<rparr>"

definition at_digit :: "json_parser \<Rightarrow> bool" where
  "at_digit p \<longleftrightarrow> cursor p < docLength p \<and> is_digit (doc p ! cursor p)"

definition ParseNumber :: "json_parser \<Rightarrow> json_parser option" where
  "ParseNumber p =
     (let start = cursor p;
          p = (if at_char p (CHR ''-'') then advance 1 p else p)
      in if \<not> at_digit p then None
         else
           (let p = (if at_char p (CHR ''0'') then advance 1 p else skip_digits p) in
            case (if at_char p (CHR ''.'') then
                    (let p = advance 1 p in if \<not> at_digit p then None else Some (skip_digits p))
                  else Some p) of
              None \<Rightarrow> None
            | Some p \<Rightarrow>
                (case (if at_char p (CHR ''e'') \<or> at_char p (CHR ''E'') then
                         (let p = advance 1 p;
                              p = (if at_char p (CHR ''+'') \<or> at_char p (CHR ''-'') then advance 1 p else p)
                          in if \<not> at_digit p then None else Some (skip_digits p))
                       else Some p) of
                   None \<Rightarrow> None
                 | Some p \<Rightarrow> if cursor p > start then Some p else None)))"

definition ParseLiteral :: "string \<Rightarrow> json_parser \<Rightarrow> json_parser option" where
  "ParseLiteral literal p =
     (if cursor p + length literal > docLength p then None
      else if slice (doc p) (cursor p) (length literal) \<noteq> literal then None
      else Some (advance (length literal) p))"

text \<open>Running out of fuel, returning 0, or returning 1.\<close>

datatype presult = Fuel_out | Fail | Parsed json_parser

definition of_option :: "json_parser option \<Rightarrow> presult" where
  "of_option r = (case r of None \<Rightarrow> Fail | Some p \<Rightarrow> Parsed p)"

definition is_wanted :: "json_parser \<Rightarrow> nat \<Rightarrow> nat \<Rightarrow> bool" where
  "is_wanted p nameStart nameLength \<longleftrightarrow>
     depth p = 1 \<and> \<not> found p \<and> nameLength = length (wantedField p) \<and>
     slice (doc p) nameStart nameLength = wantedField p"

text \<open>
  \<open>parse_members\<close> and \<open>parse_elements\<close> are the \<open>while (1)\<close> loops of \<open>ParseObject\<close> and
  \<open>ParseArray\<close>.
\<close>

fun ParseValue :: "nat \<Rightarrow> json_parser \<Rightarrow> presult"
  and ParseObject :: "nat \<Rightarrow> json_parser \<Rightarrow> presult"
  and parse_members :: "nat \<Rightarrow> json_parser \<Rightarrow> presult"
  and ParseArray :: "nat \<Rightarrow> json_parser \<Rightarrow> presult"
  and parse_elements :: "nat \<Rightarrow> json_parser \<Rightarrow> presult" where
  "ParseValue 0 p = Fuel_out"
| "ParseValue (Suc fuel) p =
     (let p = SkipWhitespace p in
      if cursor p \<ge> docLength p then Fail
      else if depth p > 32 then Fail
      else
        (let c = doc p ! cursor p in
         if c = CHR ''{'' then ParseObject fuel p
         else if c = CHR ''['' then ParseArray fuel p
         else if c = QUOTE then of_option (map_option fst (ParseString False p))
         else if c = CHR ''t'' then of_option (ParseLiteral ''true'' p)
         else if c = CHR ''f'' then of_option (ParseLiteral ''false'' p)
         else if c = CHR ''n'' then of_option (ParseLiteral ''null'' p)
         else of_option (ParseNumber p)))"
| "ParseObject 0 p = Fuel_out"
| "ParseObject (Suc fuel) p =
     (let p = SkipWhitespace ((advance 1 p)\<lparr>depth := depth p + 1\<rparr>) in
      if at_char p (CHR ''}'') then Parsed ((advance 1 p)\<lparr>depth := depth p - 1\<rparr>)
      else parse_members fuel p)"
| "parse_members 0 p = Fuel_out"
| "parse_members (Suc fuel) p =
     (case ParseString False (SkipWhitespace p) of
        None \<Rightarrow> Fail
      | Some (p, nameStart, nameLength) \<Rightarrow>
          (let p = SkipWhitespace p in
           if \<not> at_char p (CHR '':'') then Fail
           else
             (let p = SkipWhitespace (advance 1 p) in
              case (if is_wanted p nameStart nameLength then
                      (let p = p\<lparr>found := True, foundIsString := at_char p QUOTE\<rparr> in
                       if foundIsString p then of_option (map_option fst (ParseString True p))
                       else ParseValue fuel p)
                    else ParseValue fuel p) of
                Fuel_out \<Rightarrow> Fuel_out
              | Fail \<Rightarrow> Fail
              | Parsed p \<Rightarrow>
                  (let p = SkipWhitespace p in
                   if cursor p \<ge> docLength p then Fail
                   else if doc p ! cursor p = CHR '','' then parse_members fuel (advance 1 p)
                   else if doc p ! cursor p = CHR ''}'' then Parsed ((advance 1 p)\<lparr>depth := depth p - 1\<rparr>)
                   else Fail))))"
| "ParseArray 0 p = Fuel_out"
| "ParseArray (Suc fuel) p =
     (let p = SkipWhitespace ((advance 1 p)\<lparr>depth := depth p + 1\<rparr>) in
      if at_char p (CHR '']'') then Parsed ((advance 1 p)\<lparr>depth := depth p - 1\<rparr>)
      else parse_elements fuel p)"
| "parse_elements 0 p = Fuel_out"
| "parse_elements (Suc fuel) p =
     (case ParseValue fuel p of
        Fuel_out \<Rightarrow> Fuel_out
      | Fail \<Rightarrow> Fail
      | Parsed p \<Rightarrow>
          (let p = SkipWhitespace p in
           if cursor p \<ge> docLength p then Fail
           else if doc p ! cursor p = CHR '','' then parse_elements fuel (SkipWhitespace (advance 1 p))
           else if doc p ! cursor p = CHR '']'' then Parsed ((advance 1 p)\<lparr>depth := depth p - 1\<rparr>)
           else Fail))"

datatype json_field = AMMSERVER_JSON_MALFORMED | AMMSERVER_JSON_FIELD_NOT_A_STRING | AMMSERVER_JSON_FIELD_OK

definition parse_fuel :: "json_parser \<Rightarrow> nat" where
  "parse_fuel p = 3 * (docLength p - cursor p) + 4"

text \<open>
  The entry point: the result, \<open>*outLength\<close> and the buffer it leaves.  It writes
  \<open>out[0]\<close> before it looks at \<open>outSize\<close>, so a buffer of no bytes is a fault.  What a
  document that turns out malformed has left in the buffer by then is not tracked (None).
\<close>

definition AmmServer_JSONGetStringField ::
    "string option \<Rightarrow> string \<Rightarrow> string \<Rightarrow> (json_field \<times> nat \<times> string option) checked" where
  "AmmServer_JSONGetStringField document field out =
     (case write_at out 0 NUL of
        Inl e \<Rightarrow> Inl e
      | Inr out \<Rightarrow>
          (case document of
             None \<Rightarrow> Inr (AMMSERVER_JSON_MALFORMED, 0, Some out)
           | Some d \<Rightarrow>
               if d = [] then Inr (AMMSERVER_JSON_MALFORMED, 0, Some out)
               else
                 (let p = \<lparr>doc = d, cursor = 0, wantedField = field, depth = 0, outBuf = out,
                           outLength = 0, found = False, foundIsString = False\<rparr>
                  in case ParseValue (parse_fuel p) p of
                       Parsed p \<Rightarrow>
                         (let p = SkipWhitespace p in
                          if cursor p \<noteq> docLength p then Inr (AMMSERVER_JSON_MALFORMED, 0, Some (outBuf p))
                          else if \<not> found p \<or> \<not> foundIsString p
                          then Inr (AMMSERVER_JSON_FIELD_NOT_A_STRING, 0, Some (outBuf p))
                          else Inr (AMMSERVER_JSON_FIELD_OK, outLength p,
                                    Some ((outBuf p)[(if outLength p < outSize p then outLength p else outSize p - 1) := NUL])))
                     | _ \<Rightarrow> Inr (AMMSERVER_JSON_MALFORMED, 0, None))))"

section \<open>Progress\<close>

text \<open>What every routine keeps of the parser, and that it only moves forward inside the document.\<close>

definition follows :: "json_parser \<Rightarrow> json_parser \<Rightarrow> bool" where
  "follows p q \<longleftrightarrow> doc q = doc p \<and> outSize q = outSize p \<and> wantedField q = wantedField p \<and>
     cursor p \<le> cursor q \<and> cursor q \<le> docLength p"

lemma follows_trans: "follows p q \<Longrightarrow> follows q r \<Longrightarrow> follows p r"
  by (auto simp: follows_def)

lemma follows_skip: "cursor p \<le> docLength p \<Longrightarrow> follows p (SkipWhitespace p)"
  by (simp add: follows_def SkipWhitespace_def scan_while_ge scan_while_le)

lemma SkipWhitespace_same [simp]:
  "doc (SkipWhitespace p) = doc p" "depth (SkipWhitespace p) = depth p"
  "wantedField (SkipWhitespace p) = wantedField p" "outBuf (SkipWhitespace p) = outBuf p"
  "outLength (SkipWhitespace p) = outLength p" "found (SkipWhitespace p) = found p"
  "foundIsString (SkipWhitespace p) = foundIsString p"
  by (simp_all add: SkipWhitespace_def)

lemma SkipWhitespace_ge: "cursor p \<le> cursor (SkipWhitespace p)"
  by (simp add: SkipWhitespace_def scan_while_ge)

lemma emit_utf8_wanted [simp]: "wantedField (emit_utf8 c cp p) = wantedField p"
  by (simp add: emit_utf8_def)

lemma ParseUnicodeEscape_wanted: "ParseUnicodeEscape c p = Some q \<Longrightarrow> wantedField q = wantedField p"
  by (auto simp: ParseUnicodeEscape_def Let_def split: if_splits option.splits)

lemma string_loop_follows:
  "string_loop c p = Some q \<Longrightarrow> follows p q \<and> cursor p < cursor q"
proof (induction c p rule: string_loop.induct)
  case (1 c p)
  show ?case
  proof (cases "cursor p < docLength p")
    case False
    with "1.prems" show ?thesis by (simp add: string_loop.simps [of c p])
  next
    case lt: True
    let ?c = "doc p ! cursor p"
    consider (quote) "?c = QUOTE" | (escape) "?c = BACKSLASH" | (plain) "?c \<noteq> QUOTE" "?c \<noteq> BACKSLASH"
      by auto
    then show ?thesis
    proof cases
      case quote
      with lt "1.prems" show ?thesis by (auto simp: string_loop.simps [of c p] follows_def)
    next
      case escape
      with lt "1.prems" have e: "cursor p + 1 < docLength p"
        by (auto simp: string_loop.simps [of c p] Let_def split: if_splits)
      let ?e = "doc p ! (cursor p + 1)"
      show ?thesis
      proof (cases "?e = CHR ''u''")
        case True
        with lt escape e "1.prems" obtain r where r: "ParseUnicodeEscape c (advance 2 p) = Some r"
          and sl: "string_loop c r = Some q"
          by (auto simp: string_loop.simps [of c p] Let_def split: option.splits)
        have "follows r q \<and> cursor r < cursor q"
          using "1.IH"(1) [OF lt refl _ escape _ refl refl True r sl] escape e by simp
        then show ?thesis
          using ParseUnicodeEscape_progress [OF r] ParseUnicodeEscape_wanted [OF r] by (auto simp: follows_def)
      next
        case False
        with lt escape e "1.prems" obtain b where b: "simple_escape ?e = Some b"
          and sl: "string_loop c (EmitDecodedByte c b (advance 2 p)) = Some q"
          by (auto simp: string_loop.simps [of c p] Let_def split: option.splits)
        show ?thesis
          using "1.IH"(2) [OF lt refl _ escape _ refl refl False b sl] escape e by (simp add: follows_def)
      qed
    next
      case plain
      with lt "1.prems" have b: "\<not> byte_val ?c < 0x20"
        and sl: "string_loop c (advance 1 (EmitDecodedByte c ?c p)) = Some q"
        by (auto simp: string_loop.simps [of c p] Let_def split: if_splits)
      show ?thesis
        using "1.IH"(3) [OF lt refl plain b sl] by (simp add: follows_def)
    qed
  qed
qed

lemma ParseString_follows:
  assumes "ParseString c p = Some (q, st, ln)"
  shows "follows p q" and "cursor p < cursor q"
  using assms string_loop_follows
  by (fastforce simp: ParseString_def Let_def follows_def at_char_def split: if_splits option.splits)+

lemma skip_digits_follows: "cursor p \<le> docLength p \<Longrightarrow> follows p (skip_digits p)"
  by (simp add: skip_digits_def follows_def scan_while_ge scan_while_le)

lemma skip_digits_ge: "cursor p \<le> cursor (skip_digits p)"
  by (simp add: skip_digits_def scan_while_ge)

lemma follows_advance: "follows p q \<Longrightarrow> at_char q c \<Longrightarrow> follows p (advance (Suc 0) q)"
  by (simp add: follows_def at_char_def)

lemma follows_skip_digits: "follows p q \<Longrightarrow> follows p (skip_digits q)"
  using skip_digits_follows [of q] by (auto simp: follows_def)

lemma ParseNumber_follows:
  assumes "ParseNumber p = Some q" and "cursor p \<le> docLength p"
  shows "follows p q" and "cursor p < cursor q"
proof -
  have "follows p p" using assms(2) by (simp add: follows_def)
  with assms(1) show "follows p q"
    by (auto simp: ParseNumber_def Let_def split: if_splits option.splits
        intro!: follows_skip_digits intro: follows_advance)
      (blast intro: follows_skip_digits follows_advance)+
  from assms(1) show "cursor p < cursor q"
    by (auto simp: ParseNumber_def Let_def split: if_splits option.splits)
qed

lemma ParseLiteral_follows:
  "ParseLiteral l p = Some q \<Longrightarrow> follows p q \<and> cursor q = cursor p + length l"
  by (auto simp: ParseLiteral_def follows_def split: if_splits)

text \<open>
  A call with fuel for what is left of the document does not run out of it, and on
  success has moved strictly forward.
\<close>

definition good :: "presult \<Rightarrow> json_parser \<Rightarrow> bool" where
  "good r p \<longleftrightarrow> r \<noteq> Fuel_out \<and> (\<forall>q. r = Parsed q \<longrightarrow> follows p q \<and> cursor p < cursor q)"

lemma good_of_option:
  "(\<And>q. r = Some q \<Longrightarrow> follows p q \<and> cursor p < cursor q) \<Longrightarrow> good (of_option r) p"
  by (auto simp: good_def of_option_def split: option.splits)

lemma good_Fail [simp]: "good Fail p"
  by (simp add: good_def)

lemma good_after:
  assumes "good r q" and "follows p q"
  shows "good r p"
proof -
  have le: "cursor p \<le> cursor q" using assms(2) by (simp add: follows_def)
  have "follows p s \<and> cursor p < cursor s" if "r = Parsed s" for s
  proof -
    have "follows q s" and "cursor q < cursor s" using assms(1) that by (simp_all add: good_def)
    with le assms(2) show ?thesis by (blast intro: follows_trans le_less_trans)
  qed
  with assms(1) show ?thesis by (simp add: good_def)
qed

abbreviation left :: "json_parser \<Rightarrow> nat" where
  "left p \<equiv> docLength p - cursor p"

lemma good_value_leaf:
  assumes "cursor p \<le> docLength p"
  shows "good (of_option (map_option fst (ParseString False p))) p" "good (of_option (ParseNumber p)) p"
    "l \<noteq> [] \<Longrightarrow> good (of_option (ParseLiteral l p)) p"
  using ParseString_follows [of False p] ParseNumber_follows [of p] ParseLiteral_follows [of l p] assms
  by (auto intro!: good_of_option)

lemma follows_update:
  "follows p q \<Longrightarrow> follows p (q\<lparr>depth := d\<rparr>)" "follows p q \<Longrightarrow> follows p (q\<lparr>found := f, foundIsString := g\<rparr>)"
  by (simp_all add: follows_def)

lemma follows_step: "follows p q \<Longrightarrow> cursor q < docLength q \<Longrightarrow> follows p (advance 1 q)"
  by (simp add: follows_def)

lemma follows_SkipWhitespace: "follows p q \<Longrightarrow> follows p (SkipWhitespace q)"
  using follows_skip [of q] by (auto simp: follows_def)

lemma left_follows: "follows p q \<Longrightarrow> left q \<le> left p"
  by (auto simp: follows_def)

lemma left_follows_less: "follows p q \<Longrightarrow> cursor p < cursor q \<Longrightarrow> left q < left p"
  by (auto simp: follows_def)

lemma parse_fuel_enough:
  "(cursor p \<le> docLength p \<and> 3 * left p + 1 \<le> fuel \<longrightarrow> good (ParseValue fuel p) p) \<and>
   (cursor p < docLength p \<and> 3 * left p \<le> fuel \<longrightarrow> good (ParseObject fuel p) p) \<and>
   (cursor p \<le> docLength p \<and> 3 * left p + 1 \<le> fuel \<longrightarrow> good (parse_members fuel p) p) \<and>
   (cursor p < docLength p \<and> 3 * left p \<le> fuel \<longrightarrow> good (ParseArray fuel p) p) \<and>
   (cursor p \<le> docLength p \<and> 3 * left p + 2 \<le> fuel \<longrightarrow> good (parse_elements fuel p) p)"
proof (induction fuel arbitrary: p)
  case 0
  then show ?case by auto
next
  case (Suc fuel)
  have V: "good (ParseValue fuel p) p" if "cursor p \<le> docLength p" "3 * left p + 1 \<le> fuel" for p
    using Suc.IH that by blast
  have Ob: "good (ParseObject fuel p) p" if "cursor p < docLength p" "3 * left p \<le> fuel" for p
    using Suc.IH that by blast
  have M: "good (parse_members fuel p) p" if "cursor p \<le> docLength p" "3 * left p + 1 \<le> fuel" for p
    using Suc.IH that by blast
  have A: "good (ParseArray fuel p) p" if "cursor p < docLength p" "3 * left p \<le> fuel" for p
    using Suc.IH that by blast
  have E: "good (parse_elements fuel p) p" if "cursor p \<le> docLength p" "3 * left p + 2 \<le> fuel" for p
    using Suc.IH that by blast
  have opened: "follows p q \<and> cursor p < cursor q \<and> cursor q \<le> docLength q \<and> left q < left p"
    if "cursor p < docLength p" and "q = SkipWhitespace ((advance 1 p)\<lparr>depth := d\<rparr>)" for q d
  proof -
    have "follows p p" using that(1) by (simp add: follows_def)
    then have "follows p q" unfolding that(2)
      using that(1) by (intro follows_SkipWhitespace follows_update follows_step)
    moreover have "cursor p < cursor q"
      unfolding that(2) using SkipWhitespace_ge [of "(advance 1 p)\<lparr>depth := d\<rparr>"] by simp
    ultimately show ?thesis using left_follows_less [of p q] by (simp add: follows_def)
  qed
  have closed: "good (Parsed ((advance 1 q)\<lparr>depth := d\<rparr>)) p"
    if "follows p q" and "cursor q < docLength q" for q d
    using that by (auto simp: good_def follows_def)
  have val: "good (ParseValue (Suc fuel) p) p"
    if le: "cursor p \<le> docLength p" and f: "3 * left p + 1 \<le> Suc fuel"
  proof -
    let ?q = "SkipWhitespace p"
    have q: "follows p ?q" using le by (rule follows_skip)
    then have lq: "left ?q \<le> left p" and cq: "cursor ?q \<le> docLength ?q"
      using left_follows by (auto simp: follows_def)
    have "good (ParseValue (Suc fuel) p) ?q"
      using Ob [of ?q] A [of ?q] good_value_leaf [of ?q] cq lq f by (auto simp: Let_def)
    then show ?thesis using q by (rule good_after)
  qed
  have object: "good (ParseObject (Suc fuel) p) p"
    if lt: "cursor p < docLength p" and f: "3 * left p \<le> Suc fuel"
  proof -
    let ?q = "SkipWhitespace ((advance 1 p)\<lparr>depth := depth p + 1\<rparr>)"
    have q: "follows p ?q" "cursor ?q \<le> docLength ?q" "left ?q < left p" using opened [OF lt refl] by auto
    have "good (parse_members fuel ?q) p"
      using M [of ?q] q f good_after [of _ ?q p] by auto
    then show ?thesis using closed [OF q(1)] by (auto simp: Let_def at_char_def)
  qed
  have array: "good (ParseArray (Suc fuel) p) p"
    if lt: "cursor p < docLength p" and f: "3 * left p \<le> Suc fuel"
  proof -
    let ?q = "SkipWhitespace ((advance 1 p)\<lparr>depth := depth p + 1\<rparr>)"
    have q: "follows p ?q" "cursor ?q \<le> docLength ?q" "left ?q < left p" using opened [OF lt refl] by auto
    have "good (parse_elements fuel ?q) p"
      using E [of ?q] q f good_after [of _ ?q p] by auto
    then show ?thesis using closed [OF q(1)] by (auto simp: Let_def at_char_def)
  qed
  have after: "good (let p = SkipWhitespace q in
             if cursor p \<ge> docLength p then Fail
             else if doc p ! cursor p = CHR '','' then rec (advance 1 p)
             else if doc p ! cursor p = cl then Parsed ((advance 1 p)\<lparr>depth := depth p - 1\<rparr>)
             else Fail) p"
    if q: "follows p q" and cl: "cursor p < cursor q"
      and rec: "\<And>r. follows p r \<Longrightarrow> cursor r \<le> docLength r \<Longrightarrow> left r < left p \<Longrightarrow> good (rec r) r" for q rec cl
  proof -
    let ?q = "SkipWhitespace q"
    have f: "follows p ?q" using q by (rule follows_SkipWhitespace)
    have lt: "cursor p < cursor ?q" using cl SkipWhitespace_ge [of q] by simp
    have "good (rec (advance 1 ?q)) p" if "cursor ?q < docLength ?q"
    proof -
      have fa: "follows p (advance 1 ?q)" using f that by (rule follows_step)
      have "left (advance 1 ?q) < left p" using fa lt by (intro left_follows_less) simp_all
      then show ?thesis using rec [OF fa] fa good_after by (auto simp: follows_def)
    qed
    then show ?thesis using closed [OF f] by (auto simp: Let_def)
  qed
  have elements: "good (parse_elements (Suc fuel) p) p"
    if le: "cursor p \<le> docLength p" and f: "3 * left p + 2 \<le> Suc fuel"
  proof -
    have v: "good (ParseValue fuel p) p" using V [OF le] f by simp
    show ?thesis
    proof (cases "ParseValue fuel p")
      case (Parsed q)
      have q: "follows p q" "cursor p < cursor q" using v Parsed by (auto simp: good_def)
      have "good (parse_elements fuel (SkipWhitespace r)) r"
        if "cursor r \<le> docLength r" and "left r < left p" for r
      proof -
        have s: "follows r (SkipWhitespace r)" using that(1) by (rule follows_skip)
        then have "left (SkipWhitespace r) \<le> left r" by (rule left_follows)
        then have "good (parse_elements fuel (SkipWhitespace r)) (SkipWhitespace r)"
          using E [of "SkipWhitespace r"] s that f by (auto simp: follows_def)
        then show ?thesis using s by (rule good_after)
      qed
      then show ?thesis
        using after [OF q, of "\<lambda>r. parse_elements fuel (SkipWhitespace r)" "CHR '']''"] Parsed by simp
    qed (use v in \<open>auto simp: good_def\<close>)
  qed
  have member: "good (if is_wanted p st ln then
                        (let p = p\<lparr>found := True, foundIsString := at_char p QUOTE\<rparr> in
                         if foundIsString p then of_option (map_option fst (ParseString True p))
                         else ParseValue fuel p)
                      else ParseValue fuel p) p"
    if le: "cursor p \<le> docLength p" and f: "3 * left p + 1 \<le> fuel" for p st ln
  proof -
    let ?p = "p\<lparr>found := True, foundIsString := at_char p QUOTE\<rparr>"
    have fp: "follows p ?p" using le by (simp add: follows_def)
    have v: "good (ParseValue fuel ?p) p" "good (ParseValue fuel p) p"
      using V [of ?p] V [of p] le f good_after [OF _ fp] by simp_all
    have "good (of_option (map_option fst (ParseString True ?p))) p"
      by (rule good_after [OF good_of_option fp]) (use ParseString_follows [of True ?p] in auto)
    with v show ?thesis by (cases "at_char p QUOTE") (simp_all add: Let_def)
  qed
  have members: "good (parse_members (Suc fuel) p) p"
    if le: "cursor p \<le> docLength p" and f: "3 * left p + 1 \<le> Suc fuel"
  proof (cases "ParseString False (SkipWhitespace p)")
    case None
    then show ?thesis by simp
  next
    case (Some x)
    obtain a st ln where x: "x = (a, st, ln)" by (cases x) auto
    let ?b = "SkipWhitespace a" and ?c = "SkipWhitespace (advance 1 (SkipWhitespace a))"
    have fa: "follows p a" "cursor p < cursor a"
      using ParseString_follows [OF Some [unfolded x]] follows_skip [OF le] SkipWhitespace_ge [of p]
        follows_trans by auto
    have fb: "follows p ?b" using fa(1) by (rule follows_SkipWhitespace)
    show ?thesis
    proof (cases "at_char ?b (CHR '':'')")
      case False
      with Some x show ?thesis by (simp add: Let_def)
    next
      case True
      then have "follows p (advance 1 ?b)" using fb by (intro follows_step) (auto simp: at_char_def)
      then have fc: "follows p ?c" by (rule follows_SkipWhitespace)
      have cc: "cursor p < cursor ?c"
        using fa(2) SkipWhitespace_ge [of a] SkipWhitespace_ge [of "advance 1 ?b"] by simp
      have lc: "left ?c < left p" using fc cc by (rule left_follows_less)
      let ?m = "if is_wanted ?c st ln then
                  (let p = ?c\<lparr>found := True, foundIsString := at_char ?c QUOTE\<rparr> in
                   if foundIsString p then of_option (map_option fst (ParseString True p))
                   else ParseValue fuel p)
                else ParseValue fuel ?c"
      have m: "good ?m ?c" using fc lc f by (intro member) (auto simp: follows_def)
      have eq: "parse_members (Suc fuel) p =
          (case ?m of Fuel_out \<Rightarrow> Fuel_out | Fail \<Rightarrow> Fail
           | Parsed p \<Rightarrow> (let p = SkipWhitespace p in
               if cursor p \<ge> docLength p then Fail
               else if doc p ! cursor p = CHR '','' then parse_members fuel (advance 1 p)
               else if doc p ! cursor p = CHR ''}'' then Parsed ((advance 1 p)\<lparr>depth := depth p - 1\<rparr>)
               else Fail))"
        using Some x True by (simp add: Let_def)
      show ?thesis
      proof (cases ?m)
        case (Parsed q)
        have q: "follows p q" "cursor p < cursor q"
          using m fc cc follows_trans unfolding Parsed by (auto simp: good_def)
        have "good (parse_members fuel r) r" if "cursor r \<le> docLength r" and "left r < left p" for r
          using M [of r] that f by simp
        then show ?thesis
          unfolding eq Parsed using after [OF q, of "parse_members fuel" "CHR ''}''"] by simp
      qed (use m eq in \<open>auto simp: good_def\<close>)
    qed
  qed
  show ?case using val object members array elements by blast
qed

section \<open>Reading back what was escaped\<close>

definition emit_all :: "bool \<Rightarrow> string \<Rightarrow> json_parser \<Rightarrow> json_parser" where
  "emit_all capture s p = fold (EmitDecodedByte capture) s p"

lemma emit_all_simps [simp]:
  "emit_all c [] p = p" "emit_all c (x # xs) p = emit_all c xs (EmitDecodedByte c x p)"
  by (simp_all add: emit_all_def)

lemma emit_all_same [simp]:
  "doc (emit_all c s p) = doc p" "cursor (emit_all c s p) = cursor p" "depth (emit_all c s p) = depth p"
  "wantedField (emit_all c s p) = wantedField p" "outSize (emit_all c s p) = outSize p"
  "found (emit_all c s p) = found p"
  by (induction s arbitrary: p) auto

lemma Emit_foundIsString [simp]: "foundIsString (EmitDecodedByte c b p) = foundIsString p"
  by (simp add: EmitDecodedByte_def)

lemma emit_all_foundIsString [simp]: "foundIsString (emit_all c s p) = foundIsString p"
  by (induction s arbitrary: p) auto

lemma emit_all_False [simp]: "emit_all False s p = p"
  by (induction s arbitrary: p) (auto simp: EmitDecodedByte_def)

lemma emit_all_cursor: "(EmitDecodedByte c b p)\<lparr>cursor := n\<rparr> = EmitDecodedByte c b (p\<lparr>cursor := n\<rparr>)"
  by (simp add: EmitDecodedByte_def)

lemma emit_all_out:
  "outLength (emit_all True s p) = outLength p + length s \<and>
   (outLength p + length s \<le> outSize p \<longrightarrow>
      take (outLength p + length s) (outBuf (emit_all True s p)) = take (outLength p) (outBuf p) @ s)"
proof (induction s arbitrary: p)
  case Nil
  then show ?case by simp
next
  case (Cons x s)
  have "take (Suc (outLength p)) ((outBuf p)[outLength p := x]) = take (outLength p) (outBuf p) @ [x]"
    if "outLength p < outSize p"
    using that by (simp add: take_Suc_conv_app_nth)
  then show ?case
    using Cons.IH [of "EmitDecodedByte True x p"] by (auto simp: EmitDecodedByte_def)
qed

lemma hex_nibble_digit: "n < 16 \<Longrightarrow> hex_nibble (hex_digit n) = Some n"
proof -
  have "list_all (\<lambda>n. hex_nibble (hex_digit n) = Some n) [0..<16]"
    by (simp add: upt_rec hex_digit_def hex_nibble_def)
  then show "n < 16 \<Longrightarrow> hex_nibble (hex_digit n) = Some n" by (simp add: list_all_iff)
qed

lemma and_nibble: "n AND 0xF = n mod 16" for n :: nat
proof -
  have "n AND mask 4 = n mod 2 ^ 4" by (simp only: take_bit_eq_mask [symmetric] take_bit_eq_mod)
  then show ?thesis by (simp add: mask_eq_exp_minus_1)
qed

lemma nibbles: "b < 32 \<Longrightarrow> push_bit 4 (drop_bit 4 b AND 0xF) OR (b AND 0xF) = b" for b :: nat
proof -
  assume "b < 32"
  then have "drop_bit 4 b AND 0xF = drop_bit 4 b" by (simp add: and_nibble drop_bit_eq_div)
  moreover have "b AND 0xF = take_bit 4 b" by (simp add: and_nibble take_bit_eq_mod)
  moreover have "push_bit 4 (drop_bit 4 b) OR take_bit 4 b = b"
    by (rule bit_eqI) (auto simp: bit_or_iff bit_push_bit_iff bit_drop_bit_eq bit_take_bit_iff)
  ultimately show ?thesis by simp
qed

lemma nibble_lt: "(n AND 0xF) < (16::nat)"
  by (simp add: and_nibble)

lemma parse_u00:
  assumes "doc p = pre @ ''00'' @ [hex_digit (drop_bit 4 b AND 0xF), hex_digit (b AND 0xF)] @ post"
    and "cursor p = length pre" and "b < 32"
  shows "ParseUnicodeEscape c p = Some (EmitDecodedByte c (char_of b) (advance 4 p))"
proof -
  have "hex_nibble (CHR ''0'') = Some 0" by (simp add: hex_nibble_def)
  then have "hex_digits (doc p) (cursor p) 4 0 = Some (push_bit 4 (drop_bit 4 b AND 0xF) OR (b AND 0xF))"
    using assms(1,2) nibble_lt [of b] nibble_lt [of "drop_bit 4 b"]
    by (simp add: numeral_nat nth_append hex_nibble_digit)
  then have "hex_digits (doc p) (cursor p) 4 0 = Some b"
    unfolding nibbles [OF assms(3)] .
  moreover have "cursor p + 4 \<le> docLength p" using assms(1,2) by simp
  ultimately show ?thesis
    using assms(3) by (simp add: ParseUnicodeEscape_def emit_utf8_def Let_def)
qed

lemma simple_escape_seq:
  assumes "needs_escape c"
  shows "(\<exists>e. escape_seq c = [BACKSLASH, e] \<and> e \<noteq> CHR ''u'' \<and> simple_escape e = Some c) \<or>
         (byte_val c < 32 \<and>
          escape_seq c = [BACKSLASH, CHR ''u''] @ ''00'' @
            [hex_digit (drop_bit 4 (byte_val c) AND 0xF), hex_digit (byte_val c AND 0xF)])"
  using assms by (auto simp: escape_seq_def simple_escape_def needs_escape_def)

text \<open>From behind the opening quote, the reader of an escaped text emits the text and stops behind the closing quote.\<close>

lemma string_loop_json_text:
  assumes "doc p = pre @ json_text s @ QUOTE # post" and "cursor p = length pre"
  shows "string_loop c p = Some (emit_all c s (p\<lparr>cursor := length pre + length (json_text s) + 1\<rparr>))"
  using assms
proof (induction s arbitrary: pre p)
  case Nil
  then show ?case by (subst string_loop.simps) (simp add: advance_def)
next
  case (Cons x s)
  show ?case
  proof (cases "needs_escape x")
    case False
    let ?p = "advance 1 (EmitDecodedByte c x p)"
    have "string_loop c p = string_loop c ?p"
      using Cons.prems False by (subst string_loop.simps) (simp add: needs_escape_def)
    also have "\<dots> = Some (emit_all c s (?p\<lparr>cursor := length (pre @ [x]) + length (json_text s) + 1\<rparr>))"
      using Cons.prems False by (intro Cons.IH) simp_all
    finally show ?thesis using False by (simp add: advance_def emit_all_cursor)
  next
    case True
    let ?es = "escape_seq x"
    have step: "string_loop c p = string_loop c (EmitDecodedByte c x (advance (length ?es) p))"
      using simple_escape_seq [OF True]
    proof
      assume "\<exists>e. ?es = [BACKSLASH, e] \<and> e \<noteq> CHR ''u'' \<and> simple_escape e = Some x"
      then obtain e where "?es = [BACKSLASH, e]" "e \<noteq> CHR ''u''" "simple_escape e = Some x" by blast
      then show ?thesis
        using Cons.prems True by (subst string_loop.simps) (simp add: nth_append numeral_2_eq_2)
    next
      assume "byte_val x < 32 \<and> ?es = [BACKSLASH, CHR ''u''] @ ''00'' @
                [hex_digit (drop_bit 4 (byte_val x) AND 0xF), hex_digit (byte_val x AND 0xF)]"
      then have lt: "byte_val x < 32" and es: "?es = [BACKSLASH, CHR ''u''] @ ''00'' @
                [hex_digit (drop_bit 4 (byte_val x) AND 0xF), hex_digit (byte_val x AND 0xF)]" by simp_all
      have "ParseUnicodeEscape c (advance 2 p) = Some (EmitDecodedByte c x (advance 4 (advance 2 p)))"
        using parse_u00 [of "advance 2 p" "pre @ [BACKSLASH, CHR ''u'']" "byte_val x" "json_text s @ QUOTE # post" c]
          Cons.prems True es lt by simp
      moreover have "length ?es = 6" and "advance 4 (advance 2 p) = advance 6 p"
        unfolding es by (simp_all add: advance_def)
      moreover have "doc p ! cursor p = BACKSLASH" and "doc p ! (cursor p + 1) = CHR ''u''"
        and "cursor p + 1 < docLength p"
        using Cons.prems True es by (simp_all add: nth_append)
      ultimately show ?thesis by (subst string_loop.simps) simp
    qed
    also have "\<dots> = Some (emit_all c s ((EmitDecodedByte c x (advance (length ?es) p))
                        \<lparr>cursor := length (pre @ ?es) + length (json_text s) + 1\<rparr>))"
      using Cons.prems True by (intro Cons.IH) simp_all
    finally show ?thesis using True by (simp add: advance_def emit_all_cursor add.assoc)
  qed
qed

lemma ParseString_json_text:
  assumes "doc p = pre @ QUOTE # json_text s @ QUOTE # post" and "cursor p = length pre"
  shows "ParseString c p =
    Some (emit_all c s ((if c then p\<lparr>outLength := 0\<rparr> else p)\<lparr>cursor := length pre + length (json_text s) + 2\<rparr>),
          length pre + 1, length (json_text s))"
proof -
  have swap: "r\<lparr>cursor := a, outLength := b\<rparr> = r\<lparr>outLength := b, cursor := a\<rparr>" for r :: json_parser and a b
    by simp
  let ?p = "if c then (advance 1 p)\<lparr>outLength := 0\<rparr> else advance 1 p"
  have "string_loop c ?p = Some (emit_all c s (?p\<lparr>cursor := length (pre @ [QUOTE]) + length (json_text s) + 1\<rparr>))"
    using assms by (intro string_loop_json_text [where post = post]) simp_all
  moreover have "at_char p QUOTE" using assms by (simp add: at_char_def)
  ultimately show ?thesis
    using assms by (cases c) (simp_all add: ParseString_def Let_def advance_def swap)
qed

text \<open>Text and its quoted JSON form, as an encoder and a decoder.\<close>

definition json_quote :: "string \<Rightarrow> string" where
  "json_quote s = [QUOTE] @ json_text s @ [QUOTE]"

definition json_unquote :: "string \<Rightarrow> string option" where
  "json_unquote d =
     map_option (\<lambda>(q, _, _). take (outLength q) (outBuf q))
       (ParseString True \<lparr>doc = d, cursor = 0, wantedField = [], depth = 0, outBuf = d,
                          outLength = 0, found = False, foundIsString = False\<rparr>)"

lemma json_unquote_quote: "json_unquote (json_quote s) = Some s"
proof -
  let ?d = "json_quote s"
  let ?p = "\<lparr>doc = ?d, cursor = 0, wantedField = [], depth = 0, outBuf = ?d,
             outLength = 0, found = False, foundIsString = False\<rparr>"
  have "ParseString True ?p = Some (emit_all True s (?p\<lparr>outLength := 0,
          cursor := length (json_text s) + 2\<rparr>), 1, length (json_text s))"
    using ParseString_json_text [of ?p "[]" s "[]" True] by (simp add: json_quote_def)
  moreover have "length s \<le> length ?d"
    using json_text_length [of s] by (simp add: json_quote_def)
  ultimately show ?thesis
    using emit_all_out [of s "?p\<lparr>outLength := 0, cursor := length (json_text s) + 2\<rparr>"]
    by (simp add: json_unquote_def)
qed

interpretation json: codec json_quote json_unquote
  by unfold_locales (rule json_unquote_quote)

section \<open>Properties\<close>



lemma emit_all_depth: "(emit_all c s q)\<lparr>depth := m\<rparr> = emit_all c s (q\<lparr>depth := m\<rparr>)"
proof (induction s arbitrary: q)
  case (Cons x s)
  have "(EmitDecodedByte c x q)\<lparr>depth := m\<rparr> = EmitDecodedByte c x (q\<lparr>depth := m\<rparr>)"
    by (simp add: EmitDecodedByte_def)
  with Cons show ?case by simp
qed simp

lemma emit_all_moved: "(emit_all c s q)\<lparr>cursor := n\<rparr> = emit_all c s (q\<lparr>cursor := n\<rparr>)"
  by (induction s arbitrary: q) (simp_all add: emit_all_cursor)

lemma field_document:
  fixes s field out :: string
  defines "d \<equiv> [CHR ''{''] @ json_quote field @ [CHR '':''] @ json_quote s @ [CHR ''}'']"
  assumes "\<forall>c\<in>set field. plain c"
  defines "p \<equiv> \<lparr>doc = d, cursor = 0, wantedField = field, depth = 0, outBuf = out,
                 outLength = 0, found = False, foundIsString = False\<rparr>"
  shows "ParseValue (parse_fuel p) p =
    Parsed (emit_all True s (p\<lparr>cursor := length d, found := True, foundIsString := True\<rparr>))"
proof -
  let ?f = "length field" and ?j = "length (json_text s)"
  have ft: "json_text field = field" using assms(2) by (rule json_text_plain)
  have d: "d = CHR ''{'' # QUOTE # field @ QUOTE # CHR '':'' # QUOTE # json_text s @ QUOTE # ''}''"
    by (simp add: d_def json_quote_def ft)
  obtain fuel where fuel: "parse_fuel p = Suc (Suc (Suc fuel))"
    by (rule that [of "3 * (docLength p - cursor p) + 1"]) (simp add: parse_fuel_def)
  have stay: "SkipWhitespace r = r"
    if "doc r = d" and "cursor r < length d" and "d ! cursor r \<notin> {SPC, TAB, LF, CR}" for r
    using that by (simp add: SkipWhitespace_def scan_while_at)
  let ?p1 = "p\<lparr>cursor := 1, depth := 1\<rparr>"
  have name: "ParseString False ?p1 = Some (?p1\<lparr>cursor := ?f + 3\<rparr>, 2, ?f)"
    using ParseString_json_text [of ?p1 "''{''" field "CHR '':'' # QUOTE # json_text s @ QUOTE # ''}''" False] ft
    by (simp add: d p_def numeral_nat)
  let ?p2 = "?p1\<lparr>cursor := ?f + 3\<rparr>" and ?p3 = "?p1\<lparr>cursor := ?f + 4\<rparr>"
  let ?p4 = "?p3\<lparr>found := True, foundIsString := True\<rparr>"
  let ?q = "?p4\<lparr>cursor := ?f + ?j + 6\<rparr>"
  have len: "length d = ?f + ?j + 7" by (simp add: d)
  have chars: "d ! 0 = CHR ''{''" "d ! 1 = QUOTE" "d ! (?f + 3) = CHR '':''" "d ! (?f + 4) = QUOTE"
    "d ! (?f + ?j + 6) = CHR ''}''"
    by (simp_all add: d nth_append numeral_nat)
  have p1: "SkipWhitespace ((advance 1 p)\<lparr>depth := depth p + 1\<rparr>) = ?p1"
    using stay [of ?p1] chars len by (simp add: p_def advance_def)
  have p3: "SkipWhitespace (advance 1 (SkipWhitespace ?p2)) = ?p3" and c2: "at_char (SkipWhitespace ?p2) (CHR '':'')"
    using stay [of ?p2] stay [of ?p3] chars len by (simp_all add: p_def advance_def at_char_def numeral_nat)
  have wanted: "is_wanted ?p3 2 ?f"
    by (simp add: is_wanted_def p_def slice_def d)
  have val: "ParseString True ?p4 = Some (emit_all True s (?p4\<lparr>outLength := 0\<rparr>\<lparr>cursor := ?f + ?j + 6\<rparr>), ?f + 5, ?j)"
    using ParseString_json_text [of ?p4 "''{'' @ QUOTE # field @ QUOTE # '':''" s "''}''" True]
    by (simp add: d p_def numeral_nat add.commute add.left_commute)
  have out0: "?p4\<lparr>outLength := 0\<rparr>\<lparr>cursor := ?f + ?j + 6\<rparr> = ?q" by (simp add: p_def)
  have q: "SkipWhitespace (emit_all True s ?q) = emit_all True s ?q"
    using stay [of "emit_all True s ?q"] chars len by (simp add: p_def)
  have "ParseValue (parse_fuel p) p = ParseObject (Suc (Suc fuel)) p"
    unfolding fuel using stay [of p] chars len by (simp add: p_def)
  also have "\<dots> = parse_members (Suc fuel) ?p1"
    using p1 chars len by (simp add: Let_def at_char_def p_def)
  also have "\<dots> = Parsed ((advance 1 (emit_all True s ?q))\<lparr>depth := 0\<rparr>)"
    using stay [of ?p1] chars len name p3 c2 wanted val out0 q
    by (simp add: Let_def at_char_def p_def of_option_def)
  also have "(advance 1 (emit_all True s ?q))\<lparr>depth := 0\<rparr>
      = emit_all True s (p\<lparr>cursor := length d, found := True, foundIsString := True\<rparr>)"
    by (simp add: advance_def emit_all_depth emit_all_moved len p_def add.commute add.left_commute)
  finally show ?thesis .
qed

lemma AmmServer_JSONGetStringField_document:
  assumes "\<forall>c\<in>set field. plain c" and "length s < length out"
    and "d = [CHR ''{''] @ json_quote field @ [CHR '':''] @ json_quote s @ [CHR ''}'']"
  shows "\<exists>buf. AmmServer_JSONGetStringField (Some d) field out
                 = Inr (AMMSERVER_JSON_FIELD_OK, length s, Some buf) \<and>
               length buf = length out \<and> take (length s) buf = s \<and> buf ! length s = NUL"
proof -
  let ?out = "out[0 := NUL]"
  let ?p = "\<lparr>doc = d, cursor = 0, wantedField = field, depth = 0, outBuf = ?out,
             outLength = 0, found = False, foundIsString = False\<rparr>"
  let ?q = "emit_all True s (?p\<lparr>cursor := length d, found := True, foundIsString := True\<rparr>)"
  have val: "ParseValue (parse_fuel ?p) ?p = Parsed ?q"
    unfolding assms(3) using assms(1) by (rule field_document)
  have ws: "SkipWhitespace ?q = ?q"
    by (simp add: SkipWhitespace_def scan_while.simps)
  have out: "outLength ?q = length s \<and> length (outBuf ?q) = length out \<and> take (length s) (outBuf ?q) = s"
    using emit_all_out [of s "?p\<lparr>cursor := length d, found := True, foundIsString := True\<rparr>"]
      emit_all_same(5) [of True s "?p\<lparr>cursor := length d, found := True, foundIsString := True\<rparr>"] assms(2)
    by simp
  have w: "write_at out 0 NUL = Inr ?out" and "d \<noteq> []"
    using assms(2,3) by (auto simp: write_at_def)
  then show ?thesis
    using val ws out assms(2) by (simp add: AmmServer_JSONGetStringField_def Let_def)
qed

text \<open>
  C32: reading back what the server writes: for every byte string, escaping it and
  placing it as the value of a field of an object gives a document from which the
  reader extracts exactly that byte string, NUL terminated, when the buffer has room.
\<close>

theorem json_field_roundtrip:
  assumes "\<forall>c\<in>set field. plain c" and "length s < length out"
    and "bytes + length s + 16 < 2 ^ 32" and "AmmServer_JSONEscape sse2 s bytes = (n, escaped)"
    and "s = [] \<or> n \<noteq> 0"
    and "document = [CHR ''{'', QUOTE] @ field @ [QUOTE, CHR '':'', QUOTE] @ escaped @ [QUOTE, CHR ''}'']"
  shows "\<exists>buf. AmmServer_JSONGetStringField (Some document) field out
                 = Inr (AMMSERVER_JSON_FIELD_OK, length s, Some buf) \<and>
               length buf = length out \<and> take (length s) buf = s \<and> buf ! length s = NUL"
proof (rule AmmServer_JSONGetStringField_document)
  have "escaped = json_text s"
    using AmmServer_JSONEscape_text [OF assms(3), of sse2] assms(4,5) by (auto split: if_splits)
  then show "document = [CHR ''{''] @ json_quote field @ [CHR '':''] @ json_quote s @ [CHR ''}'']"
    using assms(1,6) by (simp add: json_quote_def json_text_plain)
qed (use assms in auto)

theorem json_field_roundtrip_witness:
  "\<exists>buf. AmmServer_JSONGetStringField
       (Some ([CHR ''{'', QUOTE] @ ''k'' @ [QUOTE, CHR '':'', QUOTE] @ [CHR ''a'', BACKSLASH, QUOTE] @ [QUOTE, CHR ''}'']))
       ''k'' (replicate 4 NUL) = Inr (AMMSERVER_JSON_FIELD_OK, 2, Some buf) \<and> take 2 buf = [CHR ''a'', QUOTE]"
proof -
  have esc: "AmmServer_JSONEscape True [CHR ''a'', QUOTE] 10 = (3, [CHR ''a'', BACKSLASH, QUOTE])"
    using AmmServer_JSONEscape_text [of 10 "[CHR ''a'', QUOTE]" True]
    by (simp add: needs_escape_def escape_seq_def prod_eq_iff)
  have "10 + length [CHR ''a'', QUOTE] + 16 < 2 ^ 32" by simp
  from json_field_roundtrip [OF _ _ this esc _ refl, of "''k''" "replicate 4 NUL"]
  show ?thesis by (auto simp: needs_escape_def numeral_2_eq_2)
qed

text \<open>
  two byte strings that are escaped to the same JSON text are the same string, so
  no two values collide in the documents the server writes.
\<close>

lemma json_escape_injective:
  assumes "AmmServer_JSONEscape sse2 s bytes = (n, escaped)" and "AmmServer_JSONEscape sse2' t bytes' = (m, escaped)"
    and "bytes + length s + 16 < 2 ^ 32" and "bytes' + length t + 16 < 2 ^ 32" and "n \<noteq> 0" and "m \<noteq> 0"
  shows "s = t"
proof -
  have "escaped = json_text s" and "escaped = json_text t"
    using AmmServer_JSONEscape_text [OF assms(3), of sse2] AmmServer_JSONEscape_text [OF assms(4), of sse2'] assms
    by (auto split: if_splits)
  then have "json_quote s = json_quote t" by (simp add: json_quote_def)
  then show ?thesis by (simp add: json.encode_eq_iff)
qed

lemma json_escape_injective_witness:
  "AmmServer_JSONEscape False ''ba'' 10 \<noteq> (2, ''ab'')"
proof
  assume "AmmServer_JSONEscape False ''ba'' 10 = (2, ''ab'')"
  moreover have "AmmServer_JSONEscape True ''ab'' 10 = (2, ''ab'')"
    using AmmServer_JSONEscape_text [of 10 "''ab''" True] by (simp add: needs_escape_def prod_eq_iff)
  ultimately show False
    using json_escape_injective [of True "''ab''" 10 2 "''ab''" False "''ba''" 10 2] by simp
qed

end
