(* ===== verification/Hashmap.thy ===== *)
theory Hashmap
  imports Prelude "HOL-Library.Multiset"
begin

text \<open>
  The string map the server keeps its cache and its sessions in
  (\<open>src/Hashmap/hashmap.c\<close>).  The record \<open>hashMap\<close> is \<open>struct hashMap\<close>; its \<open>entries\<close> is
  the whole allocated array, of \<open>maxNumberOfEntries\<close> slots, so that slots a removal or a
  failed insertion left behind keep their contents.  What \<open>malloc\<close> and \<open>realloc\<close> answer,
  what \<open>fopen\<close> answers and what a payload pointer points to are arguments.  \<open>qsort\<close> is a
  stable sort by hash and \<open>bsearch\<close> the binary search of the C library.  The maps are the
  ones \<open>hashMap_Create\<close> returns, whose \<open>entries\<close> pointer is not NULL.
\<close>

unbundle bit_operations_syntax

section \<open>The code\<close>

record hashMapEntry =
  index :: nat
  keyHash :: u64
  keyLength :: nat
  key :: "string option"
  payloadLength :: nat
  payload :: u64
  payloadBytes :: string
  hits :: nat

record hashMap =
  curNumberOfEntries :: nat
  entryAllocationStep :: nat
  entries :: "hashMapEntry list"
  clearItemCallback :: bool
  isSorted :: bool
  useSorting :: bool

abbreviation maxNumberOfEntries :: "hashMap \<Rightarrow> nat" where
  "maxNumberOfEntries hm \<equiv> length (entries hm)"

abbreviation zero_entry :: hashMapEntry where
  "zero_entry \<equiv> \<lparr>index = 0, keyHash = 0, keyLength = 0, key = None, payloadLength = 0,
                 payload = 0, payloadBytes = [], hits = 0\<rparr>"

text \<open>djb2; the loop adds the terminating NUL too, and \<open>char\<close> is signed.\<close>

fun hash_loop :: "u64 \<Rightarrow> string \<Rightarrow> u64" where
  "hash_loop hash [] = push_bit 5 hash + hash"
| "hash_loop hash (c # cs) =
     (let hash' = (push_bit 5 hash + hash) + word_of_int (schar_val c)
      in if c = NUL then hash' else hash_loop hash' cs)"

definition hashFunction :: "string option \<Rightarrow> u64" where
  "hashFunction str =
     (case str of
        None \<Rightarrow> 0
      | Some s \<Rightarrow> (if s = [] \<or> hd s = NUL then 0 else hash_loop 5381 s))"

text \<open>\<open>realloc\<close> and \<open>memset\<close> of the new slots; the sum of the two sizes is 32 bits wide.\<close>

definition hashMap_Grow :: "bool \<Rightarrow> hashMap \<Rightarrow> nat \<Rightarrow> (hashMap \<times> bool) checked" where
  "hashMap_Grow realloc_ok hm growthSize =
     (if realloc_ok then
        (if maxNumberOfEntries hm + growthSize < 2 ^ 32
         then Inr (hm\<lparr>entries := entries hm @ replicate growthSize zero_entry\<rparr>, True)
         else Inl Out_of_bounds)
      else Inr (hm, False))"

definition hashMap_Create ::
    "bool \<Rightarrow> bool \<Rightarrow> nat \<Rightarrow> nat \<Rightarrow> bool \<Rightarrow> bool \<Rightarrow> hashMap option checked" where
  "hashMap_Create malloc_ok realloc_ok initialEntries step clearItemFunction sorting =
     (if \<not> malloc_ok then Inr None
      else
        (case hashMap_Grow realloc_ok
                \<lparr>curNumberOfEntries = 0, entryAllocationStep = step, entries = [],
                 clearItemCallback = False, isSorted = False, useSorting = sorting\<rparr> initialEntries of
           Inl f \<Rightarrow> Inl f
         | Inr (hm, ok) \<Rightarrow> Inr (if ok then Some (hm\<lparr>clearItemCallback := clearItemFunction\<rparr>) else None)))"

definition hashMap_IsOK :: "hashMap \<Rightarrow> bool" where
  "hashMap_IsOK hm \<longleftrightarrow> maxNumberOfEntries hm \<noteq> 0"

definition hashMap_GetCurrentNumberOfEntries :: "hashMap \<Rightarrow> nat" where
  "hashMap_GetCurrentNumberOfEntries hm = (if hashMap_IsOK hm then curNumberOfEntries hm else 0)"

definition hashMap_GetMaxNumberOfEntries :: "hashMap \<Rightarrow> nat" where
  "hashMap_GetMaxNumberOfEntries hm = (if hashMap_IsOK hm then maxNumberOfEntries hm else 0)"

definition hashMap_IsSorted :: "hashMap \<Rightarrow> bool" where
  "hashMap_IsSorted hm \<longleftrightarrow>
     hashMap_IsOK hm \<and>
     list_all (\<lambda>i. \<not> keyHash (entries hm ! (i - 1)) > keyHash (entries hm ! i)) [1..<curNumberOfEntries hm]"

text \<open>What clearing and removing hand back: the payload to the callback or to \<open>free\<close>, the key to \<open>free\<close>.\<close>

datatype release = Clear_item u64 | Free_payload u64 | Free_key string

definition clear_entry :: "bool \<Rightarrow> hashMapEntry \<Rightarrow> hashMapEntry" where
  "clear_entry callback e =
     (let e = (if callback then e
               else if payloadLength e \<noteq> 0 then e\<lparr>payload := 0, payloadBytes := []\<rparr>
               else e)
      in e\<lparr>key := None, keyHash := 0, keyLength := 0\<rparr>)"

definition released :: "bool \<Rightarrow> hashMapEntry \<Rightarrow> release list" where
  "released callback e =
     (if callback then [Clear_item (payload e)]
      else if payloadLength e \<noteq> 0 then [Free_payload (payload e)]
      else []) @ (case key e of None \<Rightarrow> [] | Some k \<Rightarrow> [Free_key k])"

definition hashMap_Clear :: "hashMap \<Rightarrow> hashMap \<times> release list" where
  "hashMap_Clear hm =
     (if \<not> hashMap_IsOK hm then (hm, [])
      else
        (hm\<lparr>isSorted := False, curNumberOfEntries := 0,
            entries := map (clear_entry (clearItemCallback hm)) (take (curNumberOfEntries hm) (entries hm))
                       @ drop (curNumberOfEntries hm) (entries hm)\<rparr>,
         concat (map (released (clearItemCallback hm)) (take (curNumberOfEntries hm) (entries hm)))))"

definition hashMap_Destroy :: "hashMap \<Rightarrow> release list" where
  "hashMap_Destroy hm = snd (hashMap_Clear hm)"

definition cmpHashTableItems :: "u64 \<Rightarrow> u64 \<Rightarrow> int" where
  "cmpHashTableItems a b = (if a < b then -1 else if a = b then 0 else 1)"

definition hashMap_Sort :: "hashMap \<Rightarrow> hashMap \<times> bool" where
  "hashMap_Sort hm =
     (if \<not> useSorting hm then (hm, False)
      else if \<not> hashMap_IsOK hm then (hm, False)
      else (hm\<lparr>entries := sort_key keyHash (take (curNumberOfEntries hm) (entries hm))
                          @ drop (curNumberOfEntries hm) (entries hm),
               isSorted := True\<rparr>, True))"

text \<open>\<open>strcmp(a,b)==0\<close>.\<close>

definition strcmp_eq :: "string option \<Rightarrow> string option \<Rightarrow> bool checked" where
  "strcmp_eq a b =
     (case (a, b) of (Some x, Some y) \<Rightarrow> Inr (x = y) | _ \<Rightarrow> Inl Null_deref)"

definition hit :: "nat \<Rightarrow> hashMap \<Rightarrow> hashMap" where
  "hit i hm = hm\<lparr>entries := (entries hm)[i := (entries hm ! i)\<lparr>hits := (hits (entries hm ! i) + 1) mod 2 ^ 32\<rparr>]\<rparr>"

text \<open>
  The searches return the map (they count hits), the value of \<open>*index\<close> and whether they
  found the key.
\<close>

function find_serial ::
    "hashMap \<Rightarrow> string option \<Rightarrow> u64 \<Rightarrow> nat \<Rightarrow> nat \<Rightarrow> (hashMap \<times> nat \<times> bool) checked" where
  "find_serial hm k h idx i =
     (if i < curNumberOfEntries hm then
        (if keyHash (entries hm ! i) = h then
           (case strcmp_eq k (key (entries hm ! i)) of
              Inl f \<Rightarrow> Inl f
            | Inr True \<Rightarrow> Inr (hit i hm, i, True)
            | Inr False \<Rightarrow> find_serial hm k h idx (i + 1))
         else find_serial hm k h idx (i + 1))
      else Inr (hm, idx, False))"
  by pat_completeness auto
termination
  by (relation "measure (\<lambda>(hm, k, h, idx, i). curNumberOfEntries hm - i)") auto

declare find_serial.simps [simp del]

definition hashMap_FindIndexSerialWithPrecomputedHash ::
    "hashMap \<Rightarrow> string option \<Rightarrow> u64 \<Rightarrow> nat \<Rightarrow> (hashMap \<times> nat \<times> bool) checked" where
  "hashMap_FindIndexSerialWithPrecomputedHash hm k h idx = find_serial hm k h idx 0"

definition hashMap_FindIndexSerial ::
    "hashMap \<Rightarrow> string option \<Rightarrow> nat \<Rightarrow> (hashMap \<times> nat \<times> bool) checked" where
  "hashMap_FindIndexSerial hm k idx =
     hashMap_FindIndexSerialWithPrecomputedHash hm k (hashFunction k) idx"

text \<open>\<open>bsearch\<close> over the entries from \<open>l\<close> to \<open>u\<close>.\<close>

function bsearch :: "hashMapEntry list \<Rightarrow> u64 \<Rightarrow> nat \<Rightarrow> nat \<Rightarrow> nat option" where
  "bsearch es h l u =
     (if l < u then
        (let idx = (l + u) div 2;
             c = cmpHashTableItems h (keyHash (es ! idx))
         in if c < 0 then bsearch es h l idx
            else if c > 0 then bsearch es h (idx + 1) u
            else Some idx)
      else None)"
  by pat_completeness auto
termination
  by (relation "measure (\<lambda>(es, h, l, u). u - l)") auto

declare bsearch.simps [simp del]

definition hashMap_BSearch ::
    "hashMap \<Rightarrow> string option \<Rightarrow> u64 \<Rightarrow> nat \<Rightarrow> (hashMap \<times> nat \<times> bool) checked" where
  "hashMap_BSearch hm k h idx =
     (if \<not> useSorting hm then Inr (hm, idx, False)
      else
        (case bsearch (entries hm) h 0 (curNumberOfEntries hm) of
           None \<Rightarrow> Inr (hm, idx, False)
         | Some pos \<Rightarrow>
             (let idx = index (entries hm ! pos)
              in if idx \<ge> curNumberOfEntries hm then Inr (hm, idx, False)
                 else
                   (case strcmp_eq k (key (entries hm ! idx)) of
                      Inl f \<Rightarrow> Inl f
                    | Inr False \<Rightarrow> hashMap_FindIndexSerialWithPrecomputedHash hm k h idx
                    | Inr True \<Rightarrow> Inr (hm, idx, True)))))"

text \<open>
  \<open>hashMap_Add\<close>: whether the growth and the allocation of the key succeed, the address the
  allocation of the payload returns (0 when it fails), and the bytes at an address.  When
  the payload cannot be allocated the code goes on to copy to the NULL pointer.
\<close>

definition hashMap_Add ::
    "bool \<Rightarrow> bool \<Rightarrow> u64 \<Rightarrow> (u64 \<Rightarrow> nat \<Rightarrow> string) \<Rightarrow>
     hashMap \<Rightarrow> string option \<Rightarrow> u64 \<Rightarrow> nat \<Rightarrow> (hashMap \<times> bool) checked" where
  "hashMap_Add realloc_ok key_ok payload_ptr mem hm k val valLength =
     (if \<not> hashMap_IsOK hm then Inr (hm, False)
      else
        (case (if curNumberOfEntries hm \<ge> maxNumberOfEntries hm
               then hashMap_Grow realloc_ok hm (entryAllocationStep hm) else Inr (hm, True)) of
           Inl f \<Rightarrow> Inl f
         | Inr (hm, clearToAdd) \<Rightarrow>
             if \<not> clearToAdd then Inr (hm\<lparr>isSorted := False\<rparr>, True)
             else
               (let our_index = curNumberOfEntries hm
                in if our_index \<ge> maxNumberOfEntries hm then Inl Out_of_bounds
                   else
                     (let e = (entries hm ! our_index)\<lparr>key := None, index := our_index\<rparr>
                      in if k \<noteq> None \<and> \<not> key_ok
                         then Inr (hm\<lparr>entries := (entries hm)[our_index := e]\<rparr>, False)
                         else
                           (let e = (case k of
                                       None \<Rightarrow> e
                                     | Some s \<Rightarrow> e\<lparr>key := Some s, keyLength := length s, keyHash := hashFunction k\<rparr>)
                            in if valLength = 0
                               then Inr (hm\<lparr>curNumberOfEntries := our_index + 1,
                                            entries := (entries hm)[our_index := e\<lparr>payload := val, payloadLength := 0\<rparr>],
                                            isSorted := False\<rparr>, True)
                               else if payload_ptr = 0 then Inl Null_deref
                               else Inr (hm\<lparr>curNumberOfEntries := our_index + 1,
                                            entries := (entries hm)[our_index :=
                                              e\<lparr>payload := payload_ptr, payloadBytes := mem val valLength,
                                                payloadLength := valLength\<rparr>],
                                            isSorted := False\<rparr>, True))))))"

definition hashMap_AddULong :: "bool \<Rightarrow> bool \<Rightarrow> hashMap \<Rightarrow> string option \<Rightarrow> u64 \<Rightarrow> (hashMap \<times> bool) checked" where
  "hashMap_AddULong realloc_ok key_ok hm k val =
     hashMap_Add realloc_ok key_ok 0 (\<lambda>_ _. []) hm k val 0"

definition hashMap_PrepareForQueries :: "hashMap \<Rightarrow> hashMap \<times> bool" where
  "hashMap_PrepareForQueries hm =
     (if \<not> hashMap_IsOK hm then (hm, False)
      else ((if \<not> isSorted hm then fst (hashMap_Sort hm) else hm), True))"

definition hashMap_FindIndex ::
    "hashMap \<Rightarrow> string option \<Rightarrow> nat \<Rightarrow> (hashMap \<times> nat \<times> bool) checked" where
  "hashMap_FindIndex hm k idx =
     (if \<not> hashMap_IsOK hm then Inr (hm, idx, False)
      else
        (let hm = (if \<not> isSorted hm \<and> useSorting hm then fst (hashMap_PrepareForQueries hm) else hm);
             h = hashFunction k
         in if idx < curNumberOfEntries hm \<and> keyHash (entries hm ! idx) = h
            then Inr (hit idx hm, idx, True)
            else if isSorted hm \<and> useSorting hm \<and> curNumberOfEntries hm > 30
            then hashMap_BSearch hm k h idx
            else hashMap_FindIndexSerialWithPrecomputedHash hm k h idx))"

definition hashmap_SwapRecords :: "bool \<Rightarrow> hashMap \<Rightarrow> nat \<Rightarrow> nat \<Rightarrow> hashMap \<times> bool" where
  "hashmap_SwapRecords malloc_ok hm index1 index2 =
     (if \<not> hashMap_IsOK hm \<or> index1 \<ge> curNumberOfEntries hm \<or> index2 \<ge> curNumberOfEntries hm \<or> \<not> malloc_ok
      then (hm, False)
      else (hm\<lparr>entries := (entries hm)[index1 := entries hm ! index2, index2 := entries hm ! index1]\<rparr>, True))"

definition hashMap_GetKeyAtIndex :: "hashMap \<Rightarrow> nat \<Rightarrow> string option" where
  "hashMap_GetKeyAtIndex hm i =
     (if \<not> hashMap_IsOK hm \<or> i \<ge> curNumberOfEntries hm then None else key (entries hm ! i))"

definition hashMap_GetHashAtIndex :: "hashMap \<Rightarrow> nat \<Rightarrow> u64" where
  "hashMap_GetHashAtIndex hm i =
     (if \<not> hashMap_IsOK hm \<or> i \<ge> curNumberOfEntries hm then 0 else keyHash (entries hm ! i))"

text \<open>\<open>hashMap_GetPayload\<close> assigns to its own parameter: the caller's variable does not change.\<close>

definition hashMap_GetPayload :: "hashMap \<Rightarrow> string option \<Rightarrow> u64 \<Rightarrow> (hashMap \<times> u64 \<times> bool) checked" where
  "hashMap_GetPayload hm k pl =
     (case hashMap_FindIndex hm k 0 of Inl f \<Rightarrow> Inl f | Inr (hm, i, ok) \<Rightarrow> Inr (hm, pl, ok))"

definition hashMap_GetULongPayload :: "hashMap \<Rightarrow> string option \<Rightarrow> u64 \<Rightarrow> (hashMap \<times> u64 \<times> bool) checked" where
  "hashMap_GetULongPayload hm k pl =
     (case hashMap_FindIndex hm k (unat pl) of
        Inl f \<Rightarrow> Inl f
      | Inr (hm, i, ok) \<Rightarrow> Inr (hm, (if ok then payload (entries hm ! i) else pl), ok))"

definition hashMap_GetPayloadAtIndex :: "hashMap \<Rightarrow> nat \<Rightarrow> nat \<Rightarrow> u64 \<times> nat" where
  "hashMap_GetPayloadAtIndex hm i len =
     (if \<not> hashMap_IsOK hm \<or> i \<ge> curNumberOfEntries hm then (0, len)
      else (payload (entries hm ! i), payloadLength (entries hm ! i)))"

definition hashMap_RemoveKey :: "hashMap \<Rightarrow> string option \<Rightarrow> (hashMap \<times> release list \<times> bool) checked" where
  "hashMap_RemoveKey hm k =
     (if \<not> hashMap_IsOK hm then Inr (hm, [], False)
      else
        (case hashMap_FindIndexSerial hm k 0 of
           Inl f \<Rightarrow> Inl f
         | Inr (hm, idx, False) \<Rightarrow> Inr (hm, [], False)
         | Inr (hm, idx, True) \<Rightarrow>
             (let lastIndex = curNumberOfEntries hm - 1;
                  es = (if idx \<noteq> lastIndex then (entries hm)[idx := entries hm ! lastIndex] else entries hm)
              in Inr (hm\<lparr>entries := es[lastIndex := zero_entry], curNumberOfEntries := lastIndex, isSorted := False\<rparr>,
                      released (clearItemCallback hm) (entries hm ! idx), True))))"

definition hashMap_ContainsKey :: "hashMap \<Rightarrow> string option \<Rightarrow> (hashMap \<times> bool) checked" where
  "hashMap_ContainsKey hm k =
     (case hashMap_FindIndex hm k 0 of Inl f \<Rightarrow> Inl f | Inr (hm, _, ok) \<Rightarrow> Inr (hm, ok))"

definition hashMap_ContainsValue :: "hashMap \<Rightarrow> u64 \<Rightarrow> bool" where
  "hashMap_ContainsValue hm val \<longleftrightarrow>
     hashMap_IsOK hm \<and> list_ex (\<lambda>i. payload (entries hm ! i) = val) [0..<curNumberOfEntries hm]"

text \<open>The bytes of an \<open>unsigned int\<close> in memory, and the file \<open>hashMap_SaveToFile\<close> writes.\<close>

definition u32_bytes :: "nat \<Rightarrow> string" where
  "u32_bytes n = map (\<lambda>i. char_of (n div 256 ^ i mod 256)) [0..<4]"

definition entry_bytes :: "hashMapEntry \<Rightarrow> string" where
  "entry_bytes e =
     (case key e of
        Some k \<Rightarrow> (if keyLength e \<noteq> 0 then u32_bytes (keyLength e) @ take (keyLength e) k else u32_bytes 0)
      | None \<Rightarrow> u32_bytes 0) @
     (if payloadLength e \<noteq> 0 \<and> payload e \<noteq> 0
      then u32_bytes (payloadLength e) @ take (payloadLength e) (payloadBytes e) else u32_bytes 0)"

definition hashMap_SaveToFile :: "bool \<Rightarrow> hashMap \<Rightarrow> string option" where
  "hashMap_SaveToFile fopen_ok hm =
     (if \<not> hashMap_IsOK hm \<or> \<not> fopen_ok then None
      else Some ([char_of (4 :: nat)] @ u32_bytes (curNumberOfEntries hm) @ u32_bytes (entryAllocationStep hm) @
                 concat (map entry_bytes (take (curNumberOfEntries hm) (entries hm)))))"

section \<open>The map it stands for\<close>

abbreviation live :: "hashMap \<Rightarrow> hashMapEntry list" where
  "live hm \<equiv> take (curNumberOfEntries hm) (entries hm)"

definition entry_ok :: "hashMapEntry \<Rightarrow> bool" where
  "entry_ok e \<longleftrightarrow> (\<exists>s. key e = Some s \<and> keyHash e = hashFunction (Some s) \<and> keyLength e = length s)"

definition hm_inv :: "hashMap \<Rightarrow> bool" where
  "hm_inv hm \<longleftrightarrow>
     0 < maxNumberOfEntries hm \<and> curNumberOfEntries hm \<le> maxNumberOfEntries hm \<and>
     list_all entry_ok (live hm) \<and> distinct (map key (live hm)) \<and>
     (isSorted hm \<longrightarrow> sorted (map keyHash (live hm)))"

definition hm_view :: "hashMap \<Rightarrow> string \<Rightarrow> u64 option" where
  "hm_view hm s = map_of (map (\<lambda>e. (key e, payload e)) (live hm)) (Some s)"

lemma hm_invD:
  assumes "hm_inv hm"
  shows "hashMap_IsOK hm" and "curNumberOfEntries hm \<le> maxNumberOfEntries hm"
    and "length (live hm) = curNumberOfEntries hm"
    and "distinct (map key (live hm))"
    and "\<And>i. i < curNumberOfEntries hm \<Longrightarrow> entry_ok (entries hm ! i)"
  using assms by (auto simp: hm_inv_def hashMap_IsOK_def list_all_length)

lemma entry_ok_hash: "entry_ok e \<Longrightarrow> key e = Some s \<Longrightarrow> keyHash e = hashFunction (Some s)"
  by (auto simp: entry_ok_def)

lemma in_live_iff: "hm_inv hm \<Longrightarrow> e \<in> set (live hm) \<longleftrightarrow> (\<exists>i<curNumberOfEntries hm. e = entries hm ! i)"
  using hm_invD(3) [of hm] by (auto simp: in_set_conv_nth)

lemma in_liveE:
  assumes "e \<in> set (live hm)" and "hm_inv hm"
  obtains i where "i < curNumberOfEntries hm" and "e = entries hm ! i"
  using assms in_live_iff by blast

lemma live_at: "hm_inv hm \<Longrightarrow> i < curNumberOfEntries hm \<Longrightarrow> entries hm ! i \<in> set (live hm)"
  using in_live_iff by blast

lemma hm_view_Some:
  assumes "hm_inv hm" and "i < curNumberOfEntries hm" and "key (entries hm ! i) = Some s"
  shows "hm_view hm s = Some (payload (entries hm ! i))"
proof -
  let ?l = "map (\<lambda>e. (key e, payload e)) (live hm)"
  have "distinct (map fst ?l)" using hm_invD(4) [OF assms(1)] by (simp add: comp_def)
  moreover have "(Some s, payload (entries hm ! i)) \<in> set ?l"
    using assms by (force simp: in_live_iff)
  ultimately show ?thesis by (simp add: hm_view_def)
qed

lemma hm_view_None:
  "hm_inv hm \<Longrightarrow> hm_view hm s = None \<longleftrightarrow> (\<forall>i<curNumberOfEntries hm. key (entries hm ! i) \<noteq> Some s)"
proof -
  assume inv: "hm_inv hm"
  have "hm_view hm s = None \<longleftrightarrow> (\<forall>e\<in>set (live hm). key e \<noteq> Some s)"
    by (force simp: hm_view_def map_of_eq_None_iff)
  also have "\<dots> \<longleftrightarrow> (\<forall>i<curNumberOfEntries hm. key (entries hm ! i) \<noteq> Some s)"
    unfolding Ball_def in_live_iff [OF inv] by auto
  finally show ?thesis .
qed

lemma hm_view_index:
  assumes "hm_inv hm" and "hm_view hm s = Some v"
  obtains i where "i < curNumberOfEntries hm" and "key (entries hm ! i) = Some s"
    and "payload (entries hm ! i) = v"
proof -
  have "hm_view hm s \<noteq> None" using assms(2) by simp
  then obtain i where "i < curNumberOfEntries hm" "key (entries hm ! i) = Some s"
    using hm_view_None [OF assms(1), of s] by auto
  with that assms hm_view_Some show thesis by fastforce
qed

lemma key_index_unique:
  assumes "hm_inv hm" and "i < curNumberOfEntries hm" and "j < curNumberOfEntries hm"
    and "key (entries hm ! i) = key (entries hm ! j)"
  shows "i = j"
  using nth_eq_iff_index_eq [OF hm_invD(4) [OF assms(1)], of i j] assms hm_invD(3) [OF assms(1)] by simp

text \<open>Counting a hit changes nothing the invariant or the view look at.\<close>

lemma live_hit:
  "live (hit i hm) = (live hm)[i := (entries hm ! i)\<lparr>hits := (hits (entries hm ! i) + 1) mod 2 ^ 32\<rparr>]"
  by (simp add: hit_def take_update_swap)

lemma map_hit:
  assumes "\<And>e n. f (e\<lparr>hits := n\<rparr>) = f e"
  shows "map f (live (hit i hm)) = map f (live hm)"
proof -
  have "map f (live (hit i hm)) = (map f (live hm))[i := f (entries hm ! i)]"
    unfolding live_hit map_update assms ..
  also have "\<dots> = map f (live hm)"
    by (cases "i < length (live hm)") (simp add: list_update_same_conv, simp add: list_update_beyond del: length_take)
  finally show ?thesis .
qed

lemma hm_view_hit [simp]: "hm_view (hit i hm) = hm_view hm"
  unfolding hm_view_def by (subst map_hit) simp_all

lemma hm_inv_hit:
  assumes "hm_inv hm"
  shows "hm_inv (hit i hm)"
proof -
  have ok: "entry_ok = (\<lambda>b. b) \<circ> entry_ok" by auto
  have "map key (live (hit i hm)) = map key (live hm)" and "map keyHash (live (hit i hm)) = map keyHash (live hm)"
    and "map entry_ok (live (hit i hm)) = map entry_ok (live hm)"
    by (rule map_hit, simp add: entry_ok_def)+
  moreover have "list_all entry_ok xs = list_all (\<lambda>b. b) (map entry_ok xs)" for xs
    by (simp add: list_all_iff)
  moreover have "length (entries (hit i hm)) = length (entries hm)"
    "curNumberOfEntries (hit i hm) = curNumberOfEntries hm" "isSorted (hit i hm) = isSorted hm"
    by (simp_all add: hit_def)
  ultimately show ?thesis using assms by (simp add: hm_inv_def)
qed

lemma hit_same [simp]:
  "curNumberOfEntries (hit i hm) = curNumberOfEntries hm" "isSorted (hit i hm) = isSorted hm"
  "useSorting (hit i hm) = useSorting hm" "maxNumberOfEntries (hit i hm) = maxNumberOfEntries hm"
  "clearItemCallback (hit i hm) = clearItemCallback hm" "entryAllocationStep (hit i hm) = entryAllocationStep hm"
  by (simp_all add: hit_def)

lemma hit_nth [simp]:
  "j < maxNumberOfEntries hm \<Longrightarrow> key (entries (hit i hm) ! j) = key (entries hm ! j)"
  "j < maxNumberOfEntries hm \<Longrightarrow> payload (entries (hit i hm) ! j) = payload (entries hm ! j)"
  "j < maxNumberOfEntries hm \<Longrightarrow> payloadLength (entries (hit i hm) ! j) = payloadLength (entries hm ! j)"
  by (cases "i = j"; simp add: hit_def)+

section \<open>Searching\<close>

lemma find_serial_found:
  assumes "hm_inv hm" and "i \<le> j" and "j < curNumberOfEntries hm" and "key (entries hm ! j) = Some s"
  shows "find_serial hm (Some s) (hashFunction (Some s)) idx i = Inr (hit j hm, j, True)"
  using assms
proof (induction hm "Some s" "hashFunction (Some s)" idx i rule: find_serial.induct)
  case (1 hm idx i)
  have ok: "entry_ok (entries hm ! j)" and oki: "entry_ok (entries hm ! i)"
    using "1.prems" by (auto intro: hm_invD)
  show ?case
  proof (cases "i = j")
    case True
    then show ?thesis
      using "1.prems" ok by (subst find_serial.simps) (simp add: strcmp_eq_def entry_ok_hash)
  next
    case False
    have "key (entries hm ! i) \<noteq> Some s"
      using key_index_unique [OF "1.prems"(1), of i j] False "1.prems" by auto
    then show ?thesis
      using 1 False oki
      by (subst find_serial.simps) (auto simp: strcmp_eq_def entry_ok_def)
  qed
qed

lemma find_serial_missing:
  assumes "hm_inv hm" and "hm_view hm s = None"
  shows "find_serial hm (Some s) h idx i = Inr (hm, idx, False)"
  using assms
proof (induction hm "Some s" h idx i rule: find_serial.induct)
  case (1 hm h idx i)
  show ?case
  proof (cases "i < curNumberOfEntries hm")
    case True
    then have "entry_ok (entries hm ! i)" "key (entries hm ! i) \<noteq> Some s"
      using "1.prems" hm_view_None [of hm s] by (auto intro: hm_invD)
    then show ?thesis
      using 1 True by (subst find_serial.simps) (auto simp: strcmp_eq_def entry_ok_def)
  next
    case False
    then show ?thesis by (simp add: find_serial.simps [of hm _ _ _ i])
  qed
qed

text \<open>What a search may answer: the position of the key, in a map with the same contents.\<close>

definition answers :: "hashMap \<Rightarrow> string \<Rightarrow> hashMap \<times> nat \<times> bool \<Rightarrow> bool" where
  "answers hm s r \<longleftrightarrow>
     (case r of (hm', j, ok) \<Rightarrow>
        hm_inv hm' \<and> hm_view hm' = hm_view hm \<and> ok = (hm_view hm s \<noteq> None) \<and>
        curNumberOfEntries hm' = curNumberOfEntries hm \<and>
        (ok \<longrightarrow> j < curNumberOfEntries hm' \<and> key (entries hm' ! j) = Some s \<and>
                hm_view hm s = Some (payload (entries hm' ! j))))"

lemma answers_at:
  assumes "hm_inv hm" and "j < curNumberOfEntries hm" and "key (entries hm ! j) = Some s"
  shows "answers hm s (hit j hm, j, True)" and "answers hm s (hm, j, True)"
  using assms hm_view_Some [OF assms] hm_invD(2) [OF assms(1)]
  by (simp_all add: answers_def hm_inv_hit)

lemma find_serial_answers:
  assumes "hm_inv hm"
  shows "\<exists>r. find_serial hm (Some s) (hashFunction (Some s)) idx 0 = Inr r \<and> answers hm s r"
proof (cases "hm_view hm s")
  case None
  then show ?thesis using find_serial_missing [OF assms None] assms by (simp add: answers_def)
next
  case (Some v)
  then obtain j where j: "j < curNumberOfEntries hm" "key (entries hm ! j) = Some s"
    by (rule hm_view_index [OF assms])
  then show ?thesis
    using find_serial_found [OF assms le0 j] answers_at [OF assms j] by simp
qed

lemma bsearch_Some:
  "bsearch es h l u = Some p \<Longrightarrow> l \<le> p \<and> p < u \<and> keyHash (es ! p) = h"
proof (induction es h l u rule: bsearch.induct)
  case (1 es h l u)
  show ?case
  proof (cases "l < u")
    case True
    let ?m = "(l + u) div 2"
    from True have m: "l \<le> ?m" "?m < u" by auto
    from True "1.prems" show ?thesis
      using "1.IH" [OF True refl refl] m
      by (auto simp: bsearch.simps [of es h l u] Let_def cmpHashTableItems_def split: if_splits)
  next
    case False
    with "1.prems" show ?thesis by (simp add: bsearch.simps [of es h l u])
  qed
qed

lemma bsearch_None:
  assumes "sorted (map keyHash (take n es))" and "u \<le> n" and "n \<le> length es" and "l \<le> i" and "i < u"
    and "bsearch es h l u = None"
  shows "keyHash (es ! i) \<noteq> h"
  using assms
proof (induction es h l u rule: bsearch.induct)
  case (1 es h l u)
  let ?m = "(l + u) div 2"
  have lu: "l < u" and m: "l \<le> ?m" "?m < u" using "1.prems" by auto
  have mono: "keyHash (es ! a) \<le> keyHash (es ! b)" if "a \<le> b" "b < n" for a b
    using sorted_nth_mono [OF "1.prems"(1), of a b] that "1.prems"(3) by simp
  consider "h < keyHash (es ! ?m)" "bsearch es h l ?m = None"
    | "keyHash (es ! ?m) < h" "bsearch es h (?m + 1) u = None"
    using "1.prems"(6) lu
    by (auto simp: bsearch.simps [of es h l u] Let_def cmpHashTableItems_def split: if_splits)
  then show ?case
  proof cases
    case 1
    show ?thesis
    proof (cases "i < ?m")
      case True
      with 1 "1.prems" lu m show ?thesis
        by (intro "1.IH"(1)) (auto simp: cmpHashTableItems_def)
    next
      case False
      then have "keyHash (es ! ?m) \<le> keyHash (es ! i)" using mono [of ?m i] "1.prems" by simp
      with 1 show ?thesis by auto
    qed
  next
    case 2
    show ?thesis
    proof (cases "i \<le> ?m")
      case True
      then have "keyHash (es ! i) \<le> keyHash (es ! ?m)" using mono [of i ?m] "1.prems" m by simp
      with 2 show ?thesis by auto
    next
      case False
      with 2 "1.prems" lu m show ?thesis
        by (intro "1.IH"(2)) (auto simp: cmpHashTableItems_def split: if_splits)
    qed
  qed
qed

text \<open>Sorting by hash permutes the entries.\<close>

lemma live_sort:
  assumes "hm_inv hm"
  shows "live (fst (hashMap_Sort hm)) = (if useSorting hm then sort_key keyHash (live hm) else live hm)"
  using assms by (simp add: hashMap_Sort_def hm_inv_def hashMap_IsOK_def)

lemma hashMap_Sort_same:
  "curNumberOfEntries (fst (hashMap_Sort hm)) = curNumberOfEntries hm"
  "useSorting (fst (hashMap_Sort hm)) = useSorting hm"
  "entryAllocationStep (fst (hashMap_Sort hm)) = entryAllocationStep hm"
  by (simp_all add: hashMap_Sort_def)

lemma hashMap_Sort_max: "hm_inv hm \<Longrightarrow> maxNumberOfEntries (fst (hashMap_Sort hm)) = maxNumberOfEntries hm"
  by (auto simp: hashMap_Sort_def hm_inv_def)

lemma distinct_map_mset: "mset xs = mset ys \<Longrightarrow> distinct (map f xs) \<longleftrightarrow> distinct (map f ys)"
  by (rule mset_eq_imp_distinct_iff) simp

lemma map_of_perm:
  assumes "distinct (map fst xs)" and "mset xs = mset ys"
  shows "map_of xs = map_of ys"
proof -
  have "distinct (map fst ys)"
    using assms distinct_map_mset by blast
  then show ?thesis
    using assms by (simp add: map_of_inject_set set_mset_mset [symmetric] del: set_mset_mset)
qed

lemma hm_view_perm:
  assumes "hm_inv hm" and "mset (live hm') = mset (live hm)"
  shows "hm_view hm' = hm_view hm"
proof
  fix s
  have "map_of (map (\<lambda>e. (key e, payload e)) (live hm)) = map_of (map (\<lambda>e. (key e, payload e)) (live hm'))"
    using hm_invD(4) [OF assms(1)] assms(2) by (intro map_of_perm) (simp_all add: comp_def)
  then show "hm_view hm' s = hm_view hm s" by (simp add: hm_view_def)
qed

lemma hm_inv_sort:
  assumes "hm_inv hm"
  shows "hm_inv (fst (hashMap_Sort hm))" and "hm_view (fst (hashMap_Sort hm)) = hm_view hm"
    and "set (live (fst (hashMap_Sort hm))) = set (live hm)"
proof -
  let ?hm = "fst (hashMap_Sort hm)"
  have m: "mset (live ?hm) = mset (live hm)" by (simp add: live_sort [OF assms])
  then show "hm_view ?hm = hm_view hm" by (rule hm_view_perm [OF assms])
  from m show s: "set (live ?hm) = set (live hm)" by (rule mset_eq_setD)
  have "distinct (map key (live ?hm)) = distinct (map key (live hm))"
    using m by (rule distinct_map_mset)
  moreover have "sorted (map keyHash (live ?hm)) \<or> isSorted ?hm = isSorted hm \<and> live ?hm = live hm"
  proof (cases "useSorting hm")
    case True
    then show ?thesis by (simp add: live_sort [OF assms])
  next
    case False
    then show ?thesis by (simp add: hashMap_Sort_def)
  qed
  ultimately show "hm_inv ?hm"
    using assms s hashMap_Sort_max [OF assms] hashMap_Sort_same(1) [of hm] by (auto simp: hm_inv_def list_all_iff)
qed

text \<open>
  The conditions under which the fast searches are right: no other key of the map has the
  hash of the one that is looked up, and every entry still remembers an index inside the map.
\<close>

definition collision_free :: "hashMap \<Rightarrow> string \<Rightarrow> bool" where
  "collision_free hm s \<longleftrightarrow>
     list_all (\<lambda>e. keyHash e = hashFunction (Some s) \<longrightarrow> key e = Some s) (live hm)"

definition indices_ok :: "hashMap \<Rightarrow> bool" where
  "indices_ok hm \<longleftrightarrow> list_all (\<lambda>e. index e < curNumberOfEntries hm) (live hm)"

lemma BSearch_answers:
  assumes "hm_inv hm" and "isSorted hm" and "useSorting hm" and "indices_ok hm"
  shows "\<exists>r. hashMap_BSearch hm (Some s) (hashFunction (Some s)) idx = Inr r \<and> answers hm s r"
proof (cases "bsearch (entries hm) (hashFunction (Some s)) 0 (curNumberOfEntries hm)")
  case None
  have "hm_view hm s = None"
  proof (rule ccontr)
    assume "hm_view hm s \<noteq> None"
    then obtain j where j: "j < curNumberOfEntries hm" "key (entries hm ! j) = Some s"
      using hm_view_None [OF assms(1), of s] by auto
    have "keyHash (entries hm ! j) \<noteq> hashFunction (Some s)"
      using assms hm_invD(2) [OF assms(1)] j None by (intro bsearch_None) (auto simp: hm_inv_def)
    then show False
      using entry_ok_hash [OF hm_invD(5) [OF assms(1) j(1)] j(2)] by simp
  qed
  then show ?thesis using None assms by (simp add: hashMap_BSearch_def answers_def)
next
  case (Some pos)
  let ?i = "index (entries hm ! pos)"
  have pos: "pos < curNumberOfEntries hm" using bsearch_Some [OF Some] by simp
  then have i: "?i < curNumberOfEntries hm"
    using assms(4) hm_invD(3) [OF assms(1)] by (auto simp: indices_ok_def list_all_length)
  then obtain t where t: "key (entries hm ! ?i) = Some t"
    using hm_invD(5) [OF assms(1) i] by (auto simp: entry_ok_def)
  show ?thesis
  proof (cases "t = s")
    case True
    then show ?thesis
      using Some i t assms(3) answers_at(2) [OF assms(1) i, of s] by (simp add: hashMap_BSearch_def Let_def strcmp_eq_def)
  next
    case False
    then show ?thesis
      using Some i t assms(3) find_serial_answers [OF assms(1), of s ?i]
      by (simp add: hashMap_BSearch_def Let_def strcmp_eq_def hashMap_FindIndexSerialWithPrecomputedHash_def)
  qed
qed

text \<open>The map \<open>hashMap_FindIndex\<close> searches, after it has sorted it when that was due.\<close>

abbreviation prepared :: "hashMap \<Rightarrow> hashMap" where
  "prepared hm \<equiv> (if \<not> isSorted hm \<and> useSorting hm then fst (hashMap_PrepareForQueries hm) else hm)"

lemma prepared_facts:
  assumes "hm_inv hm"
  shows "hm_inv (prepared hm)" and "hm_view (prepared hm) = hm_view hm"
    and "set (live (prepared hm)) = set (live hm)" and "curNumberOfEntries (prepared hm) = curNumberOfEntries hm"
  using hm_inv_sort [OF assms] hm_invD(1) [OF assms] assms
  by (auto simp: hashMap_PrepareForQueries_def hashMap_Sort_same)

lemma FindIndex_answers:
  assumes "hm_inv hm" and "collision_free hm s"
    and "curNumberOfEntries hm > 30 \<longrightarrow> indices_ok hm"
  shows "\<exists>r. hashMap_FindIndex hm (Some s) idx = Inr r \<and> answers hm s r"
proof -
  let ?hm = "prepared hm" and ?h = "hashFunction (Some s)"
  note p = prepared_facts [OF assms(1)]
  have tr: "answers hm s r" if "answers ?hm s r" for r
    using that p by (auto simp: answers_def)
  show ?thesis
  proof (cases "idx < curNumberOfEntries ?hm \<and> keyHash (entries ?hm ! idx) = ?h")
    case True
    then have "entries ?hm ! idx \<in> set (live ?hm)" using in_live_iff [OF p(1)] by blast
    then have "key (entries ?hm ! idx) = Some s"
      using assms(2) p(3) True by (auto simp: collision_free_def list_all_iff)
    then have "answers ?hm s (hit idx ?hm, idx, True)"
      using answers_at(1) [OF p(1)] True by simp
    then show ?thesis
      using tr True hm_invD(1) [OF assms(1)] by (auto simp: hashMap_FindIndex_def Let_def)
  next
    case False
    have ix: "curNumberOfEntries ?hm > 30 \<Longrightarrow> indices_ok ?hm"
      using assms(3) p(3,4) by (auto simp: indices_ok_def list_all_iff)
    have "\<exists>r. (if isSorted ?hm \<and> useSorting ?hm \<and> curNumberOfEntries ?hm > 30
          then hashMap_BSearch ?hm (Some s) ?h idx
          else hashMap_FindIndexSerialWithPrecomputedHash ?hm (Some s) ?h idx) = Inr r \<and> answers ?hm s r"
      using BSearch_answers [OF p(1), of s idx] ix find_serial_answers [OF p(1), of s idx]
      by (auto simp: hashMap_FindIndexSerialWithPrecomputedHash_def)
    then show ?thesis
      using tr False hm_invD(1) [OF assms(1)] unfolding hashMap_FindIndex_def Let_def
      by auto
  qed
qed

section \<open>Changing the map\<close>

lemma hm_view_append:
  assumes "live hm' = live hm @ [e]" and "hm_view hm s = None" and "key e = Some s"
  shows "hm_view hm' = (hm_view hm)(s \<mapsto> payload e)"
proof
  fix t
  show "hm_view hm' t = ((hm_view hm)(s \<mapsto> payload e)) t"
    using assms by (auto simp: hm_view_def map_add_def split: option.splits)
qed

lemma hm_inv_append:
  assumes "hm_inv hm" and "live hm' = live hm @ [e]" and "entry_ok e" and "key e = Some s"
    and "hm_view hm s = None" and "\<not> isSorted hm'" and "curNumberOfEntries hm' \<le> maxNumberOfEntries hm'"
    and "0 < maxNumberOfEntries hm'"
  shows "hm_inv hm'"
proof -
  have "Some s \<notin> set (map key (live hm))"
    using assms(5) hm_view_None [OF assms(1), of s] in_live_iff [OF assms(1)] by auto
  then show ?thesis
    using assms by (simp add: hm_inv_def)
qed

text \<open>The memory limits under which an insertion has room: growth is by at least one slot and fits 32 bits.\<close>

definition has_room :: "hashMap \<Rightarrow> bool" where
  "has_room hm \<longleftrightarrow> curNumberOfEntries hm < maxNumberOfEntries hm \<or>
     0 < entryAllocationStep hm \<and> maxNumberOfEntries hm + entryAllocationStep hm < 2 ^ 32"

lemma AddULong_step:
  assumes "hm_inv hm" and "has_room hm" and "hm_view hm s = None"
  shows "\<exists>hm'. hashMap_AddULong True True hm (Some s) v = Inr (hm', True) \<and> hm_inv hm' \<and>
           hm_view hm' = (hm_view hm)(s \<mapsto> v) \<and> entryAllocationStep hm' = entryAllocationStep hm \<and>
           maxNumberOfEntries hm' \<le> maxNumberOfEntries hm + entryAllocationStep hm"
proof -
  let ?n = "curNumberOfEntries hm"
  define es where "es = (if ?n < maxNumberOfEntries hm then entries hm
                         else entries hm @ replicate (entryAllocationStep hm) zero_entry)"
  define e where "e = (es ! ?n)\<lparr>index := ?n, key := Some s, keyLength := length s,
                       keyHash := hashFunction (Some s), payload := v, payloadLength := 0\<rparr>"
  define hm' where "hm' = hm\<lparr>curNumberOfEntries := ?n + 1, entries := es[?n := e], isSorted := False\<rparr>"
  have room: "?n < length es" and le: "?n \<le> maxNumberOfEntries hm"
    using assms(2) hm_invD(2) [OF assms(1)] by (auto simp: es_def has_room_def)
  have live: "live hm' = live hm @ [e]"
    using room le by (simp add: hm'_def take_Suc_conv_app_nth) (auto simp: es_def)
  have "hashMap_AddULong True True hm (Some s) v = Inr (hm', True)"
    using assms(2) hm_invD(1) [OF assms(1)] le room
    by (cases "?n < maxNumberOfEntries hm")
      (simp_all add: hashMap_AddULong_def hashMap_Add_def hashMap_Grow_def Let_def hm'_def e_def es_def has_room_def)
  moreover have "hm_inv hm'"
    using room by (intro hm_inv_append [OF assms(1) live]) (auto simp: e_def entry_ok_def hm'_def assms(3))
  moreover have "hm_view hm' = (hm_view hm)(s \<mapsto> v)"
    using hm_view_append [OF live assms(3)] by (simp add: e_def)
  ultimately show ?thesis by (auto simp: hm'_def es_def)
qed

text \<open>Removal: the last entry takes the place of the one removed.\<close>

lemma live_remove:
  assumes "hm_inv hm" and "i < curNumberOfEntries hm"
    and "es = (if i \<noteq> curNumberOfEntries hm - 1 then (entries hm)[i := entries hm ! (curNumberOfEntries hm - 1)] else entries hm)"
    and "hm' = hm\<lparr>entries := es[curNumberOfEntries hm - 1 := z], curNumberOfEntries := curNumberOfEntries hm - 1, isSorted := False\<rparr>"
  shows "mset (live hm) = add_mset (entries hm ! i) (mset (live hm'))"
proof -
  let ?n = "curNumberOfEntries hm - 1"
  have n: "?n < maxNumberOfEntries hm" "curNumberOfEntries hm = Suc ?n"
    using assms(2) hm_invD(2) [OF assms(1)] by auto
  have l: "live hm = take ?n (entries hm) @ [entries hm ! ?n]"
    using n by (metis take_Suc_conv_app_nth)
  show ?thesis
  proof (cases "i = ?n")
    case True
    then show ?thesis using l assms(3,4) by simp
  next
    case False
    then have "live hm' = (take ?n (entries hm))[i := entries hm ! ?n]"
      using assms(3,4) n by (simp add: take_update_swap list_update_beyond)
    then have "mset (live hm') = add_mset (entries hm ! ?n) (mset (take ?n (entries hm)) - {# take ?n (entries hm) ! i #})"
      using False assms(2) n by (simp add: mset_update)
    moreover have "entries hm ! i \<in># mset (take ?n (entries hm))"
      using False assms(2) n by (auto simp: in_set_conv_nth intro!: exI [of _ i])
    ultimately show ?thesis
      using False assms(2) n l by simp
  qed
qed

lemma hm_view_removed:
  assumes "hm_inv hm" and "mset (live hm) = add_mset e (mset (live hm'))" and "key e = Some s"
  shows "hm_view hm' = (hm_view hm)(s := None)"
proof
  fix t
  let ?f = "\<lambda>e. (key e, payload e)"
  have m: "mset (map ?f (live hm)) = mset (map ?f (e # live hm'))" using assms(2) by simp
  have m': "mset (live hm) = mset (e # live hm')" using assms(2) by simp
  have d: "distinct (map fst (map ?f (live hm)))" using hm_invD(4) [OF assms(1)] by (simp add: comp_def)
  have "distinct (map key (e # live hm'))"
    using distinct_map_mset [OF m', of key] hm_invD(4) [OF assms(1)] by (simp del: mset.simps)
  then have "Some s \<notin> fst ` set (map ?f (live hm'))"
    using assms(3) by (simp add: image_image)
  then have "map_of (map ?f (live hm')) (Some s) = None"
    by (simp only: map_of_eq_None_iff not_False_eq_True)
  moreover have "map_of (map ?f (live hm)) = map_of (map ?f (e # live hm'))"
    by (rule map_of_perm [OF d m])
  ultimately show "hm_view hm' t = ((hm_view hm)(s := None)) t"
    using assms(3) by (simp add: hm_view_def)
qed

lemma hm_inv_removed:
  assumes "hm_inv hm" and "mset (live hm) = add_mset e (mset (live hm'))" and "\<not> isSorted hm'"
    and "curNumberOfEntries hm' \<le> maxNumberOfEntries hm'" and "0 < maxNumberOfEntries hm'"
  shows "hm_inv hm'"
proof -
  have "distinct (map key (e # live hm'))"
    using hm_invD(4) [OF assms(1)] assms(2) distinct_map_mset [of "live hm" "e # live hm'" key] by simp
  moreover have "set (live hm') \<subseteq> set (live hm)"
    using assms(2) by (metis set_mset_add_mset_insert set_mset_mset subset_insertI)
  ultimately show ?thesis
    using assms by (auto simp: hm_inv_def list_all_iff)
qed

lemma RemoveKey_step:
  assumes "hm_inv hm"
  shows "\<exists>hm' rel. hashMap_RemoveKey hm (Some s) = Inr (hm', rel, hm_view hm s \<noteq> None) \<and> hm_inv hm' \<and>
           hm_view hm' = (hm_view hm)(s := None) \<and> entryAllocationStep hm' = entryAllocationStep hm \<and>
           maxNumberOfEntries hm' = maxNumberOfEntries hm"
proof (cases "hm_view hm s")
  case None
  then have "(hm_view hm)(s := None) = hm_view hm" by auto
  then show ?thesis
    using find_serial_missing [OF assms None] assms None hm_invD(1) [OF assms]
    by (simp add: hashMap_RemoveKey_def hashMap_FindIndexSerial_def hashMap_FindIndexSerialWithPrecomputedHash_def)
next
  case (Some v)
  then obtain i where i: "i < curNumberOfEntries hm" "key (entries hm ! i) = Some s"
    by (rule hm_view_index [OF assms])
  let ?h = "hit i hm"
  have inv: "hm_inv ?h" using assms by (rule hm_inv_hit)
  define es where "es = (if i \<noteq> curNumberOfEntries ?h - 1
     then (entries ?h)[i := entries ?h ! (curNumberOfEntries ?h - 1)] else entries ?h)"
  define hm' where "hm' = ?h\<lparr>entries := es[curNumberOfEntries ?h - 1 := zero_entry],
     curNumberOfEntries := curNumberOfEntries ?h - 1, isSorted := False\<rparr>"
  have m: "mset (live ?h) = add_mset (entries ?h ! i) (mset (live hm'))"
    using i by (intro live_remove [OF inv _ es_def hm'_def]) simp
  have k: "key (entries ?h ! i) = Some s"
    using i hm_invD(2) [OF assms] by simp
  have "hashMap_RemoveKey hm (Some s) = Inr (hm', released (clearItemCallback ?h) (entries ?h ! i), True)"
    using find_serial_found [OF assms le0 i] hm_invD(1) [OF assms]
    by (simp add: hashMap_RemoveKey_def hashMap_FindIndexSerial_def Let_def
        hashMap_FindIndexSerialWithPrecomputedHash_def hm'_def es_def)
  moreover have "hm_inv hm'"
    using i hm_invD(2) [OF assms] by (intro hm_inv_removed [OF inv m]) (auto simp: hm'_def es_def hit_def)
  moreover have "hm_view hm' = (hm_view hm)(s := None)"
    using hm_view_removed [OF inv m k] by simp
  ultimately show ?thesis using Some by (auto simp: hm'_def es_def)
qed

text \<open>The operations as the clients of a table see them, when memory does not run out.\<close>

definition table_add :: "hashMap \<Rightarrow> string \<Rightarrow> u64 \<Rightarrow> hashMap option" where
  "table_add hm k v =
     (case hashMap_AddULong True True hm (Some k) v of
        Inr (hm', True) \<Rightarrow> Some hm'
      | _ \<Rightarrow> None)"

definition table_del :: "hashMap \<Rightarrow> string \<Rightarrow> hashMap" where
  "table_del hm k = (case hashMap_RemoveKey hm (Some k) of Inr (hm', _, _) \<Rightarrow> hm' | Inl _ \<Rightarrow> hm)"

lemma table_del_step:
  assumes "hm_inv hm"
  shows "hm_inv (table_del hm k)" and "hm_view (table_del hm k) = (hm_view hm)(k := None)"
    and "entryAllocationStep (table_del hm k) = entryAllocationStep hm"
    and "maxNumberOfEntries (table_del hm k) = maxNumberOfEntries hm"
  using RemoveKey_step [OF assms, of k] by (auto simp: table_del_def)

lemma AddULong_room:
  assumes "hm_inv hm" and "hashMap_AddULong True True hm (Some k) v = Inr (hm', True)"
  shows "has_room hm"
proof (rule ccontr)
  assume "\<not> has_room hm"
  then have "maxNumberOfEntries hm \<le> curNumberOfEntries hm"
    and "entryAllocationStep hm = 0 \<or> 2 ^ 32 \<le> maxNumberOfEntries hm + entryAllocationStep hm"
    by (auto simp: has_room_def)
  then show False
    using assms(2) hm_invD(1) [OF assms(1)]
    by (auto simp: hashMap_AddULong_def hashMap_Add_def hashMap_Grow_def Let_def split: if_splits)
qed

lemma table_add_step:
  assumes "hm_inv hm" and "hm_view hm k = None" and "table_add hm k v = Some hm'"
  shows "hm_inv hm' \<and> hm_view hm' = (hm_view hm)(k \<mapsto> v)"
proof -
  have "hashMap_AddULong True True hm (Some k) v = Inr (hm', True)"
    using assms(3) by (auto simp: table_add_def split: sum.splits prod.splits bool.splits)
  then show ?thesis
    using AddULong_step [OF assms(1) AddULong_room [OF assms(1)] assms(2), where v = v] by auto
qed

interpretation hashmap: string_table hm_inv hm_view table_add table_del
  by unfold_locales (rule table_add_step, assumption+, simp add: table_del_step)

lemma table_add_ok:
  assumes "hm_inv hm" and "hm_view hm k = None" and "0 < entryAllocationStep hm"
    and "maxNumberOfEntries hm + entryAllocationStep hm < 2 ^ 32"
  shows "\<exists>hm'. table_add hm k v = Some hm' \<and> hm_inv hm' \<and> entryAllocationStep hm' = entryAllocationStep hm \<and>
           maxNumberOfEntries hm' \<le> maxNumberOfEntries hm + entryAllocationStep hm"
  using AddULong_step [OF assms(1) _ assms(2), where v = v] assms(3,4) by (auto simp: table_add_def has_room_def)

lemma table_run_ok:
  assumes "hm_inv hm" and "0 < entryAllocationStep hm"
    and "maxNumberOfEntries hm + length ops * entryAllocationStep hm < 2 ^ 32"
  shows "\<exists>hm'. table_run table_add table_del hm ops = Some hm'"
  using assms
proof (induction ops arbitrary: hm)
  case (Cons oper ops)
  show ?case
  proof (cases oper)
    case (Put k v)
    note d = table_del_step [OF Cons.prems(1), of k]
    obtain hm' where "table_add (table_del hm k) k v = Some hm'" "hm_inv hm'"
      "entryAllocationStep hm' = entryAllocationStep hm"
      "maxNumberOfEntries hm' \<le> maxNumberOfEntries hm + entryAllocationStep hm"
      using table_add_ok [OF d(1), of k v] d Cons.prems by auto
    then show ?thesis using Cons.IH [of hm'] Cons.prems Put by simp
  next
    case (Remove k)
    then show ?thesis using Cons.IH [of "table_del hm k"] Cons.prems table_del_step [OF Cons.prems(1), of k] by simp
  qed
qed simp

section \<open>Indices left behind by a removal\<close>

lemma stale_lookup:
  assumes "hm_inv hm" and "useSorting hm" and "\<not> isSorted hm" and "30 < curNumberOfEntries hm" and "collision_free hm z"
    and "\<forall>e\<in>set (live hm). key e = Some z \<longrightarrow> curNumberOfEntries hm \<le> index e"
    and "\<exists>e\<in>set (live hm). keyHash e < hashFunction (Some z)"
  shows "\<exists>hm' i. hashMap_FindIndex hm (Some z) 0 = Inr (hm', i, False) \<and> hm_view hm' = hm_view hm"
proof -
  let ?hm = "fst (hashMap_Sort hm)" and ?h = "hashFunction (Some z)"
  note p = hm_inv_sort [OF assms(1)]
  have n: "curNumberOfEntries ?hm = curNumberOfEntries hm" and u: "useSorting ?hm" "isSorted ?hm"
    using assms(1,2) hm_invD(1) [OF assms(1)] by (simp_all add: hashMap_Sort_def)
  have z: "key e = Some z" if "e \<in> set (live ?hm)" "keyHash e = ?h" for e
    using that assms(5) p(3) by (auto simp: collision_free_def list_all_iff)
  have l: "live ?hm ! i = entries ?hm ! i" if "i < curNumberOfEntries hm" for i
    using that n by simp
  obtain i where i: "i < curNumberOfEntries hm" "keyHash (entries ?hm ! i) < ?h"
  proof -
    from assms(7) obtain e where e: "e \<in> set (live ?hm)" "keyHash e < ?h" unfolding p(3) by blast
    from e(1) p(1) show thesis by (rule in_liveE) (use e(2) n that in simp)
  qed
  have "keyHash (live ?hm ! 0) \<le> keyHash (live ?hm ! i)"
    using sorted_nth_mono [of "map keyHash (live ?hm)" 0 i] p(1) u i n hm_invD(3) [OF p(1)] by (simp add: hm_inv_def)
  then have first: "keyHash (entries ?hm ! 0) \<noteq> ?h"
    using i l [of 0] l [of i] by auto
  have "hashMap_BSearch ?hm (Some z) ?h 0 = Inr (?hm, 0, False) \<or>
        (\<exists>i. hashMap_BSearch ?hm (Some z) ?h 0 = Inr (?hm, i, False))"
  proof (cases "bsearch (entries ?hm) ?h 0 (curNumberOfEntries hm)")
    case None
    then show ?thesis using n u by (simp add: hashMap_BSearch_def)
  next
    case (Some pos)
    have pos: "entries ?hm ! pos \<in> set (live ?hm)" "keyHash (entries ?hm ! pos) = ?h"
      using bsearch_Some [OF Some] live_at [OF p(1), of pos] n by simp_all
    then have "curNumberOfEntries hm \<le> index (entries ?hm ! pos)"
      using z assms(6) p(3) by auto
    then show ?thesis using Some n u by (simp add: hashMap_BSearch_def Let_def)
  qed
  then show ?thesis
    using assms(2-4) first n u p(2) hm_invD(1) [OF assms(1)]
    by (auto simp: hashMap_FindIndex_def Let_def hashMap_PrepareForQueries_def)
qed

lemma RemoveKey_live:
  assumes "hm_inv hm" and "hm_view hm s \<noteq> None"
  shows "\<exists>hm' rel. hashMap_RemoveKey hm (Some s) = Inr (hm', rel, True) \<and> \<not> isSorted hm' \<and>
           useSorting hm' = useSorting hm \<and> curNumberOfEntries hm' = curNumberOfEntries hm - 1 \<and>
           (\<forall>e'\<in>set (live hm'). \<exists>e\<in>set (live hm). \<exists>n. e' = e\<lparr>hits := n\<rparr>) \<and>
           (\<forall>e\<in>set (live hm). key e \<noteq> Some s \<longrightarrow> (\<exists>e'\<in>set (live hm'). keyHash e' = keyHash e))"
proof -
  obtain i where i: "i < curNumberOfEntries hm" "key (entries hm ! i) = Some s"
    using assms(2) hm_view_None [OF assms(1), of s] by auto
  let ?h = "hit i hm"
  have inv: "hm_inv ?h" using assms(1) by (rule hm_inv_hit)
  define es where "es = (if i \<noteq> curNumberOfEntries ?h - 1
     then (entries ?h)[i := entries ?h ! (curNumberOfEntries ?h - 1)] else entries ?h)"
  define hm' where "hm' = ?h\<lparr>entries := es[curNumberOfEntries ?h - 1 := zero_entry],
     curNumberOfEntries := curNumberOfEntries ?h - 1, isSorted := False\<rparr>"
  have m: "mset (live ?h) = add_mset (entries ?h ! i) (mset (live hm'))"
    using i by (intro live_remove [OF inv _ es_def hm'_def]) simp
  have r: "hashMap_RemoveKey hm (Some s) = Inr (hm', released (clearItemCallback ?h) (entries ?h ! i), True)"
    using find_serial_found [OF assms(1) le0 i] hm_invD(1) [OF assms(1)]
    by (simp add: hashMap_RemoveKey_def hashMap_FindIndexSerial_def Let_def
        hashMap_FindIndexSerialWithPrecomputedHash_def hm'_def es_def)
  have sub: "set (live hm') \<subseteq> set (live ?h)"
    using m by (metis set_mset_add_mset_insert set_mset_mset subset_insertI)
  have eq: "set (live ?h) = insert (entries ?h ! i) (set (live hm'))"
    using m by (metis set_mset_add_mset_insert set_mset_mset)
  have old: "\<exists>e\<in>set (live hm). \<exists>n. e' = e\<lparr>hits := n\<rparr>" if e': "e' \<in> set (live ?h)" for e'
  proof -
    obtain j where j: "j < curNumberOfEntries hm" "e' = entries ?h ! j"
      by (rule in_liveE [OF e' inv]) simp
    have "\<exists>n. e' = (entries hm ! j)\<lparr>hits := n\<rparr>"
      using j hm_invD(2) [OF assms(1)] by (cases "i = j") (auto simp: hit_def intro: exI [of _ "hits (entries hm ! j)"])
    then show ?thesis using live_at [OF assms(1) j(1)] by blast
  qed
  have new: "\<exists>e'\<in>set (live hm'). keyHash e' = keyHash e" if e: "e \<in> set (live hm)" "key e \<noteq> Some s" for e
  proof -
    obtain j where j: "j < curNumberOfEntries hm" "e = entries hm ! j"
      using e by (auto simp: in_live_iff [OF assms(1)])
    have "i \<noteq> j" using i j e by auto
    then have "entries ?h ! j = e" using j by (simp add: hit_def)
    moreover from this have "entries ?h ! j \<in> set (live hm')"
      using eq i e j hm_invD(2) [OF assms(1)] in_live_iff [OF inv, of e] by (auto simp: hit_def)
    ultimately show ?thesis by auto
  qed
  show ?thesis
    using r old new sub by (intro exI [of _ hm'] exI conjI) (auto simp: hm'_def)
qed

section \<open>Properties\<close>

text \<open>
  C34: any sequence of insertions, updates (a removal and an insertion) and removals on a
  map that satisfies its invariant succeeds while the slots fit 32 bits, and leaves exactly
  the finite map that the same sequence of updates leaves; the invariant holds again.
\<close>

theorem hashmap_runs_as_map:
  assumes "hm_inv hm" and "0 < entryAllocationStep hm"
    and "maxNumberOfEntries hm + length ops * entryAllocationStep hm < 2 ^ 32"
  shows "\<exists>hm'. table_run table_add table_del hm ops = Some hm' \<and> hm_inv hm' \<and>
               hm_view hm' = fold table_spec ops (hm_view hm)"
  using table_run_ok [OF assms] hashmap.run_view [OF assms(1)] by blast

lemma hm_inv_created:
  "0 < n \<Longrightarrow> hm_inv \<lparr>curNumberOfEntries = 0, entryAllocationStep = st, entries = replicate n zero_entry,
                    clearItemCallback = cb, isSorted = False, useSorting = so\<rparr>"
  by (simp add: hm_inv_def)

theorem hashmap_runs_as_map_witness:
  "\<exists>hm hm'. hashMap_Create True True 2 1 False True = Inr (Some hm) \<and>
     table_run table_add table_del hm [Put ''a'' 1, Put ''b'' 2, Put ''a'' 3, Remove ''b''] = Some hm' \<and>
     hm_view hm' ''a'' = Some 3 \<and> hm_view hm' ''b'' = None"
proof -
  let ?hm = "\<lparr>curNumberOfEntries = 0, entryAllocationStep = 1, entries = replicate 2 zero_entry,
              clearItemCallback = False, isSorted = False, useSorting = True\<rparr>"
  have "hashMap_Create True True 2 1 False True = Inr (Some ?hm)"
    by (simp add: hashMap_Create_def hashMap_Grow_def)
  with hashmap_runs_as_map [OF hm_inv_created [of 2 1 False True],
      of "[Put ''a'' 1, Put ''b'' 2, Put ''a'' 3, Remove ''b'']"]
  show ?thesis by auto
qed

text \<open>
  looking a key up returns the payload of the map and says whether it is there, sorts
  and counts without changing the contents, and keeps the invariant, provided no other key
  of the map has the same hash and, in maps of more than 30 entries, no removal has left an
  entry whose remembered index is past the end.
\<close>

lemma hashmap_lookup:
  assumes "hm_inv hm" and "collision_free hm s" and "curNumberOfEntries hm > 30 \<longrightarrow> indices_ok hm"
  shows "\<exists>hm'. hashMap_GetULongPayload hm (Some s) guess
                 = Inr (hm', (case hm_view hm s of None \<Rightarrow> guess | Some v \<Rightarrow> v), hm_view hm s \<noteq> None) \<and>
               hm_inv hm' \<and> hm_view hm' = hm_view hm"
  using FindIndex_answers [OF assms, of "unat guess"]
  by (cases "hm_view hm s") (auto simp: hashMap_GetULongPayload_def answers_def)

definition one_entry :: "string \<Rightarrow> u64 \<Rightarrow> hashMap" where
  "one_entry s v = \<lparr>curNumberOfEntries = 1, entryAllocationStep = 1,
     entries = [\<lparr>index = 0, keyHash = hashFunction (Some s), keyLength = length s, key = Some s, payloadLength = 0,
                 payload = v, payloadBytes = [], hits = 0\<rparr>],
     clearItemCallback = False, isSorted = False, useSorting = True\<rparr>"

lemma one_entry_inv: "hm_inv (one_entry s v)"
  by (simp add: hm_inv_def one_entry_def entry_ok_def)

lemma hashmap_lookup_witness:
  "\<exists>hm'. hashMap_GetULongPayload (one_entry ''ab'' 7) (Some ''ab'') 0 = Inr (hm', 7, True)"
proof -
  have "collision_free (one_entry ''ab'' 7) ''ab''" by (simp add: collision_free_def one_entry_def)
  moreover have "hm_view (one_entry ''ab'' 7) ''ab'' = Some 7" by (simp add: hm_view_def one_entry_def)
  ultimately show ?thesis
    using hashmap_lookup [OF one_entry_inv, of "''ab''" 7 "''ab''" 0] by (auto simp: one_entry_def)
qed

text \<open>
  the shortcut at the start of \<open>hashMap_FindIndex\<close> compares hashes only: a key that is
  not in the map is reported as present, with another key's payload, when the hash of that
  other key is the same and its position is the guess (0 for \<open>hashMap_ContainsKey\<close>).
\<close>

lemma hashmap_collision_hit:
  assumes "hm_inv hm" and "\<not> useSorting hm \<or> isSorted hm" and "key (entries hm ! 0) = Some a"
    and "0 < curNumberOfEntries hm" and "hashFunction (Some a) = hashFunction (Some b)" and "hm_view hm b = None"
  shows "\<exists>hm'. hashMap_ContainsKey hm (Some b) = Inr (hm', True) \<and> hm_view hm' b = None"
proof -
  have "keyHash (entries hm ! 0) = hashFunction (Some b)"
    using entry_ok_hash [OF hm_invD(5) [OF assms(1,4)] assms(3)] assms(5) by simp
  then have "hashMap_FindIndex hm (Some b) 0 = Inr (hit 0 hm, 0, True)"
    using assms hm_invD(1) [OF assms(1)] by (auto simp: hashMap_FindIndex_def Let_def)
  then show ?thesis using assms(6) by (simp add: hashMap_ContainsKey_def)
qed

lemma hashmap_collision_hit_witness:
  "\<exists>hm'. hashMap_ContainsKey ((one_entry ''ab'' 7)\<lparr>useSorting := False\<rparr>) (Some ''bA'') = Inr (hm', True) \<and>
         hm_view hm' ''bA'' = None"
proof (rule hashmap_collision_hit [where a = "''ab''"])
  show "hm_inv ((one_entry ''ab'' 7)\<lparr>useSorting := False\<rparr>)"
    using one_entry_inv [of "''ab''" 7] by (simp add: hm_inv_def)
  show "hashFunction (Some ''ab'') = hashFunction (Some ''bA'')"
    by (simp add: hashFunction_def schar_val_def push_bit_eq_mult Let_def)
qed (simp_all add: one_entry_def hm_view_def)

text \<open>
  C35: entries remember the position they were inserted at and a removal moves the last one
  without telling it: in a sorted map of more than 31 keys, removing any key makes the key
  that was inserted last unfindable, although it is still in the map.
\<close>

theorem hashmap_remove_hides_last:
  assumes "hm_inv hm" and "useSorting hm" and "31 < curNumberOfEntries hm" and "collision_free hm z"
    and "hm_view hm s \<noteq> None" and "hm_view hm z \<noteq> None" and "s \<noteq> z"
    and "\<forall>e\<in>set (live hm). key e = Some z \<longrightarrow> index e = curNumberOfEntries hm - 1"
    and "\<exists>e\<in>set (live hm). key e \<noteq> Some s \<and> keyHash e < hashFunction (Some z)"
  shows "\<exists>hm' rel hm''. hashMap_RemoveKey hm (Some s) = Inr (hm', rel, True) \<and> hm_view hm' z = hm_view hm z \<and>
               hashMap_ContainsKey hm' (Some z) = Inr (hm'', False)"
proof -
  obtain hm' rel where r: "hashMap_RemoveKey hm (Some s) = Inr (hm', rel, True)"
    and n: "\<not> isSorted hm'" "useSorting hm'" "curNumberOfEntries hm' = curNumberOfEntries hm - 1"
    and old: "\<forall>e'\<in>set (live hm'). \<exists>e\<in>set (live hm). \<exists>n. e' = e\<lparr>hits := n\<rparr>"
    and new: "\<forall>e\<in>set (live hm). key e \<noteq> Some s \<longrightarrow> (\<exists>e'\<in>set (live hm'). keyHash e' = keyHash e)"
    using RemoveKey_live [OF assms(1,5)] assms(2) by auto
  have inv: "hm_inv hm'" and view: "hm_view hm' = (hm_view hm)(s := None)"
    using RemoveKey_step [OF assms(1), of s] r by auto
  have "collision_free hm' z"
    using old assms(4) unfolding collision_free_def list_all_iff by fastforce
  moreover have "\<forall>e\<in>set (live hm'). key e = Some z \<longrightarrow> curNumberOfEntries hm' \<le> index e"
    using old assms(8) n(3) by fastforce
  moreover have "\<exists>e\<in>set (live hm'). keyHash e < hashFunction (Some z)"
    using new assms(9) by metis
  ultimately have "\<exists>hm'' i. hashMap_FindIndex hm' (Some z) 0 = Inr (hm'', i, False) \<and> hm_view hm'' = hm_view hm'"
    using n(3) assms(3) by (intro stale_lookup [OF inv n(2,1)]) simp_all
  then show ?thesis
    using r view assms(7) by (auto simp: hashMap_ContainsKey_def)
qed

definition letters :: "nat \<Rightarrow> hashMap" where
  "letters n = \<lparr>curNumberOfEntries = n, entryAllocationStep = 1,
     entries = map (\<lambda>i. let k = [char_of (65 + i)] in
       \<lparr>index = i, keyHash = hashFunction (Some k), keyLength = 1, key = Some k, payloadLength = 0,
        payload = word_of_nat i, payloadBytes = [], hits = 0\<rparr>) [0..<n],
     clearItemCallback = False, isSorted = False, useSorting = True\<rparr>"

lemma hash_letter:
  fixes i :: nat
  assumes "i < 60"
  shows "hashFunction (Some [char_of (65 + i)]) = word_of_nat (33 * (33 * 5381 + 65 + i))"
proof -
  have "char_of (65 + i) \<noteq> NUL" and "schar_val (char_of (65 + i)) = int (65 + i)"
    using assms by (simp_all add: schar_val_def char_eq_byte_val [of _ NUL])
  then show ?thesis by (simp add: hashFunction_def push_bit_eq_mult Let_def)
qed

lemma u64_of_nat_less:
  assumes "m < 2 ^ 64" and "n < 2 ^ 64"
  shows "(word_of_nat m :: u64) < word_of_nat n \<longleftrightarrow> m < n" and "(word_of_nat m :: u64) = word_of_nat n \<longleftrightarrow> m = n"
  using assms by (simp_all add: word_less_nat_alt word_unat_eq_iff unat_of_nat)

lemma hash_letter_less:
  fixes i j :: nat
  assumes "i < 60" and "j < 60"
  shows "hashFunction (Some [char_of (65 + i)]) < hashFunction (Some [char_of (65 + j)]) \<longleftrightarrow> i < j"
    and "hashFunction (Some [char_of (65 + i)]) = hashFunction (Some [char_of (65 + j)]) \<longleftrightarrow> i = j"
  unfolding hash_letter [OF assms(1)] hash_letter [OF assms(2)]
  using assms u64_of_nat_less [of "33 * (33 * 5381 + 65 + i)" "33 * (33 * 5381 + 65 + j)"] by auto

theorem hashmap_remove_hides_last_witness:
  "\<exists>hm' rel hm''. hashMap_RemoveKey (letters 40) (Some ''B'') = Inr (hm', rel, True) \<and>
     hm_view hm' ''h'' = hm_view (letters 40) ''h'' \<and> hashMap_ContainsKey hm' (Some ''h'') = Inr (hm'', False)"
proof (rule hashmap_remove_hides_last)
  have h: "CHR ''h'' = char_of (65 + 39 :: nat)" by (simp add: char_eq_byte_val)
  show inv: "hm_inv (letters 40)"
    by (auto simp: hm_inv_def letters_def entry_ok_def Let_def list_all_iff distinct_map inj_on_def comp_def)
  show "collision_free (letters 40) ''h''"
    using hash_letter_less(2) [of _ 39] unfolding h by (auto simp: collision_free_def letters_def Let_def list_all_iff)
  show "hm_view (letters 40) ''B'' \<noteq> None"
    using hm_view_Some [OF inv, of 1 "''B''"] by (simp add: letters_def Let_def char_eq_byte_val)
  show "hm_view (letters 40) ''h'' \<noteq> None"
    using hm_view_Some [OF inv, of 39 "''h''"] by (simp add: letters_def Let_def char_eq_byte_val)
  show "\<forall>e\<in>set (live (letters 40)). key e = Some ''h'' \<longrightarrow> index e = curNumberOfEntries (letters 40) - 1"
    by (auto simp: letters_def Let_def char_eq_byte_val)
  show "\<exists>e\<in>set (live (letters 40)). key e \<noteq> Some ''B'' \<and> keyHash e < hashFunction (Some ''h'')"
    using hash_letter_less(1) [of 0 39] unfolding h
    by (intro bexI [of _ "entries (letters 40) ! 0"]) (auto simp: letters_def Let_def char_eq_byte_val)
qed (simp_all add: letters_def)

text \<open>
  when the array is full and cannot grow, \<open>hashMap_Add\<close> reports success although it
  stores nothing.
\<close>

lemma hashmap_add_reports_success:
  assumes "hm_inv hm" and "curNumberOfEntries hm = maxNumberOfEntries hm"
  shows "\<exists>hm'. hashMap_Add False key_ok ptr mem hm k v n = Inr (hm', True) \<and> hm_view hm' = hm_view hm \<and>
               curNumberOfEntries hm' = curNumberOfEntries hm"
  using assms hm_invD(1) [OF assms(1)]
  by (auto simp: hashMap_Add_def hashMap_Grow_def hm_view_def)

lemma hashmap_add_reports_success_witness:
  "\<exists>hm'. hashMap_Add False True 0 (\<lambda>_ _. []) (one_entry ''ab'' 7) (Some ''cd'') 9 0 = Inr (hm', True) \<and>
         hm_view hm' ''cd'' = None"
proof -
  have "hm_view (one_entry ''ab'' 7) ''cd'' = None" by (simp add: one_entry_def hm_view_def)
  with hashmap_add_reports_success [OF one_entry_inv, of "''ab''" 7 True 0 "\<lambda>_ _. []" "Some ''cd''" 9 0]
  show ?thesis by (auto simp: one_entry_def)
qed

text \<open>The payloads among what was handed back.\<close>

fun payloads :: "release list \<Rightarrow> u64 list" where
  "payloads [] = []"
| "payloads (Clear_item p # rs) = p # payloads rs"
| "payloads (Free_payload p # rs) = p # payloads rs"
| "payloads (Free_key k # rs) = payloads rs"

lemma payloads_append [simp]: "payloads (xs @ ys) = payloads xs @ payloads ys"
  by (induction xs rule: payloads.induct) simp_all

lemma payloads_released:
  "payloads (concat (map (released callback) es))
     = map payload (if callback then es else filter (\<lambda>e. payloadLength e \<noteq> 0) es)"
  by (induction es) (auto simp: released_def split: option.splits)

text \<open>
  emptying a map hands every live payload exactly once to the callback when there is
  one, and frees exactly the payloads the map owns when there is none; the map that is left
  is empty, satisfies the invariant and can be filled again.
\<close>

lemma hashmap_clear_releases:
  assumes "hm_inv hm"
  shows "hm_inv (fst (hashMap_Clear hm)) \<and> hm_view (fst (hashMap_Clear hm)) = (\<lambda>_. None) \<and>
         payloads (snd (hashMap_Clear hm))
           = map payload (if clearItemCallback hm then live hm else filter (\<lambda>e. payloadLength e \<noteq> 0) (live hm))"
  using assms hm_invD(1) [OF assms] payloads_released [of "clearItemCallback hm" "live hm"]
  by (auto simp: hashMap_Clear_def hm_inv_def hm_view_def)

lemma hashmap_clear_releases_witness:
  "payloads (snd (hashMap_Clear ((one_entry ''ab'' 7)\<lparr>clearItemCallback := True\<rparr>))) = [7]"
proof -
  have "hm_inv ((one_entry ''ab'' 7)\<lparr>clearItemCallback := True\<rparr>)"
    using one_entry_inv [of "''ab''" 7] by (simp add: hm_inv_def)
  from hashmap_clear_releases [OF this] show ?thesis by (simp add: one_entry_def)
qed

end
