(* ===== verification/ApiRequest.thy ===== *)
theory ApiRequest
  imports Prelude
begin

text \<open>
  What an API handler reads from its request (\<open>AmmServer_APIRequestHeader\<close>,
  \<open>AmmServer_APIRequestBearer\<close>, \<open>AmmServer_APIRequestQueryParam\<close> and
  \<open>AmmServer_APIRequestMatch\<close> of \<open>src/AmmServerlib/threads/apiProtocol.c\<close>).  The request
  record has the bytes of each part; the pointers the routines return are an offset and a
  length into that part.  The NULL pointer is \<open>None\<close>.
\<close>

section \<open>The code\<close>

datatype request_type = NONE | HEAD | GET | POST | PUT | DELETE | TRACE | OPTIONS | CONNECT | PATCH | BAD

record api_request =
  rq_method :: request_type
  rq_path :: string
  rq_query :: "string option"
  rq_headers :: "string option"
  rq_body :: "string option"

abbreviation blank :: "char \<Rightarrow> bool" where "blank c \<equiv> c = SPC \<or> c = TAB"
abbreviation cr_blank :: "char \<Rightarrow> bool" where "cr_blank c \<equiv> c = CR \<or> c = SPC \<or> c = TAB"

text \<open>The line that starts at \<open>line\<close> ends at the next LF or at the end of the block.\<close>

definition line_end :: "string \<Rightarrow> nat \<Rightarrow> nat" where
  "line_end h line = (case memchr h LF line (length h) of None \<Rightarrow> length h | Some k \<Rightarrow> k)"

lemma line_end_scan: "line \<le> length h \<Longrightarrow> line_end h line = scan_while (\<lambda>c. c \<noteq> LF) h (length h) line"
  using scan_while_le [of line "length h" "\<lambda>c. c \<noteq> LF" h] by (auto simp: line_end_def memchr_def Let_def)

lemma line_end_bounds: "line \<le> length h \<Longrightarrow> line \<le> line_end h line \<and> line_end h line \<le> length h"
  by (simp add: line_end_scan scan_while_ge scan_while_le)

function find_header :: "string \<Rightarrow> string \<Rightarrow> nat \<Rightarrow> (nat \<times> nat) option" where
  "find_header h name line =
     (if line < length h then
        (let lineEnd = line_end h line
         in if lineEnd - line > length name \<and> h ! (line + length name) = CHR '':'' \<and>
               strncaseeq (drop line h) name (length name)
            then
              (let v = scan_while blank h lineEnd (line + length name + 1);
                   e = scan_back cr_blank h v lineEnd
               in Some (v, e - v))
            else if lineEnd = length h then None
            else find_header h name (lineEnd + 1))
      else None)"
  by pat_completeness auto
termination
proof (relation "measure (\<lambda>(h, name, line). length h - line)", goal_cases)
  case (2 h name line lineEnd)
  then show ?case using line_end_bounds [of line h] by auto
qed simp

declare find_header.simps [simp del]

definition AmmServer_APIRequestHeader :: "string option \<Rightarrow> string option \<Rightarrow> (nat \<times> nat) option" where
  "AmmServer_APIRequestHeader headers name =
     (case (headers, name) of (Some h, Some n) \<Rightarrow> find_header h n 0 | _ \<Rightarrow> None)"

text \<open>The token as an offset and a length into the header block; None is the NULL pointer.\<close>

definition AmmServer_APIRequestBearer :: "string option \<Rightarrow> (nat \<times> nat) option" where
  "AmmServer_APIRequestBearer headers =
     (case AmmServer_APIRequestHeader headers (Some ''Authorization'') of
        None \<Rightarrow> None
      | Some (header, headerLength) \<Rightarrow>
          (let v = slice (the headers) header headerLength
           in if headerLength < 6 then None
              else if map tolower (take 6 v) \<noteq> ''bearer'' then None
              else if headerLength = 6 \<or> v ! 6 \<noteq> SPC then None
              else
                (let at = scan_while (\<lambda>c. c = SPC) v headerLength 6
                 in if at \<ge> headerLength then Some (header + headerLength, 0)
                    else
                      (let e = scan_while (\<lambda>c. \<not> blank c) v headerLength at
                       in Some (header + at, e - at)))))"

function find_param :: "string \<Rightarrow> string \<Rightarrow> nat \<Rightarrow> (nat \<times> nat) option" where
  "find_param query name at =
     (if at < length query then
        (let pairEnd = scan_while (\<lambda>c. c \<noteq> CHR ''&'') query (length query) at;
             equals = scan_while (\<lambda>c. c \<noteq> CHR ''='') query pairEnd at
         in if equals - at = length name \<and> slice query at (length name) = name
            then (let v = (if equals < pairEnd then equals + 1 else pairEnd) in Some (v, pairEnd - v))
            else find_param query name (if pairEnd < length query then pairEnd + 1 else pairEnd))
      else None)"
  by pat_completeness auto
termination
proof (relation "measure (\<lambda>(query, name, at). length query - at)", goal_cases)
  case (2 query name at pairEnd equals)
  then have "at \<le> pairEnd" "pairEnd \<le> length query" by (simp_all add: scan_while_ge scan_while_le)
  with 2 show ?case by (cases "pairEnd < length query") auto
qed simp

declare find_param.simps [simp del]

definition AmmServer_APIRequestQueryParam :: "string option \<Rightarrow> string option \<Rightarrow> (nat \<times> nat) option" where
  "AmmServer_APIRequestQueryParam query name =
     (case (query, name) of
        (Some q, Some n) \<Rightarrow> (if n = [] then None else find_param q n 0)
      | _ \<Rightarrow> None)"

text \<open>\<open>value\<close> is a \<open>long long\<close>; with at most 18 digits it does not overflow.\<close>

definition digits_value :: "string \<Rightarrow> int" where
  "digits_value s = foldl (\<lambda>v c. v * 10 + int (digit_val c)) 0 s"

definition MatchPositiveInteger :: "string \<Rightarrow> int option" where
  "MatchPositiveInteger s =
     (if s = [] \<or> length s > 18 then None
      else if \<not> list_all is_digit s then None
      else if digits_value s \<le> 0 then None
      else Some (digits_value s))"

text \<open>
  The loop of \<open>AmmServer_APIRequestMatch\<close> over the template.  A path is NUL terminated, so
  reading the byte at its length gives NUL; the captures are returned in order.
\<close>

datatype capture = Cap_int int | Cap_text string

definition conversion_at :: "string \<Rightarrow> nat \<Rightarrow> nat option" where
  "conversion_at t tAt =
     (if tAt + 3 < length t \<and> slice t tAt 4 = ''%lld'' then Some 4
      else if t ! (tAt + 1) = CHR ''s'' then Some 2
      else None)"

function match_loop :: "string \<Rightarrow> string \<Rightarrow> nat \<Rightarrow> nat \<Rightarrow> capture list \<Rightarrow> (nat \<times> capture list) option" where
  "match_loop path t at tAt caps =
     (if tAt < length t then
        (if t ! tAt = CHR ''%'' \<and> tAt + 1 < length t then
           (case conversion_at t tAt of
              None \<Rightarrow> None
            | Some conversion \<Rightarrow>
                (let stopAt = c_at t (tAt + conversion);
                     runEnd = scan_while (\<lambda>c. c \<noteq> stopAt \<and> c \<noteq> CHR ''/'') path (length path) at
                 in if conversion = 4
                    then (case MatchPositiveInteger (between path at runEnd) of
                            None \<Rightarrow> None
                          | Some v \<Rightarrow> match_loop path t runEnd (tAt + conversion) (caps @ [Cap_int v]))
                    else if runEnd = at then None
                    else match_loop path t runEnd (tAt + conversion) (caps @ [Cap_text (between path at runEnd)])))
         else if c_at path at \<noteq> t ! tAt then None
         else match_loop path t (at + 1) (tAt + 1) caps)
      else Some (at, caps))"
  by pat_completeness auto
termination
proof (relation "measure (\<lambda>(path, t, at, tAt, caps). length t - tAt)", goal_cases)
  case (2 path t at tAt caps conversion)
  then show ?case by (auto simp: conversion_at_def split: if_splits)
next
  case (3 path t at tAt caps conversion)
  then show ?case by (auto simp: conversion_at_def split: if_splits)
qed auto

declare match_loop.simps [simp del]

definition AmmServer_APIRequestMatch :: "string option \<Rightarrow> string option \<Rightarrow> capture list option" where
  "AmmServer_APIRequestMatch path pathTemplate =
     (case (path, pathTemplate) of
        (Some p, Some t) \<Rightarrow>
          (case match_loop p t 0 0 [] of
             Some (at, caps) \<Rightarrow> if c_at p at \<noteq> NUL then None else Some caps
           | None \<Rightarrow> None)
      | _ \<Rightarrow> None)"

section \<open>What the searches find\<close>

text \<open>The text a returned offset and length stand for.\<close>

definition text_at :: "string \<Rightarrow> nat \<times> nat \<Rightarrow> string" where
  "text_at s r = slice s (fst r) (snd r)"

definition header_value :: "string \<Rightarrow> string \<Rightarrow> string option" where
  "header_value name line =
     (if length name < length line \<and> line ! length name = CHR '':'' \<and>
         map tolower (take (length name) line) = map tolower name
      then Some (trim_right cr_blank (dropWhile blank (drop (length name + 1) line)))
      else None)"

definition param_value :: "string \<Rightarrow> string \<Rightarrow> string option" where
  "param_value name p =
     (if takeWhile (\<lambda>c. c \<noteq> CHR ''='') p = name then Some (drop (length name + 1) p) else None)"

lemma find_header_eq:
  assumes "NUL \<notin> set name" and "line \<le> length h"
  shows "map_option (text_at h) (find_header h name line)
           = first_some (header_value name) (split_on LF (drop line h)) \<and>
         (\<forall>p n. find_header h name line = Some (p, n) \<longrightarrow> p + n \<le> length h)"
  using assms
proof (induction h name line rule: find_header.induct)
  case (1 h name line)
  let ?e = "line_end h line" and ?b = "line + length name + 1"
  let ?l = "between h line ?e"
  have e: "line \<le> ?e" "?e \<le> length h" using line_end_bounds [of line h] "1.prems" by auto
  have split: "split_on LF (drop line h) = (if ?e = length h then [?l] else ?l # split_on LF (drop (?e + 1) h))"
    using "1.prems" by (intro split_on_scan) (simp_all add: line_end_scan)
  let ?hit = "?e - line > length name \<and> h ! (line + length name) = CHR '':'' \<and> strncaseeq (drop line h) name (length name)"
  have hit: "?hit \<longleftrightarrow> header_value name ?l \<noteq> None"
  proof (cases "?e - line > length name")
    case True
    then have "take (length name) (drop line h) = take (length name) ?l" and "h ! (line + length name) = ?l ! length name"
      using e by (simp_all add: between_def)
    then show ?thesis
      using True e strncaseeq_iff [OF "1.prems"(1), of "drop line h"] by (auto simp: header_value_def length_between)
  next
    case False
    then show ?thesis using e by (simp add: header_value_def length_between)
  qed
  show ?case
  proof (cases ?hit)
    case True
    let ?v = "scan_while blank h ?e ?b" and ?t = "scan_back cr_blank h (scan_while blank h ?e ?b) ?e"
    have b: "?b \<le> ?e" and lt: "line < length h" using True e by auto
    then have v: "?b \<le> ?v" "?v \<le> ?e" by (simp_all add: scan_while_ge scan_while_le)
    then have t: "?v \<le> ?t" "?t \<le> ?e" by (simp_all add: scan_facts)
    have "drop (length name + 1) ?l = between h ?b ?e"
      using b by (simp add: between_def drop_take add.commute)
    then have hv: "header_value name ?l = Some (between h ?v ?t)"
      using True hit b v e
      by (simp add: header_value_def between_dropWhile between_trim_right split: if_splits)
    have "first_some (header_value name) (split_on LF (drop line h)) = Some (between h ?v ?t)"
      unfolding split by (rule first_some_if) (rule hv)
    moreover have "find_header h name line = Some (?v, ?t - ?v)"
      using True lt by (subst find_header.simps) (simp add: Let_def)
    ultimately show ?thesis
      using t e by (simp add: text_at_def slice_between)
  next
    case False
    show ?thesis
    proof (cases "line < length h")
      case True
      have step: "find_header h name line = (if ?e = length h then None else find_header h name (?e + 1))"
        using True False by (subst find_header.simps) (auto simp: Let_def)
      show ?thesis
        using "1.IH" [OF True refl False] "1.prems" e hit False by (auto simp: split step)
    next
      case ge: False
      then have "find_header h name line = None" by (subst find_header.simps) simp
      then show ?thesis using split hit False e ge "1.prems" by simp
    qed
  qed
qed

lemma find_param_eq:
  assumes "name \<noteq> []" and "at \<le> length q"
  shows "map_option (text_at q) (find_param q name at)
           = first_some (param_value name) (split_on (CHR ''&'') (drop at q)) \<and>
         (\<forall>p n. find_param q name at = Some (p, n) \<longrightarrow> p + n \<le> length q)"
  using assms
proof (induction q name at rule: find_param.induct)
  case (1 q name at)
  let ?e = "scan_while (\<lambda>c. c \<noteq> CHR ''&'') q (length q) at"
  let ?q = "scan_while (\<lambda>c. c \<noteq> CHR ''='') q ?e at"
  let ?l = "between q at ?e"
  have e: "at \<le> ?e" "?e \<le> length q" using "1.prems" by (simp_all add: scan_facts)
  then have q: "at \<le> ?q" "?q \<le> ?e" by (simp_all add: scan_facts)
  have split: "split_on (CHR ''&'') (drop at q) = (if ?e = length q then [?l] else ?l # split_on (CHR ''&'') (drop (?e + 1) q))"
    using "1.prems" by (intro split_on_scan) simp_all
  have name: "takeWhile (\<lambda>c. c \<noteq> CHR ''='') ?l = between q at ?q"
    using e by (simp add: between_takeWhile)
  have eq: "?q - at = length name \<and> slice q at (length name) = name \<longleftrightarrow> between q at ?q = name"
    using q e by (auto simp: slice_def between_def)
  show ?case
  proof (cases "at < length q \<and> between q at ?q = name")
    case True
    let ?v = "if ?q < ?e then ?q + 1 else ?e"
    have n: "length name = ?q - at" using True q e length_between [of ?q q at] by auto
    have "drop (length name + 1) ?l = between q (?q + 1) ?e"
      using q n by (simp add: between_def drop_take)
    then have "param_value name ?l = Some (between q ?v ?e)"
      using True name q by (auto simp: param_value_def between_def)
    moreover have "find_param q name at = Some (?v, ?e - ?v)"
      using True eq by (subst find_param.simps) (simp add: Let_def)
    ultimately show ?thesis
      using e q split by (auto simp: text_at_def slice_between)
  next
    case False
    show ?thesis
    proof (cases "at < length q")
      case True
      have none: "param_value name ?l = None" using False True name by (simp add: param_value_def)
      have cond: "\<not> (?q - at = length name \<and> slice q at (length name) = name)" using False True eq by simp
      have step: "find_param q name at = find_param q name (if ?e < length q then ?e + 1 else ?e)"
        using True cond by (subst find_param.simps) (auto simp: Let_def)
      show ?thesis
      proof (cases "?e < length q")
        case lt: True
        then show ?thesis
          using "1.IH" [OF True refl refl cond] "1.prems" e none by (simp add: split step)
      next
        case ge: False
        then have "?e = length q" using e by simp
        moreover have "find_param q name (length q) = None" by (subst find_param.simps) simp
        ultimately show ?thesis using none by (simp add: split step)
      qed
    next
      case ge: False
      then have "find_param q name at = None" by (subst find_param.simps) simp
      moreover have "param_value name ?l = None" using ge "1.prems" e by (simp add: param_value_def between_def)
      ultimately show ?thesis using split e ge "1.prems" by simp
    qed
  qed
qed

section \<open>Templates\<close>

text \<open>A path template as a list of pieces, and the paths it stands for.\<close>

datatype piece = Lit char | Int_piece | Text_piece

fun template_of :: "piece list \<Rightarrow> string" where
  "template_of [] = []"
| "template_of (Lit c # ps) = c # template_of ps"
| "template_of (Int_piece # ps) = ''%lld'' @ template_of ps"
| "template_of (Text_piece # ps) = ''%s'' @ template_of ps"

definition piece_ok :: "piece \<Rightarrow> bool" where
  "piece_ok p \<longleftrightarrow> p \<noteq> Lit NUL \<and> p \<noteq> Lit (CHR ''%'')"

definition stop_of :: "piece list \<Rightarrow> char" where
  "stop_of ps = c_at (template_of ps) 0"

abbreviation in_segment :: "piece list \<Rightarrow> char \<Rightarrow> bool" where
  "in_segment ps c \<equiv> c \<noteq> stop_of ps \<and> c \<noteq> CHR ''/''"

inductive path_matches :: "piece list \<Rightarrow> string \<Rightarrow> capture list \<Rightarrow> bool" where
  done_matches: "path_matches [] [] []"
| lit_matches: "path_matches ps p cs \<Longrightarrow> path_matches (Lit c # ps) (c # p) cs"
| int_matches: "path_matches ps p cs \<Longrightarrow> list_all (in_segment ps) seg \<Longrightarrow> p = [] \<or> \<not> in_segment ps (hd p) \<Longrightarrow>
     MatchPositiveInteger seg = Some v \<Longrightarrow> path_matches (Int_piece # ps) (seg @ p) (Cap_int v # cs)"
| text_matches: "path_matches ps p cs \<Longrightarrow> list_all (in_segment ps) seg \<Longrightarrow> p = [] \<or> \<not> in_segment ps (hd p) \<Longrightarrow>
     seg \<noteq> [] \<Longrightarrow> path_matches (Text_piece # ps) (seg @ p) (Cap_text seg # cs)"

fun match_spec :: "piece list \<Rightarrow> string \<Rightarrow> (string \<times> capture list) option" where
  "match_spec [] p = Some (p, [])"
| "match_spec (Lit c # ps) p =
     (case p of [] \<Rightarrow> None | x # p \<Rightarrow> if x = c then match_spec ps p else None)"
| "match_spec (Int_piece # ps) p =
     (case MatchPositiveInteger (takeWhile (in_segment ps) p) of
        None \<Rightarrow> None
      | Some v \<Rightarrow> map_option (\<lambda>(r, cs). (r, Cap_int v # cs)) (match_spec ps (dropWhile (in_segment ps) p)))"
| "match_spec (Text_piece # ps) p =
     (if takeWhile (in_segment ps) p = [] then None
      else map_option (\<lambda>(r, cs). (r, Cap_text (takeWhile (in_segment ps) p) # cs))
             (match_spec ps (dropWhile (in_segment ps) p)))"

lemma hd_dropWhile_or: "dropWhile P xs = [] \<or> \<not> P (hd (dropWhile P xs))"
  using hd_dropWhile by blast

lemma match_spec_iff: "match_spec ps p = Some ([], cs) \<longleftrightarrow> path_matches ps p cs"
proof
  assume "match_spec ps p = Some ([], cs)"
  then show "path_matches ps p cs"
  proof (induction ps p arbitrary: cs rule: match_spec.induct)
    case (3 ps p)
    let ?s = "takeWhile (in_segment ps) p"
    from 3 obtain v cs' where v: "MatchPositiveInteger ?s = Some v" "cs = Cap_int v # cs'"
      "match_spec ps (dropWhile (in_segment ps) p) = Some ([], cs')"
      by (auto split: option.splits)
    have "path_matches (Int_piece # ps) (?s @ dropWhile (in_segment ps) p) cs"
      unfolding v(2) using 3(1) [OF v(1,3)] v(1)
      by (intro int_matches hd_dropWhile_or) (auto simp: list_all_iff dest: set_takeWhileD)
    then show ?case by simp
  next
    case (4 ps p)
    let ?s = "takeWhile (in_segment ps) p"
    from 4 obtain cs' where v: "?s \<noteq> []" "cs = Cap_text ?s # cs'"
      "match_spec ps (dropWhile (in_segment ps) p) = Some ([], cs')"
      by (auto split: if_splits)
    have "path_matches (Text_piece # ps) (?s @ dropWhile (in_segment ps) p) cs"
      unfolding v(2) using 4(1) [OF v(1,3)] v(1)
      by (intro text_matches hd_dropWhile_or) (auto simp: list_all_iff dest: set_takeWhileD)
    then show ?case by simp
  qed (auto intro: path_matches.intros split: list.splits if_splits)
next
  assume "path_matches ps p cs"
  then show "match_spec ps p = Some ([], cs)"
  proof induction
    case (int_matches ps p cs seg v)
    then have "takeWhile (in_segment ps) (seg @ p) = seg" "dropWhile (in_segment ps) (seg @ p) = p"
      by (cases p; auto simp: list_all_iff takeWhile_append dropWhile_append)+
    then show ?case using int_matches by simp
  next
    case (text_matches ps p cs seg)
    then have "takeWhile (in_segment ps) (seg @ p) = seg" "dropWhile (in_segment ps) (seg @ p) = p"
      by (cases p; auto simp: list_all_iff takeWhile_append dropWhile_append)+
    then show ?case using text_matches by simp
  qed simp_all
qed

lemma match_spec_shorter: "match_spec ps p = Some (r, cs) \<Longrightarrow> length r \<le> length p"
proof (induction ps p arbitrary: cs rule: match_spec.induct)
  case (3 ps p)
  then show ?case
    using length_dropWhile_le [of "in_segment ps" p] by (auto split: option.splits intro: le_trans)
next
  case (4 ps p)
  then show ?case
    using length_dropWhile_le [of "in_segment ps" p] by (auto split: if_splits intro: le_trans)
qed (fastforce split: list.splits if_splits)+

lemma match_loop_pieces:
  assumes "list_all piece_ok ps" and "path = pre @ rest" and "t = tpre @ template_of ps"
  shows "match_loop path t (length pre) (length tpre) caps
           = map_option (\<lambda>(r, cs). (length path - length r, caps @ cs)) (match_spec ps rest)"
  using assms
proof (induction ps arbitrary: pre rest tpre caps)
  case Nil
  then show ?case by (subst match_loop.simps) simp
next
  case (Cons q ps)
  let ?seg = "takeWhile (in_segment ps) rest" and ?rest = "dropWhile (in_segment ps) rest"
  let ?m = "match_loop path t"
  have ok: "list_all piece_ok ps" using Cons.prems(1) by simp
  have path: "path = (pre @ ?seg) @ ?rest" using Cons.prems(2) by simp
  have run: "scan_while (in_segment ps) path (length path) (length pre) = length (pre @ ?seg)"
    using Cons.prems(2) by (simp add: scan_while_takeWhile)
  have seg: "between path (length pre) (length (pre @ ?seg)) = ?seg"
    unfolding Cons.prems(2) by (simp add: between_def takeWhile_eq_take [symmetric])
  show ?case
  proof (cases q)
    case (Lit c)
    have t: "t = (tpre @ [c]) @ template_of ps" using Cons.prems(3) Lit by simp
    have c: "c \<noteq> NUL" "c \<noteq> CHR ''%''" using Cons.prems(1) Lit by (auto simp: piece_ok_def)
    have step: "?m (length pre) (length tpre) caps
        = (if c_at path (length pre) \<noteq> c then None else ?m (length pre + 1) (length tpre + 1) caps)"
      using t c by (subst match_loop.simps) (simp add: nth_append)
    show ?thesis
    proof (cases rest)
      case Nil
      then show ?thesis using step c Cons.prems(2) Lit by (simp add: c_at_def)
    next
      case (Cons x r)
      have p: "path = (pre @ [x]) @ r" using Cons.prems(2) Cons by simp
      show ?thesis
        using step Cons.IH [OF ok p t, of caps] Lit Cons p by (auto simp: c_at_def nth_append)
    qed
  next
    case Int_piece
    have t: "t = (tpre @ ''%lld'') @ template_of ps" using Cons.prems(3) Int_piece by simp
    have stop: "c_at t (length tpre + 4) = stop_of ps" unfolding t by (simp add: c_at_def stop_of_def nth_append)
    have "conversion_at t (length tpre) = Some 4" unfolding t by (simp add: conversion_at_def slice_def)
    then have "?m (length pre) (length tpre) caps =
        (case MatchPositiveInteger ?seg of None \<Rightarrow> None
         | Some v \<Rightarrow> ?m (length (pre @ ?seg)) (length tpre + 4) (caps @ [Cap_int v]))"
      using t stop run seg by (subst match_loop.simps) (simp add: nth_append split: option.split)
    moreover have "?m (length (pre @ ?seg)) (length tpre + 4) caps'
        = map_option (\<lambda>(r, cs). (length path - length r, caps' @ cs)) (match_spec ps ?rest)" for caps'
      using Cons.IH [OF ok path t, of caps'] by (simp add: numeral_nat)
    ultimately show ?thesis
      using Int_piece by (cases "match_spec ps ?rest") (auto split: option.splits)
  next
    case Text_piece
    have t: "t = (tpre @ ''%s'') @ template_of ps" using Cons.prems(3) Text_piece by simp
    have stop: "c_at t (length tpre + 2) = stop_of ps" unfolding t by (simp add: c_at_def stop_of_def nth_append)
    have "conversion_at t (length tpre) = Some 2" unfolding t by (simp add: conversion_at_def slice_def nth_append)
    then have "?m (length pre) (length tpre) caps =
        (if ?seg = [] then None else ?m (length (pre @ ?seg)) (length tpre + 2) (caps @ [Cap_text ?seg]))"
      using t stop run seg by (subst match_loop.simps) (auto simp: nth_append)
    moreover have "?m (length (pre @ ?seg)) (length tpre + 2) caps'
        = map_option (\<lambda>(r, cs). (length path - length r, caps' @ cs)) (match_spec ps ?rest)" for caps'
      using Cons.IH [OF ok path t, of caps'] by simp
    ultimately show ?thesis
      using Text_piece by (cases "match_spec ps ?rest") (auto split: option.splits)
  qed
qed

definition bearer_token :: "string \<Rightarrow> string option" where
  "bearer_token v =
     (if 6 < length v \<and> map tolower (take 6 v) = ''bearer'' \<and> v ! 6 = SPC
      then Some (takeWhile (\<lambda>c. \<not> blank c) (dropWhile (\<lambda>c. c = SPC) (drop 6 v)))
      else None)"

lemma Bearer_eq:
  "map_option (text_at h) (AmmServer_APIRequestBearer (Some h))
     = Option.bind (first_some (header_value ''Authorization'') (split_on LF h)) bearer_token"
proof -
  note f = find_header_eq [of "''Authorization''" 0 h]
  show ?thesis
  proof (cases "find_header h ''Authorization'' 0")
    case None
    then show ?thesis
      using f by (simp add: AmmServer_APIRequestBearer_def AmmServer_APIRequestHeader_def)
  next
    case (Some r)
    obtain p n where r: "r = (p, n)" by (cases r)
    let ?v = "slice h p n"
    let ?at = "scan_while (\<lambda>c. c = SPC) ?v n 6"
    let ?e = "scan_while (\<lambda>c. \<not> blank c) ?v n ?at"
    have v: "first_some (header_value ''Authorization'') (split_on LF h) = Some ?v"
      and le: "p + n \<le> length h" and len: "length ?v = n"
      using f Some r by (auto simp: text_at_def slice_def)
    show ?thesis
    proof (cases "6 < n \<and> map tolower (take 6 ?v) = ''bearer'' \<and> ?v ! 6 = SPC")
      case True
      then have at: "6 \<le> ?at" "?at \<le> n" by (simp_all add: scan_facts)
      then have e: "?at \<le> ?e" "?e \<le> n" by (simp_all add: scan_facts)
      have d: "between ?v ?at n = dropWhile (\<lambda>c. c = SPC) (drop 6 ?v)"
        using True len by (simp add: between_dropWhile) (simp add: between_def)
      then have tok: "between ?v ?at ?e = takeWhile (\<lambda>c. \<not> blank c) (dropWhile (\<lambda>c. c = SPC) (drop 6 ?v))"
        using at len by (simp add: between_takeWhile)
      have sub: "slice h (p + a) (b - a) = between ?v a b" if "b \<le> n" for a b
        using that by (simp add: slice_def between_def drop_take min_def add.commute)
      show ?thesis
      proof (cases "?at < n")
        case lt: True
        then have "AmmServer_APIRequestBearer (Some h) = Some (p + ?at, ?e - ?at)"
          using Some r True by (auto simp: AmmServer_APIRequestBearer_def AmmServer_APIRequestHeader_def Let_def)
        then show ?thesis
          using v True len tok sub [OF e(2), of ?at] by (simp add: bearer_token_def text_at_def)
      next
        case False
        then have "AmmServer_APIRequestBearer (Some h) = Some (p + n, 0)"
          using Some r True at by (auto simp: AmmServer_APIRequestBearer_def AmmServer_APIRequestHeader_def Let_def)
        moreover have "dropWhile (\<lambda>c. c = SPC) (drop 6 ?v) = []"
          using d False at by (simp add: between_def)
        then have "bearer_token ?v = Some (takeWhile (\<lambda>c. \<not> blank c) [])"
          using True len unfolding bearer_token_def by (simp only: if_True) simp
        moreover have "text_at h (p + n, 0) = []" by (simp add: text_at_def slice_def)
        ultimately show ?thesis using v by simp
      qed
    next
      case False
      then have "AmmServer_APIRequestBearer (Some h) = None"
        using Some r by (auto simp: AmmServer_APIRequestBearer_def AmmServer_APIRequestHeader_def Let_def)
      then show ?thesis using v False len by (auto simp: bearer_token_def)
    qed
  qed
qed

section \<open>Properties\<close>

text \<open>
  a header is looked up line by line: the routine returns the trimmed text after the
  colon of the first line of the block that starts with the name (in any case) and a colon,
  it returns NULL when there is no such line, and what it returns lies inside the block.
\<close>

lemma api_header_first_line:
  assumes "NUL \<notin> set name"
  shows "map_option (text_at h) (AmmServer_APIRequestHeader (Some h) (Some name))
           = first_some (header_value name) (split_on LF h) \<and>
         (\<forall>p n. AmmServer_APIRequestHeader (Some h) (Some name) = Some (p, n) \<longrightarrow> p + n \<le> length h)"
  using find_header_eq [OF assms, of 0 h] by (simp add: AmmServer_APIRequestHeader_def)

lemma api_header_first_line_witness:
  "map_option (text_at (''Host: a'' @ crlf @ ''X-Id:  7 '' @ crlf))
     (AmmServer_APIRequestHeader (Some (''Host: a'' @ crlf @ ''X-Id:  7 '' @ crlf)) (Some ''x-id'')) = Some ''7''"
proof -
  have "split_on LF (''Host: a'' @ crlf @ ''X-Id:  7 '' @ crlf) = [''Host: a'' @ [CR], ''X-Id:  7 '' @ [CR], []]"
    using split_on_sep [of LF "''Host: a'' @ [CR]"] split_on_sep [of LF "''X-Id:  7 '' @ [CR]"] split_on_none [of LF "[]"]
    by simp
  with api_header_first_line [of "''x-id''" "''Host: a'' @ crlf @ ''X-Id:  7 '' @ crlf"] show ?thesis
    by (simp add: header_value_def trim_right_def tolower_def char_of_eq_iff)
qed

text \<open>
  a query parameter is looked up pair by pair: the routine returns what follows the
  equals sign in the first pair with that name, the empty text for a name without a value,
  and NULL only when no pair has the name; the value lies inside the query.
\<close>

lemma api_query_first_pair:
  assumes "name \<noteq> []"
  shows "map_option (text_at q) (AmmServer_APIRequestQueryParam (Some q) (Some name))
           = first_some (param_value name) (split_on (CHR ''&'') q) \<and>
         (\<forall>p n. AmmServer_APIRequestQueryParam (Some q) (Some name) = Some (p, n) \<longrightarrow> p + n \<le> length q)"
  using find_param_eq [OF assms, of 0 q] assms by (simp add: AmmServer_APIRequestQueryParam_def)

lemma api_query_first_pair_witness:
  "map_option (text_at ''debug&id=7&id=9'') (AmmServer_APIRequestQueryParam (Some ''debug&id=7&id=9'') (Some ''id''))
     = Some ''7''"
proof -
  have "split_on (CHR ''&'') ''debug&id=7&id=9'' = [''debug'', ''id=7'', ''id=9'']"
    using split_on_sep [of "CHR ''&''" "''debug''"] split_on_sep [of "CHR ''&''" "''id=7''"]
      split_on_none [of "CHR ''&''" "''id=9''"] by simp
  with api_query_first_pair [of "''id''" "''debug&id=7&id=9''"] show ?thesis
    by (simp add: param_value_def)
qed

text \<open>
  a template of literal characters and conversions matches exactly the paths that
  consist of its pieces, the whole path and nothing less: a conversion takes a whole
  segment, up to the character that follows it in the template, an integer one only takes
  decimal digits of a positive number, and what is handed out is what stands in the path.
\<close>

lemma api_match_iff:
  assumes "list_all piece_ok ps" and "NUL \<notin> set path"
  shows "AmmServer_APIRequestMatch (Some path) (Some (template_of ps)) = Some caps \<longleftrightarrow> path_matches ps path caps"
proof -
  have "match_loop path (template_of ps) 0 0 []
      = map_option (\<lambda>(r, cs). (length path - length r, cs)) (match_spec ps path)"
    using match_loop_pieces [OF assms(1), of path "[]" path "template_of ps" "[]" "[]"] by simp
  moreover have "c_at path (length path - length r) = NUL \<longleftrightarrow> r = []" if "match_spec ps path = Some (r, cs)" for r cs
  proof -
    have le: "length r \<le> length path" using match_spec_shorter [OF that] .
    have "path ! i \<noteq> NUL" if "i < length path" for i using assms(2) that by (metis nth_mem)
    with le show ?thesis by (cases r) (auto simp: c_at_def)
  qed
  ultimately show ?thesis
    unfolding match_spec_iff [symmetric] AmmServer_APIRequestMatch_def
    by (auto split: option.splits)
qed

lemma api_match_iff_witness:
  "AmmServer_APIRequestMatch (Some ''/p/42/like'')
     (Some (template_of [Lit (CHR ''/''), Lit (CHR ''p''), Lit (CHR ''/''), Int_piece, Lit (CHR ''/''), Text_piece]))
     = Some [Cap_int 42, Cap_text ''like'']"
proof (subst api_match_iff)
  have "path_matches [] [] []" by (rule done_matches)
  from text_matches [OF this, of "''like''"]
  have "path_matches [Text_piece] ''like'' [Cap_text ''like'']" by (simp add: stop_of_def c_at_def)
  from int_matches [OF lit_matches [OF this, of "CHR ''/''"], of "''42''" 42]
  have "path_matches [Int_piece, Lit (CHR ''/''), Text_piece] ''42/like'' [Cap_int 42, Cap_text ''like'']"
    by (simp add: stop_of_def c_at_def MatchPositiveInteger_def digits_value_def is_digit_def digit_val_def)
  from lit_matches [OF lit_matches [OF lit_matches [OF this]]]
  show "path_matches [Lit (CHR ''/''), Lit (CHR ''p''), Lit (CHR ''/''), Int_piece, Lit (CHR ''/''), Text_piece]
          ''/p/42/like'' [Cap_int 42, Cap_text ''like'']" .
qed (simp_all add: piece_ok_def)

text \<open>
  the bearer token is the text between the run of spaces after the scheme, read in any
  case, and the next blank of the first Authorization header; there is none when the header
  is absent, the scheme is another one or no space follows it.
\<close>

lemma api_bearer_text:
  "map_option (text_at h) (AmmServer_APIRequestBearer (Some h))
     = Option.bind (first_some (header_value ''Authorization'') (split_on LF h)) bearer_token"
  by (rule Bearer_eq)

text \<open>
  the scheme without a token is documented to give a non-NULL empty token, so that a
  malformed credential can be told from a missing one; the code returns NULL for it, because
  the header value it looks at has lost its trailing blanks.
\<close>

lemma api_bearer_no_token:
  assumes "first_some (header_value ''Authorization'') (split_on LF h) = Some v" and "map tolower v = ''bearer''"
  shows "AmmServer_APIRequestBearer (Some h) = None"
proof -
  have "length v = length ''bearer''" using assms(2) by (metis length_map)
  then have "bearer_token v = None" by (simp add: bearer_token_def)
  then show ?thesis using Bearer_eq [of h] assms(1) by simp
qed

lemma api_bearer_no_token_witness:
  "AmmServer_APIRequestBearer (Some (''Authorization: Bearer   '' @ crlf)) = None"
proof (rule api_bearer_no_token)
  have "split_on LF (''Authorization: Bearer   '' @ crlf) = [''Authorization: Bearer   '' @ [CR], []]"
    using split_on_sep [of LF "''Authorization: Bearer   '' @ [CR]"] split_on_none [of LF "[]"] by simp
  then show "first_some (header_value ''Authorization'') (split_on LF (''Authorization: Bearer   '' @ crlf)) = Some ''Bearer''"
    by (simp add: header_value_def trim_right_def tolower_def)
qed (simp add: tolower_def char_of_eq_iff)

end
