(* ===== verification/ApiFrame.thy ===== *)
theory ApiFrame
  imports ApiRequest
begin

text \<open>
  Where a request of API mode ends and what a connection keeps of an unfinished one
  (\<open>ApiProtocol_NextFrame\<close> and the \<open>ApiProtocol_Partial\<close> routines of
  \<open>src/AmmServerlib/threads/apiProtocol.c\<close>).  A receive buffer is the list of its \<open>used\<close>
  bytes.  Of a partial request the record has the bytes in use and the allocated size; the
  bytes past \<open>used\<close> are never read.
\<close>

section \<open>The code\<close>

definition API_MAX_REQUEST_SIZE :: nat where "API_MAX_REQUEST_SIZE = 32 * 1024"
definition API_INITIAL_BUFFER_SIZE :: nat where "API_INITIAL_BUFFER_SIZE = 2048"

definition MethodFromRequestLine :: "string \<Rightarrow> nat \<Rightarrow> request_type \<times> nat" where
  "MethodFromRequestLine line len =
     (let methodLength = (case memchr line (SPC) 0 len of None \<Rightarrow> 0 | Some space \<Rightarrow> space);
          m = take methodLength line
      in (if methodLength = 3 then (if m = ''GET'' then GET else if m = ''PUT'' then PUT else NONE)
          else if methodLength = 4 then (if m = ''POST'' then POST else if m = ''HEAD'' then HEAD else NONE)
          else if methodLength = 6 then (if m = ''DELETE'' then DELETE else NONE)
          else NONE,
          methodLength))"

function FindRequestHeaderEnd :: "string \<Rightarrow> nat \<Rightarrow> nat option" where
  "FindRequestHeaderEnd buf i =
     (if i + 1 < length buf then
        (if buf ! i = LF \<and> buf ! (i + 1) = LF then Some (i + 2)
         else if i + 3 < length buf \<and> buf ! i = CR \<and> buf ! (i + 1) = LF \<and> buf ! (i + 2) = CR \<and> buf ! (i + 3) = LF
         then Some (i + 4)
         else FindRequestHeaderEnd buf (i + 1))
      else None)"
  by pat_completeness auto
termination
  by (relation "measure (\<lambda>(buf, i). length buf - i)") auto

declare FindRequestHeaderEnd.simps [simp del]

text \<open>The digits of Content-Length: the status the request is refused with, or the length.\<close>

fun content_length :: "string \<Rightarrow> nat \<Rightarrow> nat + nat" where
  "content_length [] bodyLength = Inr bodyLength"
| "content_length (c # cs) bodyLength =
     (if \<not> is_digit c then Inl 400
      else (let bodyLength = bodyLength * 10 + digit_val c
            in if bodyLength > API_MAX_REQUEST_SIZE then Inl 413 else content_length cs bodyLength))"

record api_frame =
  headerEnd :: nat
  frameBodyLength :: nat
  totalLength :: nat
  frameKeepAlive :: bool

datatype frame_result = API_FRAME_INCOMPLETE | API_FRAME_READY api_frame | API_FRAME_REFUSED nat

text \<open>The header block of a request is its first \<open>hEnd\<close> bytes.\<close>

abbreviation frame_header :: "string \<Rightarrow> nat \<Rightarrow> string \<Rightarrow> (nat \<times> nat) option" where
  "frame_header request hEnd name \<equiv> AmmServer_APIRequestHeader (Some (take hEnd request)) (Some name)"

definition frame_refuses_encoding :: "string \<Rightarrow> nat \<Rightarrow> bool" where
  "frame_refuses_encoding request hEnd =
     (case frame_header request hEnd ''Transfer-Encoding'' of
        None \<Rightarrow> False
      | Some (p, n) \<Rightarrow> n > 0 \<and> \<not> strncaseeq (drop p request) ''identity'' 8)"

definition frame_content_length :: "string \<Rightarrow> nat \<Rightarrow> nat + nat" where
  "frame_content_length request hEnd =
     (case frame_header request hEnd ''Content-Length'' of
        None \<Rightarrow> Inr 0
      | Some (p, n) \<Rightarrow> content_length (slice request p n) 0)"

definition frame_keeps_alive :: "string \<Rightarrow> nat \<Rightarrow> bool" where
  "frame_keeps_alive request hEnd =
     (let keep = \<not> memmem (take hEnd request) ''HTTP/1.0''
      in case frame_header request hEnd ''Connection'' of
           None \<Rightarrow> keep
         | Some (p, n) \<Rightarrow>
             if n > 0 \<and> strncaseeq (drop p request) ''close'' 5 then False
             else if n > 0 \<and> strncaseeq (drop p request) ''keep-alive'' 10 then True
             else keep)"

definition ApiProtocol_NextFrame :: "string \<Rightarrow> nat \<Rightarrow> frame_result" where
  "ApiProtocol_NextFrame buf offset =
     (if offset \<ge> length buf then API_FRAME_INCOMPLETE
      else
        (let request = drop offset buf
         in case FindRequestHeaderEnd request 0 of
              None \<Rightarrow> API_FRAME_INCOMPLETE
            | Some hEnd \<Rightarrow>
                if frame_refuses_encoding request hEnd then API_FRAME_REFUSED 501
                else
                  (case frame_content_length request hEnd of
                     Inl status \<Rightarrow> API_FRAME_REFUSED status
                   | Inr bodyLength \<Rightarrow>
                       if length request < hEnd + bodyLength then API_FRAME_INCOMPLETE
                       else API_FRAME_READY \<lparr>headerEnd = hEnd, frameBodyLength = bodyLength,
                              totalLength = hEnd + bodyLength, frameKeepAlive = frame_keeps_alive request hEnd\<rparr>)))"

text \<open>Partial requests.  \<open>realloc_ok\<close> is whether \<open>realloc\<close> succeeds.\<close>

record api_partial =
  held :: string
  partialSize :: nat

abbreviation partialUsed :: "api_partial \<Rightarrow> nat" where "partialUsed p \<equiv> length (held p)"

function double_until :: "nat \<Rightarrow> nat \<Rightarrow> nat" where
  "double_until sz needed = (if sz < needed \<and> 0 < sz then double_until (sz * 2) needed else sz)"
  by pat_completeness auto
termination
  by (relation "measure (\<lambda>(sz, needed). needed - sz)") auto

declare double_until.simps [simp del]

definition EnsurePartialCapacity :: "bool \<Rightarrow> api_partial \<Rightarrow> nat \<Rightarrow> api_partial \<times> bool" where
  "EnsurePartialCapacity realloc_ok p needed =
     (if needed > API_MAX_REQUEST_SIZE then (p, False)
      else if partialSize p \<ge> needed then (p, True)
      else
        (let sz = double_until (if partialSize p > 0 then partialSize p else API_INITIAL_BUFFER_SIZE) needed;
             sz = (if sz > API_MAX_REQUEST_SIZE then API_MAX_REQUEST_SIZE else sz)
         in if realloc_ok then (p\<lparr>partialSize := sz\<rparr>, True) else (p, False)))"

definition ApiProtocol_PartialReserve :: "bool \<Rightarrow> api_partial \<Rightarrow> nat \<Rightarrow> api_partial \<times> bool" where
  "ApiProtocol_PartialReserve realloc_ok p needed = EnsurePartialCapacity realloc_ok p needed"

definition ApiProtocol_PartialFree :: "api_partial \<Rightarrow> api_partial" where
  "ApiProtocol_PartialFree p = \<lparr>held = [], partialSize = 0\<rparr>"

definition ApiProtocol_PartialKeepTail :: "bool \<Rightarrow> api_partial \<Rightarrow> string \<Rightarrow> nat \<Rightarrow> api_partial \<times> bool" where
  "ApiProtocol_PartialKeepTail realloc_ok p buf consumed =
     (let leftover = length buf - consumed
      in if leftover = 0 then (ApiProtocol_PartialFree p, True)
         else
           (case EnsurePartialCapacity realloc_ok p leftover of
              (p, False) \<Rightarrow> (p, False)
            | (p, True) \<Rightarrow> (p\<lparr>held := drop consumed buf\<rparr>, True)))"

text \<open>The sum of the two lengths is 32 bits wide; None is a write past the allocated bytes.\<close>

definition ApiProtocol_PartialAppend :: "bool \<Rightarrow> api_partial \<Rightarrow> string \<Rightarrow> (api_partial \<times> bool) option" where
  "ApiProtocol_PartialAppend realloc_ok p from =
     (if from = [] then Some (p, True)
      else
        (case EnsurePartialCapacity realloc_ok p ((partialUsed p + length from) mod 2 ^ 32) of
           (p, False) \<Rightarrow> Some (p, False)
         | (p, True) \<Rightarrow>
             if partialUsed p + length from > partialSize p + 1 then None
             else Some (p\<lparr>held := held p @ from\<rparr>, True)))"

section \<open>Framing\<close>

lemma FindRequestHeaderEnd_bounds:
  "FindRequestHeaderEnd buf i = Some e \<Longrightarrow> i + 2 \<le> e \<and> e \<le> length buf \<and> buf ! (e - 1) = LF"
proof (induction buf i rule: FindRequestHeaderEnd.induct)
  case (1 buf i)
  show ?case
  proof (cases "i + 1 < length buf")
    case True
    then show ?thesis
      using 1 by (subst (asm) (2) FindRequestHeaderEnd.simps) (auto split: if_splits simp: numeral_eq_Suc)
  next
    case False
    with "1.prems" show ?thesis by (subst (asm) FindRequestHeaderEnd.simps) simp
  qed
qed

lemma FindRequestHeaderEnd_extend:
  "FindRequestHeaderEnd buf i = Some e \<Longrightarrow> FindRequestHeaderEnd (buf @ rest) i = Some e"
proof (induction buf i rule: FindRequestHeaderEnd.induct)
  case (1 buf i)
  have lt: "i + 1 < length buf"
    using "1.prems" by (cases "i + 1 < length buf") (simp_all add: FindRequestHeaderEnd.simps [of buf i])
  let ?lf = "buf ! i = LF \<and> buf ! (i + 1) = LF"
  let ?crlf = "\<lambda>b. i + 3 < length b \<and> b ! i = CR \<and> b ! (i + 1) = LF \<and> b ! (i + 2) = CR \<and> b ! (i + 3) = LF"
  have two: "(buf @ rest) ! i = buf ! i" "(buf @ rest) ! (i + 1) = buf ! (i + 1)"
    using lt by (simp_all add: nth_append)
  show ?case
  proof (cases ?lf)
    case True
    then show ?thesis
      using "1.prems" lt two by (simp add: FindRequestHeaderEnd.simps [of buf i] FindRequestHeaderEnd.simps [of "buf @ rest" i])
  next
    case False
    note noLF = this
    show ?thesis
    proof (cases "?crlf buf")
      case True
      then have c: "?crlf (buf @ rest)" by (simp add: nth_append)
      have "e = i + 4"
        using "1.prems" lt noLF True by (subst (asm) FindRequestHeaderEnd.simps) auto
      with c lt show ?thesis by (subst FindRequestHeaderEnd.simps) simp
    next
      case no: False
      then have nxt: "FindRequestHeaderEnd buf (i + 1) = Some e"
        using "1.prems" lt noLF by (subst (asm) FindRequestHeaderEnd.simps) auto
      have "\<not> ?crlf (buf @ rest)"
      proof
        assume c: "?crlf (buf @ rest)"
        have "\<not> i + 3 < length buf" using c no by (auto simp: nth_append)
        moreover have "FindRequestHeaderEnd buf (i + 1) = None" if "\<not> i + 3 < length buf"
        proof -
          have "length buf = i + 2 \<or> length buf = i + 3" using lt that by auto
          then show ?thesis
          proof
            assume "length buf = i + 2"
            then show ?thesis by (simp add: FindRequestHeaderEnd.simps)
          next
            assume l: "length buf = i + 3"
            then have "buf ! (i + 2) = CR" "buf ! (i + 1) = LF" using c by (auto simp: nth_append)
            have "FindRequestHeaderEnd buf (i + 1 + 1) = None" using l by (subst FindRequestHeaderEnd.simps) simp
            then show ?thesis
              using l \<open>buf ! (i + 2) = CR\<close> by (subst FindRequestHeaderEnd.simps) (simp add: numeral_2_eq_2)
          qed
        qed
        ultimately show False using nxt by simp
      qed
      then have "FindRequestHeaderEnd (buf @ rest) i = FindRequestHeaderEnd (buf @ rest) (i + 1)"
        using lt noLF two by (subst FindRequestHeaderEnd.simps) auto
      then show ?thesis using "1.IH" [OF lt noLF no nxt] by simp
    qed
  qed
qed

text \<open>Comparing with a literal that has no LF never looks past the header block, which ends with one.\<close>

lemma strncaseeq_block:
  assumes "NUL \<notin> set lit" and "LF \<notin> set lit" and "p \<le> j" and "j < length s" and "s ! j = LF"
  shows "strncaseeq (drop p (s @ t)) lit (length lit) = strncaseeq (drop p s) lit (length lit)"
proof -
  have "length lit \<le> length (drop p s)" if "map tolower (take (length lit) (drop p (s @ t))) = map tolower lit"
  proof (rule ccontr)
    assume "\<not> length lit \<le> length (drop p s)"
    then have j: "j - p < length lit" using assms(3,4) by simp
    then have "tolower (take (length lit) (drop p (s @ t)) ! (j - p)) = tolower (lit ! (j - p))"
      using that assms(3,4) by (metis (no_types, lifting) length_map nth_map)
    moreover have "take (length lit) (drop p (s @ t)) ! (j - p) = LF"
      using j assms(3-5) by (simp add: nth_append del: take_append drop_append)
    ultimately have "tolower (lit ! (j - p)) = tolower LF" by simp
    then have "lit ! (j - p) = LF"
      by (auto simp: tolower_def char_eq_byte_val split: if_splits)
    then show False using assms(2) j by (metis nth_mem)
  qed
  moreover have "take (length lit) (drop p (s @ t)) = take (length lit) (drop p s)" if "length lit \<le> length (drop p s)"
    using that assms(3,4) by simp
  ultimately show ?thesis
    using assms(3,4) by (auto simp: strncaseeq_iff [OF assms(1)])
qed

lemma header_inside:
  assumes "AmmServer_APIRequestHeader (Some (take e request)) (Some name) = Some (p, n)" and "NUL \<notin> set name"
  shows "p + n \<le> e"
proof -
  have "p + n \<le> length (take e request)"
    using find_header_eq [OF assms(2), of 0 "take e request"] assms(1) by (simp add: AmmServer_APIRequestHeader_def)
  then show ?thesis by simp
qed

lemma NextFrame_extend:
  assumes "ApiProtocol_NextFrame buf offset = r" and "r \<noteq> API_FRAME_INCOMPLETE"
  shows "ApiProtocol_NextFrame (buf @ rest) offset = r"
proof -
  let ?req = "drop offset buf"
  have off: "offset < length buf"
    using assms by (cases "offset < length buf") (simp_all add: ApiProtocol_NextFrame_def)
  then have req: "drop offset (buf @ rest) = ?req @ rest" by simp
  obtain e where e: "FindRequestHeaderEnd ?req 0 = Some e"
    using assms off by (cases "FindRequestHeaderEnd ?req 0") (simp_all add: ApiProtocol_NextFrame_def Let_def)
  have b: "2 \<le> e" "e \<le> length ?req" "?req ! (e - 1) = LF"
    using FindRequestHeaderEnd_bounds [OF e] by simp_all
  have e': "FindRequestHeaderEnd (?req @ rest) 0 = Some e" using e by (rule FindRequestHeaderEnd_extend)
  have t: "take e (?req @ rest) = take e ?req" using b by simp
  let ?hdr = "\<lambda>name. AmmServer_APIRequestHeader (Some (take e ?req)) (Some name)"
  have cmp: "strncaseeq (drop p (?req @ rest)) lit k = strncaseeq (drop p ?req) lit k"
    if "?hdr name = Some (p, n)" and "0 < n" and "NUL \<notin> set name" and "NUL \<notin> set lit" and "LF \<notin> set lit"
      and "k = length lit" for name lit p n k
    unfolding that(6) using header_inside [OF that(1,3)] that(2) b
    by (intro strncaseeq_block [OF that(4,5), where j = "e - 1"]) auto
  have sl: "slice (?req @ rest) p n = slice ?req p n" if "?hdr name = Some (p, n)" and "NUL \<notin> set name" for name p n
    using header_inside [OF that] b by (simp add: slice_def)
  have "frame_refuses_encoding (?req @ rest) e = frame_refuses_encoding ?req e"
    using cmp [of "''Transfer-Encoding''" _ _ "''identity''" 8] t
    by (auto simp: frame_refuses_encoding_def split: option.splits simp del: drop_append)
  moreover have "frame_content_length (?req @ rest) e = frame_content_length ?req e"
    using sl [of "''Content-Length''"] t by (auto simp: frame_content_length_def split: option.splits)
  moreover have "frame_keeps_alive (?req @ rest) e = frame_keeps_alive ?req e"
  proof (cases "?hdr ''Connection''")
    case None
    then show ?thesis using t by (simp only: frame_keeps_alive_def Let_def option.case)
  next
    case (Some r)
    obtain p n where r: "r = (p, n)" by (cases r)
    have "n > 0 \<and> strncaseeq (drop p (?req @ rest)) ''close'' 5 \<longleftrightarrow> n > 0 \<and> strncaseeq (drop p ?req) ''close'' 5"
      and "n > 0 \<and> strncaseeq (drop p (?req @ rest)) ''keep-alive'' 10 \<longleftrightarrow> n > 0 \<and> strncaseeq (drop p ?req) ''keep-alive'' 10"
      using cmp [of "''Connection''" p n "''close''" 5] cmp [of "''Connection''" p n "''keep-alive''" 10] Some r by auto
    then show ?thesis using Some r t by (simp only: frame_keeps_alive_def Let_def option.case prod.case)
  qed
  ultimately show ?thesis
    using assms off e e' req
    by (auto simp: ApiProtocol_NextFrame_def Let_def split: if_splits sum.splits)
qed

text \<open>The length of the first complete request of a connection's bytes.\<close>

definition api_request_end :: "string \<Rightarrow> nat option" where
  "api_request_end s = (case ApiProtocol_NextFrame s 0 of API_FRAME_READY f \<Rightarrow> Some (totalLength f) | _ \<Rightarrow> None)"

lemma content_length_le:
  "content_length s n = Inr m \<Longrightarrow> n \<le> API_MAX_REQUEST_SIZE \<Longrightarrow> m \<le> API_MAX_REQUEST_SIZE"
  by (induction s n rule: content_length.induct) (auto simp: Let_def split: if_splits)

lemma NextFrame_ready:
  assumes "ApiProtocol_NextFrame buf offset = API_FRAME_READY f"
  shows "offset < length buf" and "FindRequestHeaderEnd (drop offset buf) 0 = Some (headerEnd f)"
    and "totalLength f = headerEnd f + frameBodyLength f" and "offset + totalLength f \<le> length buf"
    and "frameBodyLength f \<le> API_MAX_REQUEST_SIZE"
proof -
  show off: "offset < length buf"
    using assms by (cases "offset < length buf") (simp_all add: ApiProtocol_NextFrame_def)
  obtain e where e: "FindRequestHeaderEnd (drop offset buf) 0 = Some e"
    using assms off by (cases "FindRequestHeaderEnd (drop offset buf) 0") (simp_all add: ApiProtocol_NextFrame_def Let_def)
  obtain m where m: "frame_content_length (drop offset buf) e = Inr m" and f: "headerEnd f = e" "frameBodyLength f = m"
      "totalLength f = e + m" "e + m \<le> length (drop offset buf)"
    using assms off e unfolding ApiProtocol_NextFrame_def Let_def by (auto split: if_splits sum.splits)
  have "m \<le> API_MAX_REQUEST_SIZE"
    using m content_length_le [of _ 0 m] by (auto simp: frame_content_length_def split: option.splits)
  with e f off show "FindRequestHeaderEnd (drop offset buf) 0 = Some (headerEnd f)"
    "totalLength f = headerEnd f + frameBodyLength f" "offset + totalLength f \<le> length buf"
    "frameBodyLength f \<le> API_MAX_REQUEST_SIZE"
    by auto
qed

interpretation api: framing api_request_end
proof
  show "0 < n \<and> n \<le> length s" if "api_request_end s = Some n" for s n
    using that NextFrame_ready [of s 0] FindRequestHeaderEnd_bounds [of s 0]
    by (fastforce simp: api_request_end_def split: frame_result.splits)
  show "api_request_end (s @ t) = Some n" if "api_request_end s = Some n" for s t n
    using that NextFrame_extend [of s 0 _ t] by (auto simp: api_request_end_def split: frame_result.splits)
qed

section \<open>Partial requests\<close>

definition partial_ok :: "api_partial \<Rightarrow> bool" where
  "partial_ok p \<longleftrightarrow> partialUsed p \<le> partialSize p \<and> partialSize p \<le> API_MAX_REQUEST_SIZE"

lemma double_until_ge: "0 < sz \<Longrightarrow> needed \<le> double_until sz needed"
proof (induction sz needed rule: double_until.induct)
  case (1 sz needed)
  then show ?case by (subst double_until.simps) auto
qed

lemma EnsurePartialCapacity_ok:
  assumes "partial_ok p" and "EnsurePartialCapacity realloc_ok p needed = (q, ok)"
  shows "partial_ok q \<and> held q = held p \<and> (ok \<longrightarrow> needed \<le> partialSize q) \<and>
         (realloc_ok \<longrightarrow> ok = (needed \<le> API_MAX_REQUEST_SIZE))"
proof -
  let ?sz = "double_until (if partialSize p > 0 then partialSize p else API_INITIAL_BUFFER_SIZE) needed"
  have "needed \<le> ?sz" by (rule double_until_ge) (simp add: API_INITIAL_BUFFER_SIZE_def)
  then show ?thesis
    using assms by (auto simp: EnsurePartialCapacity_def partial_ok_def Let_def split: if_splits)
qed

text \<open>The shortest request: an empty line.\<close>

lemma empty_request_frame:
  "ApiProtocol_NextFrame [LF, LF] 0
     = API_FRAME_READY \<lparr>headerEnd = 2, frameBodyLength = 0, totalLength = 2, frameKeepAlive = True\<rparr>"
proof -
  have none: "find_header [LF, LF] name i = None" if "name \<noteq> []" for name i
    using that by (subst find_header.simps, subst find_header.simps, subst find_header.simps)
      (auto simp: line_end_def memchr_def scan_while.simps Let_def)
  show ?thesis
    by (simp add: ApiProtocol_NextFrame_def FindRequestHeaderEnd.simps frame_refuses_encoding_def
        frame_content_length_def frame_keeps_alive_def AmmServer_APIRequestHeader_def none numeral_eq_Suc)
qed

section \<open>Properties\<close>



text \<open>
  what the framing answers does not change when more bytes arrive: a request that is
  ready keeps its boundaries and its keep-alive decision, and a refusal stays the same
  refusal; only INCOMPLETE can change.
\<close>

lemma api_next_frame_stable:
  assumes "ApiProtocol_NextFrame buf offset = r" and "r \<noteq> API_FRAME_INCOMPLETE"
  shows "ApiProtocol_NextFrame (buf @ rest) offset = r"
  using assms by (rule NextFrame_extend)

lemma api_next_frame_stable_witness:
  "ApiProtocol_NextFrame (([LF, LF]) @ ''POST'') 0
     = API_FRAME_READY \<lparr>headerEnd = 2, frameBodyLength = 0, totalLength = 2, frameKeepAlive = True\<rparr>"
  by (rule api_next_frame_stable [OF empty_request_frame]) simp

text \<open>
  a ready frame lies inside the received bytes, its header block ends with the LF of
  the empty line, its body is at most the 32 KiB the server accepts and the next request
  starts right after it.
\<close>

lemma api_frame_inside:
  assumes "ApiProtocol_NextFrame buf offset = API_FRAME_READY f"
  shows "offset + totalLength f \<le> length buf \<and> totalLength f = headerEnd f + frameBodyLength f \<and>
         2 \<le> headerEnd f \<and> buf ! (offset + headerEnd f - 1) = LF \<and> frameBodyLength f \<le> 32 * 1024"
proof -
  have "2 \<le> headerEnd f \<and> headerEnd f \<le> length (drop offset buf) \<and> drop offset buf ! (headerEnd f - 1) = LF"
    using FindRequestHeaderEnd_bounds [OF NextFrame_ready(2) [OF assms]] by simp
  then have "buf ! (offset + headerEnd f - 1) = LF" and "2 \<le> headerEnd f"
    by (auto simp: add_diff_assoc)
  then show ?thesis
    using NextFrame_ready [OF assms] by (simp add: API_MAX_REQUEST_SIZE_def)
qed

lemma api_frame_inside_witness:
  "0 + totalLength \<lparr>headerEnd = 2, frameBodyLength = 0, totalLength = 2, frameKeepAlive = True\<rparr> \<le> length [LF, LF]"
  using api_frame_inside [OF empty_request_frame] by simp

text \<open>
  the bytes a connection holds never exceed what is allocated for them, and what is
  allocated never exceeds 32 KiB: appending stores all of the new bytes after the old ones
  or changes nothing of them, and with memory available it fails exactly when the request
  would grow past the limit.
\<close>

lemma api_partial_append:
  assumes "partial_ok p" and "length from < 2 ^ 32 - 2 ^ 16"
  shows "\<exists>q ok. ApiProtocol_PartialAppend realloc_ok p from = Some (q, ok) \<and> partial_ok q \<and>
           held q = (if ok then held p @ from else held p) \<and>
           (realloc_ok \<and> from \<noteq> [] \<longrightarrow> ok = (partialUsed p + length from \<le> 32 * 1024))"
proof -
  let ?n = "partialUsed p + length from"
  have n: "?n mod 2 ^ 32 = ?n"
    using assms by (simp add: partial_ok_def API_MAX_REQUEST_SIZE_def)
  obtain q ok where q: "EnsurePartialCapacity realloc_ok p ?n = (q, ok)" by fastforce
  note e = EnsurePartialCapacity_ok [OF assms(1) q]
  consider "from = []" | "from \<noteq> []" "ok" | "from \<noteq> []" "\<not> ok" by blast
  then show ?thesis
  proof cases
    case 1
    then show ?thesis using assms(1) by (auto simp: ApiProtocol_PartialAppend_def)
  next
    case 2
    then have "ApiProtocol_PartialAppend realloc_ok p from = Some (q\<lparr>held := held p @ from\<rparr>, True)"
      using e q unfolding ApiProtocol_PartialAppend_def n by simp
    then show ?thesis using e 2 by (auto simp: partial_ok_def API_MAX_REQUEST_SIZE_def)
  next
    case 3
    then have "ApiProtocol_PartialAppend realloc_ok p from = Some (q, False)"
      using q unfolding ApiProtocol_PartialAppend_def n by simp
    then show ?thesis using e 3 by (auto simp: API_MAX_REQUEST_SIZE_def)
  qed
qed

lemma api_partial_append_witness:
  "\<exists>q. ApiProtocol_PartialAppend True \<lparr>held = ''GE'', partialSize = 2048\<rparr> ''T'' = Some (q, True) \<and> held q = ''GET''"
  using api_partial_append [of "\<lparr>held = ''GE'', partialSize = 2048\<rparr>" "''T''" True]
  by (auto simp: partial_ok_def API_MAX_REQUEST_SIZE_def)

end
