(* ===== verification/HttpTools.thy ===== *)
theory HttpTools
  imports Prelude
begin

text \<open>Small pure functions of \<open>src/AmmServerlib/tools/http_tools.c\<close>.\<close>

definition reason_table :: "(nat \<times> string) list" where
  "reason_table =
     [(200, ''OK''), (201, ''Created''), (202, ''Accepted''), (204, ''No Content''), (206, ''Partial Content''),
      (301, ''Moved Permanently''), (302, ''Found''), (304, ''Not Modified''),
      (400, ''Bad Request''), (401, ''Unauthorized''), (403, ''Forbidden''), (404, ''Not Found''),
      (405, ''Method Not Allowed''), (408, ''Request Timeout''), (409, ''Conflict''),
      (412, ''Precondition Failed''), (413, ''Content Too Large''), (415, ''Unsupported Media Type''),
      (416, ''Range Not Satisfiable''), (417, ''Expectation Failed''), (422, ''Unprocessable Content''),
      (429, ''Too Many Requests''), (500, ''Internal Server Error''), (501, ''Not Implemented''),
      (503, ''Service Unavailable'')]"

definition GetHTTPReasonPhrase :: "nat \<Rightarrow> string" where
  "GetHTTPReasonPhrase statusCode =
     (case map_of reason_table statusCode of
        Some reason \<Rightarrow> reason
      | None \<Rightarrow>
          if statusCode < 200 then ''Informational''
          else if statusCode < 300 then ''OK''
          else if statusCode < 400 then ''Redirection''
          else if statusCode < 500 then ''Bad Request''
          else ''Internal Server Error'')"

lemma reason_no_eol: "LF \<notin> set (GetHTTPReasonPhrase n)"
proof -
  have "\<forall>(c, r)\<in>set reason_table. LF \<notin> set r" by (simp add: reason_table_def)
  then show ?thesis
    by (auto simp: GetHTTPReasonPhrase_def split: option.splits dest!: map_of_SomeD)
qed

end
