(* ===== verification/ApiResponse.thy ===== *)
theory ApiResponse
  imports ApiFrame JsonEscape HttpTools
begin

text \<open>
  Serving one request of API mode: the request a handler is given
  (\<open>ApiProtocol_Prepare\<close>), the routines it writes its response with
  (\<open>AmmServer_APIResponse...\<close>) and the bytes that leave
  (\<open>ApiProtocol_Finish\<close>, \<open>ApiProtocol_Serve\<close>), of
  \<open>src/AmmServerlib/threads/apiProtocol.c\<close>.  The body of a response is the list of its
  \<open>bodyLength\<close> bytes, None where the pointer is NULL; \<open>sse2\<close> says how the JSON escaping
  was compiled.  The response buffer has \<open>API_RESPONSE_HEADER_RESERVE\<close> bytes in front of
  the body, where the header is placed, so that the response is one block of bytes.
\<close>

section \<open>Writing a response\<close>

definition API_RESPONSE_HEADER_RESERVE :: nat where "API_RESPONSE_HEADER_RESERVE = 256"
definition API_DEFAULT_MAX_RESPONSE_SIZE :: nat where "API_DEFAULT_MAX_RESPONSE_SIZE = 64 * 1024"

record api_response =
  statusCode :: nat
  contentType :: "string option"
  extraHeaders :: "string option"
  respBody :: "string option"
  maxBodyLength :: nat
  overflowed :: bool

abbreviation respBytes :: "api_response \<Rightarrow> string" where
  "respBytes res \<equiv> (case respBody res of None \<Rightarrow> [] | Some b \<Rightarrow> b)"

text \<open>The size and whether there is memory for the buffer.\<close>

definition ApiProtocol_AllocateResponseBuffer :: "bool \<Rightarrow> nat \<Rightarrow> nat option" where
  "ApiProtocol_AllocateResponseBuffer malloc_ok apiMaxResponseSize =
     (if malloc_ok
      then Some (if apiMaxResponseSize = 0 then API_DEFAULT_MAX_RESPONSE_SIZE else apiMaxResponseSize)
      else None)"

definition AmmServer_APIResponseReset :: "api_response \<Rightarrow> nat \<Rightarrow> string option \<Rightarrow> api_response" where
  "AmmServer_APIResponseReset res status ctype =
     res\<lparr>statusCode := status, contentType := (if ctype \<noteq> None then ctype else contentType res),
         extraHeaders := None, respBody := map_option (\<lambda>_. []) (respBody res), overflowed := False\<rparr>"

definition AmmServer_APIResponseWrite :: "api_response \<Rightarrow> string option \<Rightarrow> nat \<Rightarrow> api_response \<times> bool" where
  "AmmServer_APIResponseWrite res txt len =
     (if overflowed res then (res, False)
      else if len = 0 then (res, True)
      else
        (case (txt, respBody res) of
           (Some t, Some b) \<Rightarrow>
             if (length b + len) mod 2 ^ 32 > maxBodyLength res then (res\<lparr>overflowed := True\<rparr>, False)
             else (res\<lparr>respBody := Some (b @ take len t)\<rparr>, True)
         | _ \<Rightarrow> (res\<lparr>overflowed := True\<rparr>, False)))"

definition AmmServer_APIResponseWriteText :: "api_response \<Rightarrow> string option \<Rightarrow> api_response \<times> bool" where
  "AmmServer_APIResponseWriteText res txt =
     (case txt of None \<Rightarrow> (res, True) | Some t \<Rightarrow> AmmServer_APIResponseWrite res (Some t) (length t))"

text \<open>The digits are written from the last one to the first.\<close>

function digit_loop :: "nat \<Rightarrow> string \<Rightarrow> string" where
  "digit_loop magnitude digits =
     (if magnitude > 0 then digit_loop (magnitude div 10) (char_of (48 + magnitude mod 10) # digits) else digits)"
  by pat_completeness auto
termination
  by (relation "measure fst") auto

declare digit_loop.simps [simp del]

definition AmmServer_APIResponseWriteInteger :: "api_response \<Rightarrow> int \<Rightarrow> api_response \<times> bool" where
  "AmmServer_APIResponseWriteInteger res v =
     (let negative = v < 0;
          magnitude = (if negative then nat (- (v + 1)) + 1 else nat v);
          digits = digit_loop magnitude (if magnitude = 0 then ''0'' else []);
          digits = (if negative then CHR ''-'' # digits else digits)
      in AmmServer_APIResponseWrite res (Some digits) (length digits))"

definition AmmServer_APIResponseWriteJSONString ::
    "bool \<Rightarrow> api_response \<Rightarrow> string option \<Rightarrow> nat \<Rightarrow> api_response \<times> bool" where
  "AmmServer_APIResponseWriteJSONString sse2 res txt len =
     (if overflowed res then (res, False)
      else if len = 0 then (res, True)
      else
        (case (txt, respBody res) of
           (Some t, Some b) \<Rightarrow>
             (case AmmServer_JSONEscape sse2 (take len t)
                     (nat ((int (maxBodyLength res) - int (length b)) mod 2 ^ 32)) of
                (written, escaped) \<Rightarrow>
                  if written = 0 then (res\<lparr>overflowed := True\<rparr>, False)
                  else (res\<lparr>respBody := Some (b @ take written escaped)\<rparr>, True))
         | _ \<Rightarrow> (res\<lparr>overflowed := True\<rparr>, False)))"

definition AmmServer_APIResponseOverflowed :: "api_response option \<Rightarrow> bool" where
  "AmmServer_APIResponseOverflowed res = (case res of None \<Rightarrow> True | Some r \<Rightarrow> overflowed r)"

section \<open>Serving a request\<close>

text \<open>
  \<open>ApiProtocol_Prepare\<close> on the bytes of a framed request: the bytes after the delimiters of
  the request line have been overwritten with NUL, the request and the empty response; None
  is the answer 400.
\<close>

definition ApiProtocol_Prepare :: "string \<Rightarrow> api_frame \<Rightarrow> nat \<Rightarrow> (string \<times> api_request \<times> api_response) option" where
  "ApiProtocol_Prepare request frame bodySize =
     (case memchr request LF 0 (headerEnd frame) of
        None \<Rightarrow> None
      | Some lineEnd \<Rightarrow>
          (case MethodFromRequestLine request lineEnd of (meth, methodLength) \<Rightarrow>
            (let target = (if methodLength > 0 then methodLength + 1 else 0)
             in if target > lineEnd then None
                else
                  (let targetEnd = (case memchr request SPC target lineEnd of
                                      Some e \<Rightarrow> e
                                    | None \<Rightarrow> scan_back (\<lambda>c. c = CR \<or> c = SPC) request target lineEnd);
                       queryStart = memchr request (CHR ''?'') target targetEnd;
                       request = request[targetEnd := NUL];
                       request = (case queryStart of None \<Rightarrow> request | Some q \<Rightarrow> request[q := NUL]);
                       headersStart = lineEnd + 1;
                       headersEnd = (if headerEnd frame > headersStart
                                     then scan_back (\<lambda>c. c = LF \<or> c = CR) request headersStart (headerEnd frame)
                                     else headersStart)
                   in Some (request,
                        \<lparr>rq_method = meth,
                         rq_path = takeWhile (\<lambda>c. c \<noteq> NUL) (drop target request),
                         rq_query = map_option (\<lambda>q. between request (q + 1) targetEnd) queryStart,
                         rq_headers = Some (between request headersStart headersEnd),
                         rq_body = (if frameBodyLength frame > 0
                                    then Some (slice request (headerEnd frame) (frameBodyLength frame)) else None)\<rparr>,
                        \<lparr>statusCode = 200, contentType = Some ''application/json'', extraHeaders = None,
                         respBody = Some [], maxBodyLength = bodySize, overflowed = False\<rparr>)))))"

text \<open>
  Building the header: None is the state in which a piece did not fit and
  \<open>*length==API_RESPONSE_HEADER_RESERVE\<close>, which no later piece leaves.
\<close>

definition ApiHeaderPut :: "string option \<Rightarrow> string \<Rightarrow> string option" where
  "ApiHeaderPut header piece =
     (case header of
        None \<Rightarrow> None
      | Some h \<Rightarrow> if length h + length piece \<ge> API_RESPONSE_HEADER_RESERVE then None else Some (h @ piece))"

definition ApiHeaderUnsigned :: "nat \<Rightarrow> string" where
  "ApiHeaderUnsigned v = digit_loop (v div 10) [char_of (48 + v mod 10)]"

definition response_pieces :: "bool \<Rightarrow> api_response \<Rightarrow> nat \<Rightarrow> string list" where
  "response_pieces keepAlive res bodyLength =
     [''HTTP/1.1 '', ApiHeaderUnsigned (statusCode res), '' '', GetHTTPReasonPhrase (statusCode res),
      crlf @ ''Content-Type: '', (case contentType res of None \<Rightarrow> ''text/plain'' | Some t \<Rightarrow> t),
      crlf @ ''Content-Length: '', ApiHeaderUnsigned bodyLength, crlf,
      (case extraHeaders res of None \<Rightarrow> [] | Some h \<Rightarrow> h)] @
     (if keepAlive then [] else [''Connection: close'' @ crlf]) @ [crlf]"

text \<open>The bytes of the response; None is the answer 500.\<close>

definition ApiProtocol_Finish :: "api_frame \<Rightarrow> nat \<Rightarrow> api_request \<Rightarrow> api_response \<Rightarrow> string option" where
  "ApiProtocol_Finish frame bodySize rqst res =
     (let body = (if length (respBytes res) > bodySize then take bodySize (respBytes res) else respBytes res)
      in case foldl ApiHeaderPut (Some []) (response_pieces (frameKeepAlive frame) res (length body)) of
           None \<Rightarrow> None
         | Some header \<Rightarrow>
             if header = [] \<or> length header \<ge> API_RESPONSE_HEADER_RESERVE then None
             else Some (header @ (if rq_method rqst = HEAD then [] else body)))"

text \<open>The handler is a parameter.\<close>

definition ApiProtocol_Serve ::
    "(api_request \<Rightarrow> api_response \<Rightarrow> api_response) \<Rightarrow> string \<Rightarrow> api_frame \<Rightarrow> nat \<Rightarrow> nat + string" where
  "ApiProtocol_Serve apiHandler request frame bodySize =
     (case ApiProtocol_Prepare request frame bodySize of
        None \<Rightarrow> Inl 400
      | Some (_, rqst, res) \<Rightarrow>
          (case ApiProtocol_Finish frame bodySize rqst (apiHandler rqst res) of
             None \<Rightarrow> Inl 500
           | Some response \<Rightarrow> Inr response))"

text \<open>What \<open>snprintf\<close> stores (without the final NUL) and returns.\<close>

definition ApiProtocol_StatusOnlyResponse :: "nat \<Rightarrow> nat \<Rightarrow> string \<times> nat" where
  "ApiProtocol_StatusOnlyResponse status intoSize =
     (let txt = ''HTTP/1.1 '' @ ApiHeaderUnsigned status @ '' '' @ GetHTTPReasonPhrase status @ crlf @
                ''Content-Length: 0'' @ crlf @ ''Connection: close'' @ crlf @ crlf
      in (take (intoSize - 1) txt, length txt))"

section \<open>Decimal numbers\<close>

lemma digits_value_append: "digits_value (xs @ ys) = digits_value xs * 10 ^ length ys + digits_value ys"
proof (induction ys rule: rev_induct)
  case (snoc y ys)
  then show ?case by (simp add: digits_value_def algebra_simps)
qed (simp add: digits_value_def)

lemma digit_char:
  fixes n :: nat
  assumes "n < 10"
  shows "is_digit (char_of (48 + n))" and "digit_val (char_of (48 + n)) = n"
  using assms by (simp_all add: is_digit_def digit_val_def)

lemma digit_loop_value:
  assumes "list_all is_digit acc"
  shows "list_all is_digit (digit_loop n acc) \<and>
         digits_value (digit_loop n acc) = int n * 10 ^ length acc + digits_value acc"
  using assms
proof (induction n acc rule: digit_loop.induct)
  case (1 n acc)
  show ?case
  proof (cases "n > 0")
    case True
    let ?c = "char_of (48 + n mod 10)"
    have c: "is_digit ?c" "digit_val ?c = n mod 10" by (simp_all add: digit_char)
    have "digits_value (?c # acc) = int (n mod 10) * 10 ^ length acc + digits_value acc"
      using digits_value_append [of "[?c]" acc] c by (simp add: digits_value_def)
    moreover have "int n = 10 * int (n div 10) + int (n mod 10)" by presburger
    ultimately show ?thesis
      using 1 True c by (subst (1 2) digit_loop.simps) (simp add: algebra_simps)
  next
    case False
    then show ?thesis using "1.prems" by (subst (1 2) digit_loop.simps) simp
  qed
qed

lemma digit_loop_length: "n < 10 ^ k \<Longrightarrow> length (digit_loop n acc) \<le> k + length acc"
proof (induction k arbitrary: n acc)
  case 0
  then show ?case by (simp add: digit_loop.simps)
next
  case (Suc k)
  then have "n div 10 < 10 ^ k" by auto
  from Suc.IH [OF this, of "char_of (48 + n mod 10) # acc"] show ?case
    by (subst digit_loop.simps) simp
qed

definition integer_text :: "int \<Rightarrow> string" where
  "integer_text v =
     (if v < 0 then CHR ''-'' # digit_loop (nat (- v)) []
      else digit_loop (nat v) (if v = 0 then ''0'' else []))"

lemma WriteInteger_eq:
  "AmmServer_APIResponseWriteInteger res v = AmmServer_APIResponseWrite res (Some (integer_text v)) (length (integer_text v))"
proof -
  have "nat (- (v + 1)) + 1 = nat (- v)" if "v < 0" using that by simp
  then show ?thesis by (simp add: AmmServer_APIResponseWriteInteger_def integer_text_def Let_def)
qed

lemma integer_text_match:
  assumes "0 < v" and "v < 10 ^ 18"
  shows "MatchPositiveInteger (integer_text v) = Some v"
proof -
  let ?d = "digit_loop (nat v) []"
  have "nat v < 10 ^ 18" using assms by (simp add: nat_less_iff)
  then have "length ?d \<le> 18" using digit_loop_length [of "nat v" 18 "[]"] by simp
  moreover have d: "list_all is_digit ?d" "digits_value ?d = v"
    using digit_loop_value [of "[]" "nat v"] assms(1) by (simp_all add: digits_value_def)
  moreover have "?d \<noteq> []" using d(2) assms(1) by (auto simp: digits_value_def)
  ultimately show ?thesis using assms by (simp add: MatchPositiveInteger_def integer_text_def)
qed

section \<open>Sequences of writes\<close>

datatype write_op = W_text string | W_int int | W_json string

fun write_step :: "bool \<Rightarrow> api_response \<Rightarrow> write_op \<Rightarrow> api_response" where
  "write_step sse2 res (W_text t) = fst (AmmServer_APIResponseWriteText res (Some t))"
| "write_step sse2 res (W_int v) = fst (AmmServer_APIResponseWriteInteger res v)"
| "write_step sse2 res (W_json t) = fst (AmmServer_APIResponseWriteJSONString sse2 res (Some t) (length t))"

fun rendered :: "write_op \<Rightarrow> string" where
  "rendered (W_text t) = t"
| "rendered (W_int v) = integer_text v"
| "rendered (W_json t) = json_text t"

lemma Write_step:
  assumes "respBody res = Some b" and "\<not> overflowed res" and "length b \<le> maxBodyLength res"
    and "maxBodyLength res + length t < 2 ^ 32"
  shows "fst (AmmServer_APIResponseWrite res (Some t) (length t))
           = (if length b + length t \<le> maxBodyLength res then res\<lparr>respBody := Some (b @ t)\<rparr> else res\<lparr>overflowed := True\<rparr>)"
proof -
  have "(length b + length t) mod 2 ^ 32 = length b + length t" using assms(3,4) by simp
  moreover have "res\<lparr>respBody := Some b\<rparr> = res" using assms(1) by (cases res) simp
  ultimately show ?thesis using assms by (auto simp: AmmServer_APIResponseWrite_def)
qed

lemma JSON_step:
  assumes "respBody res = Some b" and "\<not> overflowed res" and "length b \<le> maxBodyLength res"
    and "maxBodyLength res + length t + 16 < 2 ^ 32"
  shows "fst (AmmServer_APIResponseWriteJSONString sse2 res (Some t) (length t))
           = (if length b + length (json_text t) \<le> maxBodyLength res then res\<lparr>respBody := Some (b @ json_text t)\<rparr>
              else res\<lparr>overflowed := True\<rparr>)"
proof (cases "t = []")
  case True
  have "res\<lparr>respBody := Some b\<rparr> = res" using assms(1) by (cases res) simp
  then show ?thesis using True assms by (simp add: AmmServer_APIResponseWriteJSONString_def)
next
  case False
  let ?room = "maxBodyLength res - length b"
  have room: "nat ((int (maxBodyLength res) - int (length b)) mod 2 ^ 32) = ?room"
    using assms(3,4) by simp
  have r: "?room + length t + 16 < 2 ^ 32" using assms(4) by simp
  have pos: "0 < length (json_text t)" using False json_text_length [of t] by (auto simp del: json_text.simps)
  obtain n e where ne: "AmmServer_JSONEscape sse2 t ?room = (n, e)" by fastforce
  have n: "n = (if length (json_text t) \<le> ?room then length (json_text t) else 0)"
    and e: "length (json_text t) \<le> ?room \<Longrightarrow> e = json_text t"
    using AmmServer_JSONEscape_text [OF r, of sse2] ne by simp_all
  have "AmmServer_APIResponseWriteJSONString sse2 res (Some t) (length t)
      = (if n = 0 then (res\<lparr>overflowed := True\<rparr>, False) else (res\<lparr>respBody := Some (b @ take n e)\<rparr>, True))"
    using assms(1,2) False unfolding AmmServer_APIResponseWriteJSONString_def
    by (simp only: room ne take_all order_refl option.case prod.case if_False length_0_conv)
  then show ?thesis using pos n e assms(3) by auto
qed

lemma write_step_eq:
  assumes "respBody res = Some b" and "\<not> overflowed res" and "length b \<le> maxBodyLength res"
    and "\<And>t. oper = W_json t \<Longrightarrow> maxBodyLength res + length t + 16 < 2 ^ 32"
    and "maxBodyLength res + length (rendered oper) < 2 ^ 32"
  shows "write_step sse2 res oper
           = (if length b + length (rendered oper) \<le> maxBodyLength res
              then res\<lparr>respBody := Some (b @ rendered oper)\<rparr> else res\<lparr>overflowed := True\<rparr>)"
proof (cases oper)
  case (W_text t)
  then show ?thesis using Write_step [OF assms(1-3), of t] assms(5) by (simp add: AmmServer_APIResponseWriteText_def)
next
  case (W_int v)
  then show ?thesis using Write_step [OF assms(1-3), of "integer_text v"] assms(5) by (simp add: WriteInteger_eq)
next
  case (W_json t)
  then show ?thesis using JSON_step [OF assms(1-3) assms(4) [OF W_json], of sse2] by simp
qed

lemma write_step_overflowed: "overflowed res \<Longrightarrow> write_step sse2 res oper = res"
  by (cases oper)
    (simp_all add: AmmServer_APIResponseWriteText_def AmmServer_APIResponseWriteInteger_def Let_def
      AmmServer_APIResponseWrite_def AmmServer_APIResponseWriteJSONString_def)

lemma write_steps_overflowed: "overflowed res \<Longrightarrow> foldl (write_step sse2) res ops = res"
  by (induction ops) (simp_all add: write_step_overflowed)

lemma write_steps_eq:
  assumes "respBody res = Some b" and "\<not> overflowed res" and "length b \<le> maxBodyLength res"
    and "\<forall>oper\<in>set ops. maxBodyLength res + length (rendered oper) + 16 < 2 ^ 32"
  shows "(let r = foldl (write_step sse2) res ops; out = b @ concat (map rendered ops)
          in if length out \<le> maxBodyLength res
             then \<not> overflowed r \<and> respBody r = Some out
             else overflowed r \<and> (\<exists>k. respBody r = Some (b @ concat (map rendered (take k ops))) \<and> length (respBytes r) \<le> maxBodyLength res))"
  using assms
proof (induction ops arbitrary: res b)
  case Nil
  then show ?case by simp
next
  case (Cons oper ops)
  have js: "maxBodyLength res + length t + 16 < 2 ^ 32" if "oper = W_json t" for t
    using Cons.prems(4) that json_text_length [of t] by simp
  have step: "write_step sse2 res oper
           = (if length b + length (rendered oper) \<le> maxBodyLength res
              then res\<lparr>respBody := Some (b @ rendered oper)\<rparr> else res\<lparr>overflowed := True\<rparr>)"
    using js Cons.prems(4) by (intro write_step_eq [OF Cons.prems(1-3)]) simp_all
  show ?case
  proof (cases "length b + length (rendered oper) \<le> maxBodyLength res")
    case True
    let ?r = "res\<lparr>respBody := Some (b @ rendered oper)\<rparr>"
    have IH: "(let r = foldl (write_step sse2) ?r ops; out = (b @ rendered oper) @ concat (map rendered ops)
          in if length out \<le> maxBodyLength ?r
             then \<not> overflowed r \<and> respBody r = Some out
             else overflowed r \<and> (\<exists>k. respBody r = Some ((b @ rendered oper) @ concat (map rendered (take k ops))) \<and> length (respBytes r) \<le> maxBodyLength ?r))"
      using Cons.prems True by (intro Cons.IH) simp_all
    show ?thesis
      using IH step True by (auto simp: Let_def split: if_splits intro: exI [of _ "Suc _"])
  next
    case False
    then show ?thesis
      using step Cons.prems write_steps_overflowed [of "res\<lparr>overflowed := True\<rparr>" sse2 ops]
      by (auto intro: exI [of _ 0])
  qed
qed

section \<open>The parts of a request and of a response\<close>

lemma MethodFromRequestLine_word:
  assumes "SPC \<notin> set m" and "length m < len"
  shows "snd (MethodFromRequestLine (m @ SPC # rest) len) = length m"
    and "fst (MethodFromRequestLine (m @ SPC # rest) len) =
      (if m = ''GET'' then GET else if m = ''PUT'' then PUT else if m = ''POST'' then POST
       else if m = ''HEAD'' then HEAD else if m = ''DELETE'' then DELETE else NONE)"
  using memchr_run [OF assms(1), of "[]" len rest] assms(2)
  by (auto simp: MethodFromRequestLine_def Let_def)

lemma Header_pieces:
  "foldl ApiHeaderPut (Some h) ps
     = (if ps = [] \<or> length (h @ concat ps) < API_RESPONSE_HEADER_RESERVE then Some (h @ concat ps) else None)"
proof (induction ps arbitrary: h)
  case (Cons p ps)
  have none: "foldl ApiHeaderPut None qs = None" for qs by (induction qs) (simp_all add: ApiHeaderPut_def)
  show ?case
  proof (cases "length (h @ p) < API_RESPONSE_HEADER_RESERVE")
    case True
    then show ?thesis using Cons.IH [of "h @ p"] by (simp add: ApiHeaderPut_def)
  next
    case False
    then have "ApiHeaderPut (Some h) p = None" by (simp add: ApiHeaderPut_def)
    then show ?thesis using False none [of ps] by simp
  qed
qed simp

lemma Finish_eq:
  "ApiProtocol_Finish frame bodySize rqst res =
     (let body = take bodySize (respBytes res);
          header = concat (response_pieces (frameKeepAlive frame) res (length body))
      in if length header < API_RESPONSE_HEADER_RESERVE
         then Some (header @ (if rq_method rqst = HEAD then [] else body)) else None)"
proof -
  let ?ps = "response_pieces (frameKeepAlive frame) res"
  have body: "(if length (respBytes res) > bodySize then take bodySize (respBytes res) else respBytes res)
      = take bodySize (respBytes res)" by simp
  have "?ps n \<noteq> []" and "concat (?ps n) \<noteq> []" for n
    by (simp_all add: response_pieces_def)
  then show ?thesis
    unfolding ApiProtocol_Finish_def body Let_def Header_pieces by auto
qed

lemma ApiHeaderUnsigned_digits:
  shows "list_all is_digit (ApiHeaderUnsigned n)" and "digits_value (ApiHeaderUnsigned n) = int n"
proof -
  have "list_all is_digit [char_of (48 + n mod 10)]" using digit_char [of "n mod 10"] by simp
  moreover have "digits_value [char_of (48 + n mod 10)] = int (n mod 10)"
    using digit_char [of "n mod 10"] by (simp add: digits_value_def)
  moreover have "int n = 10 * int (n div 10) + int (n mod 10)" by presburger
  ultimately show "list_all is_digit (ApiHeaderUnsigned n)" "digits_value (ApiHeaderUnsigned n) = int n"
    using digit_loop_value [of "[char_of (48 + n mod 10)]" "n div 10"] by (simp_all add: ApiHeaderUnsigned_def)
qed

lemma digits_not_blank: "list_all is_digit s \<Longrightarrow> c \<in> set s \<Longrightarrow> c \<noteq> LF \<and> \<not> cr_blank c"
  by (auto simp: list_all_iff is_digit_def)

lemma trim_digits:
  assumes "list_all is_digit s"
  shows "trim_right cr_blank (dropWhile blank (SPC # s @ [CR])) = s"
proof -
  have n: "\<And>c. c \<in> set s \<Longrightarrow> \<not> cr_blank c" using digits_not_blank [OF assms] by blast
  have "dropWhile blank (s @ [CR]) = s @ [CR]" using n by (cases s) auto
  moreover have "dropWhile cr_blank (rev s) = rev s" using n by (cases "rev s") (auto simp: rev_eq_Cons_iff)
  ultimately show ?thesis by (simp add: trim_right_def)
qed

lemma Finish_content_length:
  assumes "LF \<notin> set ctype" and "ctype = (case contentType res of None \<Rightarrow> ''text/plain'' | Some t \<Rightarrow> t)"
    and "response = concat (response_pieces ka res n) @ rest"
  shows "first_some (header_value ''Content-Length'') (split_on LF response) = Some (ApiHeaderUnsigned n)"
proof -
  let ?l1 = "''HTTP/1.1 '' @ ApiHeaderUnsigned (statusCode res) @ '' '' @ GetHTTPReasonPhrase (statusCode res) @ [CR]"
  let ?l2 = "''Content-Type: '' @ ctype @ [CR]" and ?l3 = "''Content-Length: '' @ ApiHeaderUnsigned n @ [CR]"
  obtain more where r: "response = ?l1 @ LF # ?l2 @ LF # ?l3 @ LF # more"
    by (rule that) (simp add: assms(2,3) response_pieces_def)
  have dig: "LF \<notin> set (ApiHeaderUnsigned k)" for k
    using digits_not_blank [OF ApiHeaderUnsigned_digits(1)] by blast
  have "split_on LF response = [?l1, ?l2, ?l3] @ split_on LF more"
    unfolding r by (subst split_on_sep, use dig reason_no_eol assms(1) in force)+ simp
  moreover have "header_value ''Content-Length'' ?l1 = None" "header_value ''Content-Length'' ?l2 = None"
    by (simp_all add: header_value_def tolower_def char_of_eq_iff)
  moreover have "header_value ''Content-Length'' ?l3 = Some (ApiHeaderUnsigned n)"
    using trim_digits [OF ApiHeaderUnsigned_digits(1), of n] by (simp add: header_value_def)
  ultimately show ?thesis by simp
qed

lemma trim_eol:
  assumes "hdrs = [] \<or> last hdrs \<notin> {CR, LF}"
  shows "trim_right (\<lambda>c. c = LF \<or> c = CR) (hdrs @ crlf) = hdrs"
    and "trim_right (\<lambda>c. c = LF \<or> c = CR) (hdrs @ crlf @ crlf) = hdrs"
proof -
  have "dropWhile (\<lambda>c. c = LF \<or> c = CR) (rev hdrs) = rev hdrs"
    using assms by (cases "rev hdrs") (auto simp: rev_eq_Cons_iff)
  then show "trim_right (\<lambda>c. c = LF \<or> c = CR) (hdrs @ crlf) = hdrs"
    "trim_right (\<lambda>c. c = LF \<or> c = CR) (hdrs @ crlf @ crlf) = hdrs"
    by (simp_all add: trim_right_def)
qed

text \<open>Overwriting the delimiters of the request line leaves a path, a query and the rest.\<close>

lemma terminate_target:
  assumes "target = path @ (case query of None \<Rightarrow> [] | Some q \<Rightarrow> CHR ''?'' # q)" and "CHR ''?'' \<notin> set path"
  shows "memchr (pre @ target @ tail) (CHR ''?'') (length pre) (length pre + length target)
           = map_option (\<lambda>_. length pre + length path) query"
    and "(case map_option (\<lambda>_. length pre + length path) query of
            None \<Rightarrow> pre @ target @ tail | Some q \<Rightarrow> (pre @ target @ tail)[q := NUL])
           = pre @ path @ (case query of None \<Rightarrow> [] | Some q \<Rightarrow> NUL # q) @ tail"
  using memchr_absent [OF assms(2), of pre tail] memchr_run [OF assms(2), of pre "length pre + length target"]
  by (auto simp: assms(1) list_update_append split: option.splits)

lemma Prepare_parts:
  assumes "SPC \<notin> set m" and "m \<noteq> []" and "LF \<notin> set m"
    and "\<forall>c\<in>set path. c \<notin> {SPC, LF, NUL, CHR ''?''}"
    and "\<forall>q. query = Some q \<longrightarrow> SPC \<notin> set q \<and> LF \<notin> set q"
    and "LF \<notin> set version" and "hdrs = [] \<or> last hdrs \<notin> {CR, LF}"
    and "target = path @ (case query of None \<Rightarrow> [] | Some q \<Rightarrow> CHR ''?'' # q)"
    and "block = m @ SPC # target @ SPC # version @ crlf @ hdrs @ (if hdrs = [] then crlf else crlf @ crlf)"
    and "headerEnd frame = length block" and "frameBodyLength frame = length body"
  shows "\<exists>req. ApiProtocol_Prepare (block @ body @ rest) frame bodySize = Some (req,
           \<lparr>rq_method = fst (MethodFromRequestLine (m @ [SPC]) (length m + 1)), rq_path = path, rq_query = query,
            rq_headers = Some hdrs, rq_body = (if body = [] then None else Some body)\<rparr>,
           \<lparr>statusCode = 200, contentType = Some ''application/json'', extraHeaders = None,
            respBody = Some [], maxBodyLength = bodySize, overflowed = False\<rparr>)"
proof -
  define eol where "eol = (if hdrs = [] then crlf else crlf @ crlf)"
  define pre where "pre = m @ [SPC]"
  define line where "line = m @ SPC # target @ SPC # version @ [CR]"
  define tail where "tail = version @ crlf @ hdrs @ eol @ body @ rest"
  let ?q = "case query of None \<Rightarrow> [] | Some q \<Rightarrow> NUL # q"
  define req where "req = pre @ path @ ?q @ NUL # tail"
  let ?r = "block @ body @ rest"
  have r: "?r = pre @ target @ SPC # tail" and r': "?r = line @ LF # hdrs @ eol @ body @ rest"
    and block: "length block = length line + 1 + length hdrs + length eol" and eol: "0 < length eol"
    by (auto simp: assms(9) pre_def line_def tail_def eol_def)
  have spc: "SPC \<notin> set target" and q: "CHR ''?'' \<notin> set path"
    using assms(4,5) by (auto simp: assms(8) split: option.splits)
  have "LF \<notin> set line"
    using assms(3-6) by (auto simp: line_def assms(8) split: option.splits)
  moreover have "length line < length block" using block eol by simp
  ultimately have lf: "memchr ?r LF 0 (headerEnd frame) = Some (length line)"
    using memchr_run [of LF line "[]" "length block" "hdrs @ eol @ body @ rest"]
    unfolding r' assms(10) by (simp only: append_Nil list.size add_0 simp_thms True_implies_equals)
  have meth: "MethodFromRequestLine ?r (length line) = (fst (MethodFromRequestLine (m @ [SPC]) (length m + 1)), length m)"
  proof -
    have "?r = m @ SPC # (target @ SPC # tail)" using r by (simp add: pre_def)
    then show ?thesis
      using MethodFromRequestLine_word [OF assms(1), of "length line" "target @ SPC # tail"]
        MethodFromRequestLine_word [OF assms(1), of "length m + 1" "[]"] by (simp add: prod_eq_iff line_def)
  qed
  have te: "memchr ?r SPC (length m + 1) (length line) = Some (length pre + length target)"
    using memchr_run [OF spc, of pre "length line" tail] r by (simp add: pre_def line_def)
  have qs: "memchr ?r (CHR ''?'') (length m + 1) (length pre + length target) = map_option (\<lambda>_. length pre + length path) query"
    using terminate_target(1) [OF assms(8) q, of pre "SPC # tail"] r by (simp add: pre_def)
  have "?r[length pre + length target := NUL] = pre @ target @ NUL # tail"
    unfolding r by (simp add: list_update_append)
  then have upd: "(case map_option (\<lambda>_. length pre + length path) query of
            None \<Rightarrow> ?r[length pre + length target := NUL]
          | Some q \<Rightarrow> ?r[length pre + length target := NUL, q := NUL]) = req"
    using terminate_target(2) [OF assms(8) q, of pre "NUL # tail"] by (simp add: req_def split: option.splits)
  define first where "first = pre @ path @ ?q @ NUL # version @ crlf"
  have len: "length first = length line + 1"
    by (simp add: first_def pre_def line_def assms(8) split: option.splits)
  have req: "req = first @ hdrs @ eol @ body @ rest"
    by (simp add: req_def tail_def first_def)
  have path: "takeWhile (\<lambda>c. c \<noteq> NUL) (drop (length m + 1) req) = path"
  proof -
    have "drop (length m + 1) req = path @ ?q @ NUL # tail" by (simp add: req_def pre_def)
    moreover have "\<forall>c\<in>set path. c \<noteq> NUL" using assms(4) by auto
    ultimately show ?thesis by (auto simp: takeWhile_append split: option.splits)
  qed
  have query: "map_option (\<lambda>q. between req (q + 1) (length pre + length target))
                 (map_option (\<lambda>_. length pre + length path) query) = query"
    by (cases query) (simp_all add: req_def between_def assms(8))
  have hdrs: "between req (length line + 1) (scan_back (\<lambda>c. c = LF \<or> c = CR) req (length line + 1) (length block)) = hdrs"
  proof -
    have "between req (length line + 1) (length block) = hdrs @ eol"
      using between_mid [of first "hdrs @ eol" "body @ rest"]
      unfolding len req block by (simp add: add.assoc)
    moreover have "length block \<le> length req" unfolding req block using len by simp
    ultimately have "between req (length line + 1) (scan_back (\<lambda>c. c = LF \<or> c = CR) req (length line + 1) (length block))
        = trim_right (\<lambda>c. c = LF \<or> c = CR) (hdrs @ eol)"
      using block by (simp add: between_trim_right)
    then show ?thesis using trim_eol [OF assms(7)] by (auto simp: eol_def)
  qed
  have body: "slice req (length block) (length body) = body"
    using slice_mid [of "first @ hdrs @ eol" body rest]
    unfolding req block by (simp add: len add.assoc)
  have b: "(if frameBodyLength frame > 0 then Some (slice req (length block) (frameBodyLength frame)) else None)
      = (if body = [] then None else Some body)"
    by (simp add: body assms(11))
  have le: "(length m + 1 > length line) = False" "(length m > 0) = True" "(length block > length line + 1) = True"
    using assms(2) eol block by (simp_all add: line_def)
  show ?thesis
    unfolding ApiProtocol_Prepare_def Let_def
    by (simp only: lf [unfolded assms(10)] meth option.case prod.case le if_True if_False te qs upd path query assms(10) hdrs b) blast
qed

section \<open>Properties\<close>

text \<open>
  whatever a handler writes, and in whatever order, the body is all of it when it fits
  the buffer, and otherwise the response is marked as overflowed and holds the pieces that
  were written before the first one that did not fit; the buffer is never overrun.
\<close>

lemma api_writes_bounded:
  assumes "respBody res = Some []" and "\<not> overflowed res"
    and "\<forall>oper\<in>set ops. maxBodyLength res + length (rendered oper) + 16 < 2 ^ 32"
  shows "let r = foldl (write_step sse2) res ops; out = concat (map rendered ops)
         in if length out \<le> maxBodyLength res
            then \<not> overflowed r \<and> respBody r = Some out
            else overflowed r \<and> (\<exists>k. respBody r = Some (concat (map rendered (take k ops))) \<and>
                                    length (respBytes r) \<le> maxBodyLength res)"
  using write_steps_eq [OF assms(1,2) _ assms(3), of sse2] by (auto simp: Let_def)

lemma api_writes_bounded_witness:
  "let r = foldl (write_step True) \<lparr>statusCode = 200, contentType = None, extraHeaders = None, respBody = Some [],
             maxBodyLength = 4, overflowed = False\<rparr> [W_text ''id:'', W_text ''42'']
   in overflowed r \<and> (\<exists>k. respBody r = Some (concat (map rendered (take k [W_text ''id:'', W_text ''42'']))) \<and>
                           length (respBytes r) \<le> 4)"
  using api_writes_bounded [of "\<lparr>statusCode = 200, contentType = None, extraHeaders = None, respBody = Some [],
             maxBodyLength = 4, overflowed = False\<rparr>" "[W_text ''id:'', W_text ''42'']" True]
  by (simp add: Let_def)

text \<open>
  the check that guards the response buffer adds two 32-bit numbers: a write whose
  length wraps the sum passes it and leaves a body longer than the buffer.
\<close>

lemma api_write_wraps:
  assumes "respBody res = Some b" and "\<not> overflowed res" and "0 < length b"
    and "length b + length t = 2 ^ 32" and "maxBodyLength res < 2 ^ 32"
  shows "\<exists>r b'. AmmServer_APIResponseWrite res (Some t) (length t) = (r, True) \<and> respBody r = Some b' \<and>
               maxBodyLength res < length b'"
proof -
  have "b \<noteq> []" using assms(3) by simp
  have "t \<noteq> []" if "length b < 2 ^ 32" using that assms(4) by auto
  moreover have "t = [] \<Longrightarrow> maxBodyLength res < length b" using assms(4,5) by simp
  ultimately show ?thesis
    using assms by (cases "t = []") (auto simp: AmmServer_APIResponseWrite_def)
qed

lemma api_write_wraps_witness:
  "\<exists>r b'. AmmServer_APIResponseWrite \<lparr>statusCode = 200, contentType = None, extraHeaders = None,
            respBody = Some (replicate 10 SPC), maxBodyLength = 65536, overflowed = False\<rparr>
          (Some (replicate (2 ^ 32 - 10) SPC)) (length (replicate (2 ^ 32 - 10) SPC)) = (r, True) \<and>
          respBody r = Some b' \<and> 65536 < length b'"
  using api_write_wraps [of "\<lparr>statusCode = 200, contentType = None, extraHeaders = None,
            respBody = Some (replicate 10 SPC), maxBodyLength = 65536, overflowed = False\<rparr>"
            "replicate 10 SPC" "replicate (2 ^ 32 - 10) SPC"]
  by (simp only: length_replicate api_response.select_convs) simp

text \<open>
  an integer a handler writes is read back by the path template \<open>%lld\<close> as the same
  number, for every positive number of at most 18 digits.
\<close>

lemma api_integer_roundtrip:
  assumes "0 < v" and "v < 10 ^ 18" and "respBody res = Some b" and "\<not> overflowed res"
    and "length b + 18 \<le> maxBodyLength res" and "maxBodyLength res + 18 < 2 ^ 32"
  shows "\<exists>r t. AmmServer_APIResponseWriteInteger res v = (r, True) \<and> respBody r = Some (b @ t) \<and>
              MatchPositiveInteger t = Some v"
proof -
  let ?t = "integer_text v"
  have m: "MatchPositiveInteger ?t = Some v" using assms(1,2) by (rule integer_text_match)
  then have "length ?t \<le> 18" and "?t \<noteq> []" by (auto simp: MatchPositiveInteger_def split: if_splits)
  then have "AmmServer_APIResponseWriteInteger res v = (res\<lparr>respBody := Some (b @ ?t)\<rparr>, True)"
    using assms(3-6) by (simp add: WriteInteger_eq AmmServer_APIResponseWrite_def)
  with m show ?thesis by simp
qed

lemma api_integer_roundtrip_witness:
  "\<exists>r t. AmmServer_APIResponseWriteInteger \<lparr>statusCode = 200, contentType = None, extraHeaders = None,
            respBody = Some ''x='', maxBodyLength = 100, overflowed = False\<rparr> 1234567890123 = (r, True) \<and>
         respBody r = Some (''x='' @ t) \<and> MatchPositiveInteger t = Some 1234567890123"
  by (rule api_integer_roundtrip) simp_all

text \<open>
  C23: a response delimits itself: it is the status line and the headers, the first
  Content-Length among them is the decimal number of bytes of the body, which follows them
  (nothing follows them for HEAD), whatever the extra headers say.
\<close>

theorem api_response_delimited:
  assumes "ApiProtocol_Finish frame bodySize rqst res = Some response"
    and "LF \<notin> set (case contentType res of None \<Rightarrow> ''text/plain'' | Some t \<Rightarrow> t)"
  shows "\<exists>header p n. response = header @ (if rq_method rqst = HEAD then [] else take bodySize (respBytes res)) \<and>
           length header < 256 \<and>
           AmmServer_APIRequestHeader (Some response) (Some ''Content-Length'') = Some (p, n) \<and>
           digits_value (slice response p n) = int (length (take bodySize (respBytes res)))"
proof -
  let ?body = "take bodySize (respBytes res)"
  let ?header = "concat (response_pieces (frameKeepAlive frame) res (length ?body))"
  have r: "response = ?header @ (if rq_method rqst = HEAD then [] else ?body)" and l: "length ?header < 256"
    using assms(1) by (auto simp: Finish_eq Let_def API_RESPONSE_HEADER_RESERVE_def split: if_splits)
  have f: "first_some (header_value ''Content-Length'') (split_on LF response) = Some (ApiHeaderUnsigned (length ?body))"
    using Finish_content_length [OF assms(2) refl r] .
  have "map_option (text_at response) (find_header response ''Content-Length'' 0)
      = first_some (header_value ''Content-Length'') (split_on LF response)"
    using find_header_eq [of "''Content-Length''" 0 response] by simp
  then obtain p n where "find_header response ''Content-Length'' 0 = Some (p, n)"
      "slice response p n = ApiHeaderUnsigned (length ?body)"
    unfolding f by (auto simp: text_at_def)
  then show ?thesis
    using r l ApiHeaderUnsigned_digits(2) [of "length ?body"] by (auto simp: AmmServer_APIRequestHeader_def)
qed

theorem api_response_delimited_witness:
  "\<exists>response p n. ApiProtocol_Finish \<lparr>headerEnd = 2, frameBodyLength = 0, totalLength = 2, frameKeepAlive = True\<rparr> 100
       \<lparr>rq_method = GET, rq_path = ''/'', rq_query = None, rq_headers = None, rq_body = None\<rparr>
       \<lparr>statusCode = 200, contentType = None, extraHeaders = Some (''Content-Length: 7'' @ crlf), respBody = Some ''hello'',
        maxBodyLength = 100, overflowed = False\<rparr> = Some response \<and>
     AmmServer_APIRequestHeader (Some response) (Some ''Content-Length'') = Some (p, n) \<and>
     digits_value (slice response p n) = 5"
proof -
  let ?f = "\<lparr>headerEnd = 2, frameBodyLength = 0, totalLength = 2, frameKeepAlive = True\<rparr>"
  let ?q = "\<lparr>rq_method = GET, rq_path = ''/'', rq_query = None, rq_headers = None, rq_body = None\<rparr>"
  let ?r = "\<lparr>statusCode = 200, contentType = None, extraHeaders = Some (''Content-Length: 7'' @ crlf),
             respBody = Some ''hello'', maxBodyLength = 100, overflowed = False\<rparr>"
  have "ApiProtocol_Finish ?f 100 ?q ?r \<noteq> None"
    by (simp add: Finish_eq response_pieces_def API_RESPONSE_HEADER_RESERVE_def Let_def ApiHeaderUnsigned_def
        digit_loop.simps GetHTTPReasonPhrase_def reason_table_def)
  then obtain response where f: "ApiProtocol_Finish ?f 100 ?q ?r = Some response" by auto
  from api_response_delimited [OF f] obtain p n where
    "AmmServer_APIRequestHeader (Some response) (Some ''Content-Length'') = Some (p, n)" "digits_value (slice response p n) = 5"
    by auto
  with f show ?thesis by blast
qed

text \<open>
  C22: a handler is given the parts of the request as they were sent: for a well-formed
  request line, the method, the target up to its first question mark, the query after it,
  the header lines without the final line ends and the body.
\<close>

theorem api_prepare_parts:
  assumes "(m, meth) \<in> set [(''GET'', GET), (''PUT'', PUT), (''POST'', POST), (''HEAD'', HEAD), (''DELETE'', DELETE)]"
    and "\<forall>c\<in>set path. c \<notin> {SPC, LF, NUL, CHR ''?''}"
    and "\<forall>q. query = Some q \<longrightarrow> SPC \<notin> set q \<and> LF \<notin> set q"
    and "LF \<notin> set version" and "hdrs = [] \<or> last hdrs \<notin> {CR, LF}"
    and "target = path @ (case query of None \<Rightarrow> [] | Some q \<Rightarrow> CHR ''?'' # q)"
    and "block = m @ SPC # target @ SPC # version @ crlf @ hdrs @ (if hdrs = [] then crlf else crlf @ crlf)"
    and "headerEnd frame = length block" and "frameBodyLength frame = length body"
  shows "\<exists>req res. ApiProtocol_Prepare (block @ body @ rest) frame bodySize = Some (req,
           \<lparr>rq_method = meth, rq_path = path, rq_query = query, rq_headers = Some hdrs,
            rq_body = (if body = [] then None else Some body)\<rparr>, res)"
proof -
  have m: "SPC \<notin> set m" "m \<noteq> []" "LF \<notin> set m" using assms(1) by auto
  have "fst (MethodFromRequestLine (m @ [SPC]) (length m + 1)) = meth"
    using MethodFromRequestLine_word(2) [OF m(1), of "length m + 1" "[]"] assms(1) by auto
  then show ?thesis
    using Prepare_parts [OF m assms(2-9), of rest bodySize] by auto
qed

theorem api_prepare_parts_witness:
  "\<exists>req res. ApiProtocol_Prepare
       ((''POST'' @ SPC # ''/a?x=1'' @ SPC # ''HTTP/1.1'' @ crlf @ ''Host: b'' @ crlf @ crlf) @ ''{}'' @ ''GET'')
       \<lparr>headerEnd = 33, frameBodyLength = 2, totalLength = 35, frameKeepAlive = True\<rparr> 100
     = Some (req, \<lparr>rq_method = POST, rq_path = ''/a'', rq_query = Some ''x=1'', rq_headers = Some ''Host: b'',
                   rq_body = Some ''{}''\<rparr>, res)"
  using api_prepare_parts [of "''POST''" POST "''/a''" "Some ''x=1''" "''HTTP/1.1''" "''Host: b''" _ _
      "\<lparr>headerEnd = 33, frameBodyLength = 2, totalLength = 35, frameKeepAlive = True\<rparr>" "''{}''" "''GET''" 100,
      OF _ _ _ _ _ refl refl]
  by simp

end
