(* ===== verification/StringScanners.thy ===== *)
theory StringScanners
  imports Prelude
begin

text \<open>
  The keyword scanners of \<open>src/AmmServerlib/stringscanners\<close>: nested switches on the first
  three characters of a string, upper cased, that end in \<open>strncasecmp\<close> tests.  The
  programs are written over four combinators, one for each construct the scanners are
  made of; every function below is one file of the directory, and every datatype is the
  enumeration of its header.  A string is what lies in memory from the pointer on; its
  terminating NUL is \<open>c_at\<close> its length.
\<close>

section \<open>The constructs\<close>

type_synonym 'a scan = "string \<Rightarrow> nat \<Rightarrow> 'a option"

text \<open>\<open>if (strLength<N) { return 0; } if (strncasecmp(str,W,N)==0) { return ID; }\<close>\<close>

definition word :: "string \<Rightarrow> 'a \<Rightarrow> 'a scan" where
  "word w ident str strLength =
     (if strLength < length w then None else if strncaseeq str w (length w) then Some ident else None)"

text \<open>\<open>if ((strLength>=N) && (strncasecmp(str,W,N)==0)) { return ID; } else if ...\<close>\<close>

fun words :: "(string \<times> 'a) list \<Rightarrow> 'a scan" where
  "words [] str strLength = None"
| "words ((w, ident) # ws) str strLength =
     (if strLength \<ge> length w \<and> strncaseeq str w (length w) then Some ident else words ws str strLength)"

text \<open>\<open>switch (toupper(str[i])) { case C : ... break; }\<close>\<close>

definition switch :: "nat \<Rightarrow> (char \<times> 'a scan) list \<Rightarrow> 'a scan" where
  "switch i cases str strLength =
     (case map_of cases (toupper (c_at str i)) of None \<Rightarrow> None | Some f \<Rightarrow> f str strLength)"

text \<open>The function around them; the value 0 of an enumeration is its \<open>EMPTY\<close>.\<close>

definition scanner :: "nat \<Rightarrow> 'a \<Rightarrow> 'a scan \<Rightarrow> string option \<Rightarrow> nat \<Rightarrow> 'a" where
  "scanner shortest nothing body str strLength =
     (case str of
        None \<Rightarrow> nothing
      | Some s \<Rightarrow>
          if strLength < shortest then nothing
          else (case body s strLength of None \<Rightarrow> nothing | Some ident \<Rightarrow> ident))"

section \<open>The scanners\<close>

datatype firstLines =
    FIRSTLINES_EMPTY | FIRSTLINES_GET | FIRSTLINES_HEAD | FIRSTLINES_POST
  | FIRSTLINES_PUT | FIRSTLINES_DELETE | FIRSTLINES_TRACE | FIRSTLINES_OPTIONS
  | FIRSTLINES_CONNECT | FIRSTLINES_PATCH

definition scanFor_firstLines :: "string option \<Rightarrow> nat \<Rightarrow> firstLines" where
  "scanFor_firstLines = scanner 3 FIRSTLINES_EMPTY (switch 0 [
      (CHR ''C'', word ''CONNECT'' FIRSTLINES_CONNECT),
      (CHR ''D'', word ''DELETE'' FIRSTLINES_DELETE),
      (CHR ''G'', word ''GET'' FIRSTLINES_GET),
      (CHR ''H'', word ''HEAD'' FIRSTLINES_HEAD),
      (CHR ''O'', word ''OPTIONS'' FIRSTLINES_OPTIONS),
      (CHR ''P'', switch 1 [
              (CHR ''A'', word ''PATCH'' FIRSTLINES_PATCH),
              (CHR ''O'', word ''POST'' FIRSTLINES_POST),
              (CHR ''U'', word ''PUT'' FIRSTLINES_PUT)]),
      (CHR ''T'', word ''TRACE'' FIRSTLINES_TRACE)])"

datatype httpHeader =
    HTTPHEADER_EMPTY | HTTPHEADER_AUTHORIZATION | HTTPHEADER_ACCEPT_ENCODING | HTTPHEADER_COOKIE
  | HTTPHEADER_CONNECTION | HTTPHEADER_HOST | HTTPHEADER_IF_NONE_MATCH | HTTPHEADER_IF_MODIFIED_SINCE
  | HTTPHEADER_IF_UNMODIFIED_SINCE | HTTPHEADER_EXPECT | HTTPHEADER_TRANSFER_ENCODING | HTTPHEADER_RANGE
  | HTTPHEADER_REFERRER | HTTPHEADER_REFERER | HTTPHEADER_USER_AGENT

definition scanFor_httpHeader :: "string option \<Rightarrow> nat \<Rightarrow> httpHeader" where
  "scanFor_httpHeader = scanner 5 HTTPHEADER_EMPTY (switch 0 [
      (CHR ''A'', switch 1 [
              (CHR ''C'', word ''ACCEPT-ENCODING:'' HTTPHEADER_ACCEPT_ENCODING),
              (CHR ''U'', word ''AUTHORIZATION:'' HTTPHEADER_AUTHORIZATION)]),
      (CHR ''C'', switch 1 [
              (CHR ''O'', switch 2 [
                      (CHR ''N'', words [(''CONNECTION:'', HTTPHEADER_CONNECTION)]),
                      (CHR ''O'', words [(''COOKIE:'', HTTPHEADER_COOKIE)])])]),
      (CHR ''E'', word ''EXPECT:'' HTTPHEADER_EXPECT),
      (CHR ''H'', word ''HOST:'' HTTPHEADER_HOST),
      (CHR ''I'', switch 1 [
              (CHR ''F'', switch 2 [
                      (CHR ''-'', words [(''IF-NONE-MATCH:'', HTTPHEADER_IF_NONE_MATCH),
                                   (''IF-MODIFIED-SINCE:'', HTTPHEADER_IF_MODIFIED_SINCE),
                                   (''IF-UNMODIFIED-SINCE:'', HTTPHEADER_IF_UNMODIFIED_SINCE)])])]),
      (CHR ''R'', switch 1 [
              (CHR ''A'', word ''RANGE:'' HTTPHEADER_RANGE),
              (CHR ''E'', switch 2 [
                      (CHR ''F'', words [(''REFERRER:'', HTTPHEADER_REFERRER),
                                   (''REFERER:'', HTTPHEADER_REFERER)])])]),
      (CHR ''T'', word ''TRANSFER-ENCODING:'' HTTPHEADER_TRANSFER_ENCODING),
      (CHR ''U'', word ''USER-AGENT:'' HTTPHEADER_USER_AGENT)])"

datatype postHeader =
    POSTHEADER_EMPTY | POSTHEADER_CONTENT_TYPE | POSTHEADER_CONTENT_DISPOSITION | POSTHEADER_CONTENT_LENGTH
  | POSTHEADER_UPGRADE_INSECURE_REQUESTS | POSTHEADER_CONNECTION

definition scanFor_postHeader :: "string option \<Rightarrow> nat \<Rightarrow> postHeader" where
  "scanFor_postHeader = scanner 11 POSTHEADER_EMPTY (switch 0 [
      (CHR ''C'', switch 1 [
              (CHR ''O'', switch 2 [
                      (CHR ''N'', words [(''CONTENT-TYPE:'', POSTHEADER_CONTENT_TYPE),
                                   (''CONTENT-DISPOSITION:'', POSTHEADER_CONTENT_DISPOSITION),
                                   (''CONTENT-LENGTH:'', POSTHEADER_CONTENT_LENGTH),
                                   (''CONNECTION:'', POSTHEADER_CONNECTION)])])]),
      (CHR ''U'', word ''UPGRADE-INSECURE-REQUESTS:'' POSTHEADER_UPGRADE_INSECURE_REQUESTS)])"

datatype configKeys =
    CONFIGKEYS_EMPTY | CONFIGKEYS_TIMEOUT | CONFIGKEYS_KEEPALIVE | CONFIGKEYS_LISTEN
  | CONFIGKEYS_RUNASPRIORITY | CONFIGKEYS_RUNASUSER | CONFIGKEYS_IFUSERDOESNTEXISTRUNASUID | CONFIGKEYS_CACHING
  | CONFIGKEYS_MAXCACHESIZE | CONFIGKEYS_MAXCACHESIZEFOREACHFILE | CONFIGKEYS_MAXSEPERATECACHEITEMS | CONFIGKEYS_ENABLEPOST
  | CONFIGKEYS_MAXPOSTTRANSACTIONSIZE | CONFIGKEYS_KEEPALIVETIMEOUT | CONFIGKEYS_MAXKEEPALIVEREQUESTS | CONFIGKEYS_STARTSERVERS
  | CONFIGKEYS_MINSPARETHREADS | CONFIGKEYS_MAXSPARETHREADS | CONFIGKEYS_THREADLIMIT | CONFIGKEYS_MAXCLIENTS
  | CONFIGKEYS_FILECOMPRESSION | CONFIGKEYS_DYNAMICCONTENTCOMPRESSION | CONFIGKEYS_REALLOCTOSAVEMORETHANTHISNUMBEROFBYTESWITHCOMPRESSION | CONFIGKEYS_DEFAULTTYPE
  | CONFIGKEYS_SERVERADMIN | CONFIGKEYS_DOCUMENTROOT | CONFIGKEYS_SERVERTOKENS | CONFIGKEYS_SERVERSIGNATURE
  | CONFIGKEYS_DIRECTORYLISTING

definition scanFor_configKeys :: "string option \<Rightarrow> nat \<Rightarrow> configKeys" where
  "scanFor_configKeys = scanner 7 CONFIGKEYS_EMPTY (switch 0 [
      (CHR ''C'', word ''CACHING:'' CONFIGKEYS_CACHING),
      (CHR ''D'', switch 1 [
              (CHR ''E'', word ''DEFAULTTYPE:'' CONFIGKEYS_DEFAULTTYPE),
              (CHR ''I'', word ''DIRECTORYLISTING:'' CONFIGKEYS_DIRECTORYLISTING),
              (CHR ''O'', word ''DOCUMENTROOT:'' CONFIGKEYS_DOCUMENTROOT),
              (CHR ''Y'', word ''DYNAMICCONTENTCOMPRESSION:'' CONFIGKEYS_DYNAMICCONTENTCOMPRESSION)]),
      (CHR ''E'', word ''ENABLEPOST:'' CONFIGKEYS_ENABLEPOST),
      (CHR ''F'', word ''FILECOMPRESSION:'' CONFIGKEYS_FILECOMPRESSION),
      (CHR ''I'', word ''IFUSERDOESNTEXISTRUNASUID:'' CONFIGKEYS_IFUSERDOESNTEXISTRUNASUID),
      (CHR ''K'', switch 1 [
              (CHR ''E'', switch 2 [
                      (CHR ''E'', words [(''KEEPALIVE:'', CONFIGKEYS_KEEPALIVE),
                                   (''KEEPALIVETIMEOUT:'', CONFIGKEYS_KEEPALIVETIMEOUT)])])]),
      (CHR ''L'', word ''LISTEN:'' CONFIGKEYS_LISTEN),
      (CHR ''M'', switch 1 [
              (CHR ''A'', switch 2 [
                      (CHR ''X'', words [(''MAXCACHESIZE:'', CONFIGKEYS_MAXCACHESIZE),
                                   (''MAXCACHESIZEFOREACHFILE:'', CONFIGKEYS_MAXCACHESIZEFOREACHFILE),
                                   (''MAXSEPERATECACHEITEMS:'', CONFIGKEYS_MAXSEPERATECACHEITEMS),
                                   (''MAXPOSTTRANSACTIONSIZE:'', CONFIGKEYS_MAXPOSTTRANSACTIONSIZE),
                                   (''MAXKEEPALIVEREQUESTS:'', CONFIGKEYS_MAXKEEPALIVEREQUESTS),
                                   (''MAXSPARETHREADS:'', CONFIGKEYS_MAXSPARETHREADS),
                                   (''MAXCLIENTS:'', CONFIGKEYS_MAXCLIENTS)])]),
              (CHR ''I'', word ''MINSPARETHREADS:'' CONFIGKEYS_MINSPARETHREADS)]),
      (CHR ''R'', switch 1 [
              (CHR ''E'', word ''REALLOCTOSAVEMORETHANTHISNUMBEROFBYTESWITHCOMPRESSION:'' CONFIGKEYS_REALLOCTOSAVEMORETHANTHISNUMBEROFBYTESWITHCOMPRESSION),
              (CHR ''U'', switch 2 [
                      (CHR ''N'', words [(''RUNASPRIORITY:'', CONFIGKEYS_RUNASPRIORITY),
                                   (''RUNASUSER:'', CONFIGKEYS_RUNASUSER)])])]),
      (CHR ''S'', switch 1 [
              (CHR ''E'', switch 2 [
                      (CHR ''R'', words [(''SERVERADMIN:'', CONFIGKEYS_SERVERADMIN),
                                   (''SERVERTOKENS:'', CONFIGKEYS_SERVERTOKENS),
                                   (''SERVERSIGNATURE:'', CONFIGKEYS_SERVERSIGNATURE)])]),
              (CHR ''T'', word ''STARTSERVERS:'' CONFIGKEYS_STARTSERVERS)]),
      (CHR ''T'', switch 1 [
              (CHR ''H'', word ''THREADLIMIT:'' CONFIGKEYS_THREADLIMIT),
              (CHR ''I'', word ''TIMEOUT:'' CONFIGKEYS_TIMEOUT)])])"

datatype textFiles =
    TEXTFILES_EMPTY | TEXTFILES_HTML | TEXTFILES_HTM | TEXTFILES_CSS
  | TEXTFILES_TXT | TEXTFILES_DOC | TEXTFILES_RTF | TEXTFILES_ODF
  | TEXTFILES_ODT

definition scanFor_textFiles :: "string option \<Rightarrow> nat \<Rightarrow> textFiles" where
  "scanFor_textFiles = scanner 3 TEXTFILES_EMPTY (switch 0 [
      (CHR ''C'', word ''CSS'' TEXTFILES_CSS),
      (CHR ''D'', word ''DOC'' TEXTFILES_DOC),
      (CHR ''H'', switch 1 [
              (CHR ''T'', switch 2 [
                      (CHR ''M'', words [(''HTML'', TEXTFILES_HTML),
                                   (''HTM'', TEXTFILES_HTM)])])]),
      (CHR ''O'', switch 1 [
              (CHR ''D'', switch 2 [
                      (CHR ''F'', words [(''ODF'', TEXTFILES_ODF)]),
                      (CHR ''T'', words [(''ODT'', TEXTFILES_ODT)])])]),
      (CHR ''R'', word ''RTF'' TEXTFILES_RTF),
      (CHR ''T'', word ''TXT'' TEXTFILES_TXT)])"

datatype imageFiles =
    IMAGEFILES_EMPTY | IMAGEFILES_GIF | IMAGEFILES_PNG | IMAGEFILES_JPG
  | IMAGEFILES_JPEG | IMAGEFILES_WEBP | IMAGEFILES_BMP | IMAGEFILES_TIFF
  | IMAGEFILES_DIB | IMAGEFILES_RLE | IMAGEFILES_J2C | IMAGEFILES_ICO
  | IMAGEFILES_PPM | IMAGEFILES_PNM | IMAGEFILES_RAW | IMAGEFILES_SVG

definition scanFor_imageFiles :: "string option \<Rightarrow> nat \<Rightarrow> imageFiles" where
  "scanFor_imageFiles = scanner 3 IMAGEFILES_EMPTY (switch 0 [
      (CHR ''B'', word ''BMP'' IMAGEFILES_BMP),
      (CHR ''D'', word ''DIB'' IMAGEFILES_DIB),
      (CHR ''G'', word ''GIF'' IMAGEFILES_GIF),
      (CHR ''I'', word ''ICO'' IMAGEFILES_ICO),
      (CHR ''J'', switch 1 [
              (CHR ''P'', switch 2 [
                      (CHR ''E'', words [(''JPEG'', IMAGEFILES_JPEG)]),
                      (CHR ''G'', words [(''JPG'', IMAGEFILES_JPG)])]),
              (CHR ''2'', word ''J2C'' IMAGEFILES_J2C)]),
      (CHR ''P'', switch 1 [
              (CHR ''N'', switch 2 [
                      (CHR ''G'', words [(''PNG'', IMAGEFILES_PNG)]),
                      (CHR ''M'', words [(''PNM'', IMAGEFILES_PNM)])]),
              (CHR ''P'', word ''PPM'' IMAGEFILES_PPM)]),
      (CHR ''R'', switch 1 [
              (CHR ''A'', word ''RAW'' IMAGEFILES_RAW),
              (CHR ''L'', word ''RLE'' IMAGEFILES_RLE)]),
      (CHR ''S'', word ''SVG'' IMAGEFILES_SVG),
      (CHR ''T'', word ''TIFF'' IMAGEFILES_TIFF),
      (CHR ''W'', word ''WEBP'' IMAGEFILES_WEBP)])"

datatype videoFiles =
    VIDEOFILES_EMPTY | VIDEOFILES_AVI | VIDEOFILES_MPEG4 | VIDEOFILES_MPEG
  | VIDEOFILES_MP4 | VIDEOFILES_WEBM | VIDEOFILES_OGV | VIDEOFILES_MKV
  | VIDEOFILES_3GP | VIDEOFILES_H263 | VIDEOFILES_H264 | VIDEOFILES_FLV

definition scanFor_videoFiles :: "string option \<Rightarrow> nat \<Rightarrow> videoFiles" where
  "scanFor_videoFiles = scanner 3 VIDEOFILES_EMPTY (switch 0 [
      (CHR ''A'', word ''AVI'' VIDEOFILES_AVI),
      (CHR ''F'', word ''FLV'' VIDEOFILES_FLV),
      (CHR ''H'', switch 1 [
              (CHR ''2'', switch 2 [
                      (CHR ''6'', words [(''H263'', VIDEOFILES_H263),
                                   (''H264'', VIDEOFILES_H264)])])]),
      (CHR ''M'', switch 1 [
              (CHR ''K'', word ''MKV'' VIDEOFILES_MKV),
              (CHR ''P'', switch 2 [
                      (CHR ''E'', words [(''MPEG4'', VIDEOFILES_MPEG4),
                                   (''MPEG'', VIDEOFILES_MPEG)]),
                      (CHR ''4'', words [(''MP4'', VIDEOFILES_MP4)])])]),
      (CHR ''O'', word ''OGV'' VIDEOFILES_OGV),
      (CHR ''W'', word ''WEBM'' VIDEOFILES_WEBM),
      (CHR ''3'', word ''3GP'' VIDEOFILES_3GP)])"

datatype audioFiles =
    AUDIOFILES_EMPTY | AUDIOFILES_MP3 | AUDIOFILES_WAV | AUDIOFILES_MID
  | AUDIOFILES_OGG | AUDIOFILES_VOC | AUDIOFILES_AU

definition scanFor_audioFiles :: "string option \<Rightarrow> nat \<Rightarrow> audioFiles" where
  "scanFor_audioFiles = scanner 2 AUDIOFILES_EMPTY (switch 0 [
      (CHR ''A'', word ''AU'' AUDIOFILES_AU),
      (CHR ''M'', switch 1 [
              (CHR ''I'', word ''MID'' AUDIOFILES_MID),
              (CHR ''P'', word ''MP3'' AUDIOFILES_MP3)]),
      (CHR ''O'', word ''OGG'' AUDIOFILES_OGG),
      (CHR ''V'', word ''VOC'' AUDIOFILES_VOC),
      (CHR ''W'', word ''WAV'' AUDIOFILES_WAV)])"

datatype applicationFiles =
    APPLICATIONFILES_EMPTY | APPLICATIONFILES_EXE | APPLICATIONFILES_DLL | APPLICATIONFILES_SCR
  | APPLICATIONFILES_CPL | APPLICATIONFILES_SWF | APPLICATIONFILES_PDF | APPLICATIONFILES_JSON
  | APPLICATIONFILES_JS

definition scanFor_applicationFiles :: "string option \<Rightarrow> nat \<Rightarrow> applicationFiles" where
  "scanFor_applicationFiles = scanner 2 APPLICATIONFILES_EMPTY (switch 0 [
      (CHR ''C'', word ''CPL'' APPLICATIONFILES_CPL),
      (CHR ''D'', word ''DLL'' APPLICATIONFILES_DLL),
      (CHR ''E'', word ''EXE'' APPLICATIONFILES_EXE),
      (CHR ''J'', switch 1 [
              (CHR ''S'', switch 2 [
                      (CHR ''O'', words [(''JSON'', APPLICATIONFILES_JSON)]),
                      (NUL, words [(''JS'', APPLICATIONFILES_JS)])])]),
      (CHR ''P'', word ''PDF'' APPLICATIONFILES_PDF),
      (CHR ''S'', switch 1 [
              (CHR ''C'', word ''SCR'' APPLICATIONFILES_SCR),
              (CHR ''W'', word ''SWF'' APPLICATIONFILES_SWF)])])"

datatype archiveFiles =
    ARCHIVEFILES_EMPTY | ARCHIVEFILES_7Z | ARCHIVEFILES_AR | ARCHIVEFILES_BZ2
  | ARCHIVEFILES_CBZ | ARCHIVEFILES_CPIO | ARCHIVEFILES_GZ | ARCHIVEFILES_ISO
  | ARCHIVEFILES_JAR | ARCHIVEFILES_LZMA | ARCHIVEFILES_TAR | ARCHIVEFILES_TGZ
  | ARCHIVEFILES_TAR_7Z | ARCHIVEFILES_TAR_Z | ARCHIVEFILES_TAR_GZ | ARCHIVEFILES_TAR_BZ2
  | ARCHIVEFILES_TAR_BZ | ARCHIVEFILES_TAR_LZ | ARCHIVEFILES_TAR_LZMA | ARCHIVEFILES_TAR_XZ
  | ARCHIVEFILES_XZ | ARCHIVEFILES_ZIP

definition scanFor_archiveFiles :: "string option \<Rightarrow> nat \<Rightarrow> archiveFiles" where
  "scanFor_archiveFiles = scanner 2 ARCHIVEFILES_EMPTY (switch 0 [
      (CHR ''A'', word ''AR'' ARCHIVEFILES_AR),
      (CHR ''B'', word ''BZ2'' ARCHIVEFILES_BZ2),
      (CHR ''C'', switch 1 [
              (CHR ''B'', word ''CBZ'' ARCHIVEFILES_CBZ),
              (CHR ''P'', word ''CPIO'' ARCHIVEFILES_CPIO)]),
      (CHR ''G'', word ''GZ'' ARCHIVEFILES_GZ),
      (CHR ''I'', word ''ISO'' ARCHIVEFILES_ISO),
      (CHR ''J'', word ''JAR'' ARCHIVEFILES_JAR),
      (CHR ''L'', word ''LZMA'' ARCHIVEFILES_LZMA),
      (CHR ''T'', switch 1 [
              (CHR ''A'', switch 2 [
                      (CHR ''R'', words [(''TAR'', ARCHIVEFILES_TAR),
                                   (''TAR.7Z'', ARCHIVEFILES_TAR_7Z),
                                   (''TAR.Z'', ARCHIVEFILES_TAR_Z),
                                   (''TAR.GZ'', ARCHIVEFILES_TAR_GZ),
                                   (''TAR.BZ2'', ARCHIVEFILES_TAR_BZ2),
                                   (''TAR.BZ'', ARCHIVEFILES_TAR_BZ),
                                   (''TAR.LZ'', ARCHIVEFILES_TAR_LZ),
                                   (''TAR.LZMA'', ARCHIVEFILES_TAR_LZMA),
                                   (''TAR.XZ'', ARCHIVEFILES_TAR_XZ)])]),
              (CHR ''G'', word ''TGZ'' ARCHIVEFILES_TGZ)]),
      (CHR ''X'', word ''XZ'' ARCHIVEFILES_XZ),
      (CHR ''Z'', word ''ZIP'' ARCHIVEFILES_ZIP),
      (CHR ''7'', word ''7Z'' ARCHIVEFILES_7Z)])"

end
