(* ===== verification/StringRecognizer.thy ===== *)
theory StringRecognizer
  imports StringScanners
begin

text \<open>
  The generator of the keyword scanners (\<open>src/StringRecognizer/fastStringParser.c\<close>).  The
  program reads a file of words and prints a C function; here the printed function body
  is a value of type \<open>code\<close>, with one constructor for each kind of statement the generator
  prints, and \<open>exec\<close> is what that statement does, in the combinators the shipped scanners
  are written over.  A loaded string is its text and the identifier printed for it.
\<close>

section \<open>The code\<close>

type_synonym 'a strings = "(string \<times> 'a) list"

definition acceptedChars :: string where
  "acceptedChars = ''ABCDEFGHIJKLMNOPQRSTUVWXYZ0123456789-_''"

definition ACTIVATED_LEVELS :: nat where "ACTIVATED_LEVELS = 3"

text \<open>The loops run up to and including the terminating NUL of \<open>acceptedChars\<close>.\<close>

definition next_chars :: string where "next_chars = acceptedChars @ [NUL]"

text \<open>
  \<open>if (strLength<N) ... if (strncasecmp ...)\<close>, the chain of \<open>if ... else if\<close>, the switch,
  and the comment \<open>//Error\<close>.
\<close>

datatype 'a code =
    Single string 'a | Chain "'a strings" | Switch nat "(char \<times> 'a code) list" | Error

fun exec :: "'a code \<Rightarrow> 'a scan" and exec_cases :: "(char \<times> 'a code) list \<Rightarrow> (char \<times> 'a scan) list" where
  "exec (Single w ident) = word w ident"
| "exec (Chain ws) = words ws"
| "exec (Switch level cases) = switch level (exec_cases cases)"
| "exec Error = (\<lambda>str strLength. None)"
| "exec_cases [] = []"
| "exec_cases ((c, k) # cases) = (c, exec k) # exec_cases cases"

text \<open>The strings whose first \<open>seqLength\<close> bytes are those of \<open>Sequence\<close>.\<close>

definition agrees :: "string \<Rightarrow> string \<Rightarrow> nat \<Rightarrow> bool" where
  "agrees str1 str2 seqLength \<longleftrightarrow> list_all (\<lambda>count. c_at str1 count = c_at str2 count) [0..<seqLength]"

definition fastStringParser_hasStringsWithNConsecutiveChars :: "'a strings \<Rightarrow> string \<Rightarrow> nat \<Rightarrow> 'a strings" where
  "fastStringParser_hasStringsWithNConsecutiveChars fsp Sequence seqLength =
     filter (\<lambda>(str, _). agrees str Sequence seqLength) fsp"

text \<open>
  The number of the hits is the length of the list, and the index the C function hands
  back is that of its last element.
\<close>

definition fastStringParser_countStringsForNextChar :: "'a strings \<Rightarrow> string \<Rightarrow> nat \<Rightarrow> 'a strings" where
  "fastStringParser_countStringsForNextChar fsp Sequence seqLength =
     concat (map (\<lambda>ch. fastStringParser_hasStringsWithNConsecutiveChars fsp (take seqLength Sequence @ [ch]) (seqLength + 1))
                 next_chars)"

definition printIfAllPossibleStrings :: "'a strings \<Rightarrow> string \<Rightarrow> nat \<Rightarrow> 'a code" where
  "printIfAllPossibleStrings fsp Sequence seqLength = Chain (filter (\<lambda>(str, _). agrees str Sequence seqLength) fsp)"

function recursiveTraverser :: "'a strings \<Rightarrow> string \<Rightarrow> nat \<Rightarrow> 'a code" where
  "recursiveTraverser fsp cArray level =
     (if level \<ge> ACTIVATED_LEVELS then Chain []
      else
        (let nextLevelStrings = fastStringParser_countStringsForNextChar fsp cArray level
         in if length nextLevelStrings > 1 then
              Switch level
                (map (\<lambda>ch. (ch,
                   let cArray' = take level cArray @ [ch]
                   in if level < ACTIVATED_LEVELS - 1 then recursiveTraverser fsp cArray' (level + 1)
                      else printIfAllPossibleStrings fsp cArray' (level + 1)))
                 (filter (\<lambda>ch. fastStringParser_hasStringsWithNConsecutiveChars fsp (take level cArray @ [ch]) (level + 1) \<noteq> [])
                         next_chars))
            else if length nextLevelStrings = 1
            then (case last nextLevelStrings of (str, ident) \<Rightarrow> Single str ident)
            else Error))"
  by pat_completeness auto
termination
  by (relation "measure (\<lambda>(fsp, cArray, level). ACTIVATED_LEVELS - level)") (auto simp: ACTIVATED_LEVELS_def)

declare recursiveTraverser.simps [simp del]

text \<open>
  The loaded word list with the lengths kept beside it.  \<open>strIDFriendly\<close> is given with the
  string: the identifiers are printed and never looked at.
\<close>

record 'a fastStringParser =
  contents :: "'a strings"
  shortestStringLength :: nat
  longestStringLength :: nat

definition fastStringParser_initialize :: "'a fastStringParser" where
  "fastStringParser_initialize = \<lparr>contents = [], shortestStringLength = 0, longestStringLength = 0\<rparr>"

definition fastStringParser_addString :: "'a fastStringParser \<Rightarrow> string \<times> 'a \<Rightarrow> 'a fastStringParser" where
  "fastStringParser_addString fsp s =
     (let ourNum = length (contents fsp);
          strLength = length (fst s)
      in \<lparr>contents = contents fsp @ [s],
          shortestStringLength =
            (if ourNum = 0 \<or> shortestStringLength fsp > strLength then strLength else shortestStringLength fsp),
          longestStringLength =
            (if ourNum = 0 \<or> longestStringLength fsp < strLength then strLength else longestStringLength fsp)\<rparr>)"

text \<open>What the reading loop leaves of a line that \<open>fgets\<close> returned.\<close>

definition is_eol :: "char \<Rightarrow> bool" where "is_eol c \<longleftrightarrow> c = LF \<or> c = CR"

definition strip_eol :: "string \<Rightarrow> string" where
  "strip_eol line =
     (let line = (if line \<noteq> [] \<and> is_eol (last line) then butlast line else line)
      in if length line > 1 \<and> is_eol (line ! (length line - 2)) then take (length line - 2) line else line)"

definition fastSTringParser_createRulesFromFile :: "'a strings \<Rightarrow> 'a fastStringParser" where
  "fastSTringParser_createRulesFromFile file_lines =
     foldl fastStringParser_addString fastStringParser_initialize (map (\<lambda>(line, ident). (strip_eol line, ident)) file_lines)"

text \<open>The function the exported file defines; \<open>nothing\<close> is the value 0 of its enumeration.\<close>

definition export_C_Scanner :: "'a fastStringParser \<Rightarrow> 'a \<Rightarrow> string option \<Rightarrow> nat \<Rightarrow> 'a" where
  "export_C_Scanner fsp nothing =
     scanner (shortestStringLength fsp) nothing (exec (recursiveTraverser (contents fsp) [] 0))"

section \<open>The printed code, group by group\<close>

text \<open>
  \<open>gen\<close> is the recursion of the generator on the strings that are still possible instead
  of on the whole file and a prefix.
\<close>

function gen :: "'a strings \<Rightarrow> nat \<Rightarrow> 'a code" where
  "gen g level =
     (if level \<ge> ACTIVATED_LEVELS then Chain g
      else if length g > 1 then
        Switch level (map (\<lambda>ch. (ch, gen (filter (\<lambda>(w, _). c_at w level = ch) g) (level + 1)))
                          (filter (\<lambda>ch. list_ex (\<lambda>(w, _). c_at w level = ch) g) next_chars))
      else (case g of [] \<Rightarrow> Error | (w, ident) # _ \<Rightarrow> Single w ident))"
  by pat_completeness auto
termination
  by (relation "measure (\<lambda>(g, level). ACTIVATED_LEVELS - level)") auto

declare gen.simps [simp del]

lemma agrees_0 [simp]: "agrees w s 0"
  by (simp add: agrees_def)

lemma agrees_snoc:
  "length s = k \<Longrightarrow> agrees w (s @ [ch]) (Suc k) \<longleftrightarrow> agrees w s k \<and> c_at w k = ch"
  by (auto simp: agrees_def list_all_iff c_at_def nth_append less_Suc_eq)

lemma concat_groups:
  assumes "distinct cs"
  shows "length (concat (map (\<lambda>ch. filter (\<lambda>x. f x = ch) g) cs)) = length (filter (\<lambda>x. f x \<in> set cs) g)"
  using assms
proof (induction cs)
  case (Cons c cs)
  have "length (filter (\<lambda>x. f x = c \<or> f x \<in> set cs) g) = length (filter (\<lambda>x. f x = c) g) + length (filter (\<lambda>x. f x \<in> set cs) g)"
    using Cons.prems by (induction g) auto
  with Cons show ?case by simp
qed simp

lemma concat_one:
  assumes "distinct cs" and "f x \<in> set cs"
  shows "concat (map (\<lambda>ch. filter (\<lambda>x. f x = ch) [x]) cs) = [x]"
  using assms by (induction cs) (auto simp: filter_empty_conv)

lemma list_ex_filter: "list_ex P xs \<longleftrightarrow> filter P xs \<noteq> []"
  by (induction xs) auto

lemma distinct_next_chars: "distinct next_chars"
  by (simp add: next_chars_def acceptedChars_def)

lemma traverser_gen:
  assumes "length s = level" and "level < ACTIVATED_LEVELS"
    and "\<forall>x\<in>set fsp. \<forall>i<ACTIVATED_LEVELS. c_at (fst x) i \<in> set next_chars"
  shows "recursiveTraverser fsp s level = gen (filter (\<lambda>x. agrees (fst x) s level) fsp) level"
  using assms
proof (induction "ACTIVATED_LEVELS - level" arbitrary: s level)
  case (Suc d)
  let ?g = "filter (\<lambda>x. agrees (fst x) s level) fsp"
  let ?f = "\<lambda>x. c_at (fst x) level"
  have part: "fastStringParser_hasStringsWithNConsecutiveChars fsp (take level s @ [ch]) (level + 1)
      = filter (\<lambda>x. ?f x = ch) ?g" for ch
    using Suc.prems(1) by (auto simp: fastStringParser_hasStringsWithNConsecutiveChars_def agrees_snoc case_prod_unfold intro!: filter_cong)
  have accepted: "?f x \<in> set next_chars" if "x \<in> set ?g" for x
    using that Suc.prems by auto
  define all where "all = fastStringParser_countStringsForNextChar fsp s level"
  have all_eq: "all = concat (map (\<lambda>ch. filter (\<lambda>x. ?f x = ch) ?g) next_chars)"
    unfolding all_def fastStringParser_countStringsForNextChar_def part ..
  have len: "length all = length ?g"
  proof -
    have "filter (\<lambda>x. ?f x \<in> set next_chars) ?g = ?g"
      using accepted by (simp only: filter_id_conv) blast
    then show ?thesis by (simp only: all_eq concat_groups [OF distinct_next_chars])
  qed
  show ?case
  proof (cases "length ?g > 1")
    case True
    have branch: "(if level < ACTIVATED_LEVELS - 1 then recursiveTraverser fsp (take level s @ [ch]) (level + 1)
        else printIfAllPossibleStrings fsp (take level s @ [ch]) (level + 1))
       = gen (filter (\<lambda>x. ?f x = ch) ?g) (level + 1)" for ch
    proof (cases "level < ACTIVATED_LEVELS - 1")
      case True
      then have "recursiveTraverser fsp (s @ [ch]) (level + 1)
          = gen (filter (\<lambda>x. agrees (fst x) (s @ [ch]) (level + 1)) fsp) (level + 1)"
        using Suc.prems Suc.hyps by (intro Suc.hyps(1)) auto
      also have "filter (\<lambda>x. agrees (fst x) (s @ [ch]) (level + 1)) fsp = filter (\<lambda>x. ?f x = ch) ?g"
        using Suc.prems(1) by (auto simp: agrees_snoc intro!: filter_cong)
      finally show ?thesis using True Suc.prems(1) by simp
    next
      case False
      then have "level + 1 = ACTIVATED_LEVELS" using Suc.prems(2) by simp
      then have "gen (filter (\<lambda>x. ?f x = ch) ?g) (level + 1) = Chain (filter (\<lambda>x. ?f x = ch) ?g)"
        by (subst gen.simps) simp
      moreover have "printIfAllPossibleStrings fsp (s @ [ch]) (level + 1) = Chain (filter (\<lambda>x. ?f x = ch) ?g)"
        using Suc.prems(1) by (auto simp: printIfAllPossibleStrings_def agrees_snoc case_prod_unfold intro!: filter_cong)
      ultimately show ?thesis using False Suc.prems(1) by simp
    qed
    have "recursiveTraverser fsp s level
        = Switch level (map (\<lambda>ch. (ch, gen (filter (\<lambda>x. ?f x = ch) ?g) (level + 1)))
                         (filter (\<lambda>ch. filter (\<lambda>x. ?f x = ch) ?g \<noteq> []) next_chars))"
    proof -
      have b: "(ACTIVATED_LEVELS \<le> level) = False" "(1 < length all) = True" using True len Suc.prems(2) by auto
      show ?thesis
        by (subst recursiveTraverser.simps) (simp only: Let_def part all_def [symmetric] branch b if_False if_True)
    qed
    also have "\<dots> = gen ?g level"
    proof -
      have b: "(ACTIVATED_LEVELS \<le> level) = False" "(1 < length ?g) = True" using True Suc.prems(2) by auto
      show ?thesis by (subst gen.simps) (simp only: b if_False if_True case_prod_unfold list_ex_filter)
    qed
    finally show ?thesis .
  next
    case False
    then consider "?g = []" | x where "?g = [x]" by (cases ?g; cases "tl ?g") auto
    then show ?thesis
    proof cases
      case 1
      then have "length all = 0" using len by simp
      then have "recursiveTraverser fsp s level = Error"
        using Suc.prems(2) by (subst recursiveTraverser.simps) (simp add: all_def [symmetric])
      then show ?thesis using 1 Suc.prems(2) by (subst gen.simps) simp
    next
      case 2
      then have "all = [x]"
        using accepted [of x] by (simp only: all_eq) (rule concat_one [OF distinct_next_chars], simp)
      then have "recursiveTraverser fsp s level = Single (fst x) (snd x)"
        using Suc.prems(2) by (subst recursiveTraverser.simps) (simp add: all_def [symmetric] case_prod_unfold)
      then show ?thesis using 2 Suc.prems(2) by (subst gen.simps) (simp add: case_prod_unfold)
    qed
  qed
qed simp

section \<open>What the printed code recognises\<close>

text \<open>
  A loaded word is a hit when the string starts with it, up to case.  A word of two
  characters that is the start of another word is printed under \<open>case 0\<close>, so it is a hit
  only where the string ends.
\<close>

definition starts :: "string \<Rightarrow> string \<Rightarrow> nat \<Rightarrow> bool" where
  "starts w str strLength \<longleftrightarrow> length w \<le> strLength \<and> strncaseeq str w (length w)"

definition must_end :: "'a strings \<Rightarrow> string \<Rightarrow> bool" where
  "must_end fsp w \<longleftrightarrow>
     length w < ACTIVATED_LEVELS \<and> list_ex (\<lambda>(v, _). v \<noteq> w \<and> take (length w) v = w) fsp"

definition hit :: "'a strings \<Rightarrow> string \<Rightarrow> string \<Rightarrow> nat \<Rightarrow> bool" where
  "hit fsp w str strLength \<longleftrightarrow>
     starts w str strLength \<and> (must_end fsp w \<longrightarrow> c_at str (length w) = NUL)"

definition first_hit :: "'a strings \<Rightarrow> 'a scan" where
  "first_hit fsp str strLength = map_option snd (find (\<lambda>x. hit fsp (fst x) str strLength) fsp)"

text \<open>The word lists the generator is meant for.\<close>

definition recognizable :: "'a strings \<Rightarrow> bool" where
  "recognizable fsp \<longleftrightarrow>
     distinct (map fst fsp) \<and>
     list_all (\<lambda>(w, _). 2 \<le> length w \<and> NUL \<notin> set w \<and>
                list_all (\<lambda>i. c_at w i \<in> set next_chars) [0..<ACTIVATED_LEVELS]) fsp"

lemma recognizableD:
  assumes "recognizable fsp" and "(w, x) \<in> set fsp"
  shows "2 \<le> length w" and "NUL \<notin> set w" and "i < ACTIVATED_LEVELS \<Longrightarrow> c_at w i \<in> set next_chars"
proof -
  have w: "2 \<le> length w \<and> NUL \<notin> set w \<and> (\<forall>i\<in>set [0..<ACTIVATED_LEVELS]. c_at w i \<in> set next_chars)"
    using assms unfolding recognizable_def list_all_iff by fast
  then show "2 \<le> length w" and "NUL \<notin> set w" by simp_all
  from w show "i < ACTIVATED_LEVELS \<Longrightarrow> c_at w i \<in> set next_chars"
    by (metis atLeastLessThan_upt atLeastLessThan_iff zero_le)
qed

lemma words_find: "words ws str n = map_option snd (find (\<lambda>x. starts (fst x) str n) ws)"
  by (induction ws str n rule: words.induct) (auto simp: starts_def)

lemma find_filter: "(\<And>x. x \<in> set xs \<Longrightarrow> P x \<Longrightarrow> Q x) \<Longrightarrow> find P (filter Q xs) = find P xs"
  by (induction xs) auto

lemma find_cong: "(\<And>x. x \<in> set xs \<Longrightarrow> P x = Q x) \<Longrightarrow> find P xs = find Q xs"
  by (induction xs) auto

lemma toupper_accepted: "c \<in> set next_chars \<Longrightarrow> toupper c = c"
  by (simp add: next_chars_def acceptedChars_def) (elim disjE; simp add: toupper_def)

lemma toupper_NUL [simp]: "toupper c = NUL \<longleftrightarrow> c = NUL"
  by (metis tolower_NUL tolower_toupper)

lemma starts_nth:
  assumes "starts w str n" and "NUL \<notin> set w" and "i < length w"
  shows "toupper (c_at str i) = toupper (c_at w i)"
proof -
  have "length w \<le> length str" and "map tolower (take (length w) str) = map tolower w"
    using assms(1, 2) by (auto simp: starts_def strncaseeq_iff)
  then have "tolower (str ! i) = tolower (w ! i)"
    using assms(3) by (metis length_map nth_map nth_take)
  then have "toupper (tolower (str ! i)) = toupper (tolower (w ! i))" by simp
  then show ?thesis using assms(3) \<open>length w \<le> length str\<close> by (simp add: c_at_def)
qed

lemma hit_agrees:
  assumes "recognizable fsp" and "(w, x) \<in> set fsp" and "hit fsp w str n"
    and "i < length w \<and> i < ACTIVATED_LEVELS \<or> i = length w \<and> must_end fsp w"
  shows "c_at w i = toupper (c_at str i)"
proof -
  note w = recognizableD [OF assms(1, 2)]
  show ?thesis
  proof (cases "i < length w")
    case True
    then show ?thesis
      using starts_nth [of w str n i] assms(3, 4) w(2) w(3) [of i] toupper_accepted [of "c_at w i"] by (auto simp: hit_def)
  next
    case False
    then have "c_at str i = NUL" using assms(3, 4) by (auto simp: hit_def)
    then show ?thesis using False by (simp add: c_at_def toupper_def)
  qed
qed


text \<open>The strings left at a level: those whose first characters are those of the input.\<close>

definition group :: "'a strings \<Rightarrow> string \<Rightarrow> nat \<Rightarrow> 'a strings" where
  "group fsp str level = filter (\<lambda>x. \<forall>i<level. c_at (fst x) i = toupper (c_at str i)) fsp"

lemma group_Suc:
  "filter (\<lambda>(w, _). c_at w level = toupper (c_at str level)) (group fsp str level) = group fsp str (Suc level)"
  by (auto simp: group_def less_Suc_eq intro!: filter_cong)

lemma find_group:
  assumes "\<And>w x. (w, x) \<in> set fsp \<Longrightarrow> hit fsp w str n \<Longrightarrow> (w, x) \<in> set (group fsp str level)"
  shows "find (\<lambda>x. hit fsp (fst x) str n) fsp = find (\<lambda>x. hit fsp (fst x) str n) (group fsp str level)"
  using assms unfolding group_def by (subst find_filter) force+

lemma map_of_cases:
  "map_of (exec_cases (map (\<lambda>ch. (ch, f ch)) cs)) c = (if c \<in> set cs then Some (exec (f c)) else None)"
  by (induction cs) auto

lemma exec_gen:
  assumes ok: "recognizable fsp" and "level < ACTIVATED_LEVELS"
  shows "exec (gen (group fsp str level) level) str n = first_hit fsp str n"
  using assms(2)
proof (induction "ACTIVATED_LEVELS - level" arbitrary: level)
  case (Suc d)
  let ?g = "group fsp str level" and ?hit = "\<lambda>x. hit fsp (fst x) str n"
  have early: "i < length w" if "(w, x) \<in> set fsp" "i < level" for w x i
    using recognizableD(1) [OF ok that(1)] that(2) Suc.prems by (auto simp: ACTIVATED_LEVELS_def)
  have in_group: "(w, x) \<in> set ?g" if "(w, x) \<in> set fsp" "hit fsp w str n" for w x
    using that early Suc.prems by (auto simp: group_def intro!: hit_agrees [OF ok])
  have first: "first_hit fsp str n = map_option snd (find ?hit ?g)"
    unfolding first_hit_def using in_group by (subst find_group [of fsp str n level]) auto
  have no_ext: "\<not> must_end fsp w" if g: "?g = [(w, x)]" for w x
  proof
    assume m: "must_end fsp w"
    then obtain v y where v: "(v, y) \<in> set fsp" "v \<noteq> w" "take (length w) v = w"
      by (auto simp: must_end_def list_ex_iff)
    have w: "(w, x) \<in> set ?g" using g by simp
    then have wf: "(w, x) \<in> set fsp" by (auto simp: group_def)
    have "c_at v i = c_at w i" if "i < level" for i
      using early [OF wf that] v(3) by (metis c_at_def nth_take length_take min_less_iff_conj)
    then have "(v, y) \<in> set ?g" using v(1) w by (auto simp: group_def)
    then show False using g v(2) by simp
  qed
  show ?case
  proof (cases "length ?g > 1")
    case False
    then consider "?g = []" | w x where "?g = [(w, x)]" by (cases ?g; cases "tl ?g") auto
    then show ?thesis
    proof cases
      case 1
      then show ?thesis using Suc.prems by (subst gen.simps) (simp add: first)
    next
      case 2
      then have "hit fsp w str n = starts w str n" using no_ext by (simp add: hit_def)
      then show ?thesis using 2 Suc.prems by (subst gen.simps) (auto simp: first word_def starts_def)
    qed
  next
    case True
    let ?c = "toupper (c_at str level)"
    let ?ext = "\<lambda>w. length w \<le> level \<longrightarrow> must_end fsp w"
    have ext: "must_end fsp w" if w: "(w, x) \<in> set ?g" and l: "length w \<le> level" for w x
    proof -
      have wf: "(w, x) \<in> set fsp" using w by (auto simp: group_def)
      have l2: "length w = level" using early [OF wf, of "length w"] l by (cases "length w < level") auto
      have dist: "distinct (map fst ?g)"
        using ok by (auto simp: recognizable_def group_def intro: distinct_map_filter)
      then obtain v y where v: "(v, y) \<in> set ?g" "v \<noteq> w"
        using True w by (cases ?g; cases "tl ?g") (auto, (metis fst_conv prod.collapse)+)
      then have vf: "(v, y) \<in> set fsp" by (auto simp: group_def)
      have "take (length w) v = w"
      proof (rule nth_equalityI)
        show "length (take (length w) v) = length w"
          using early [OF vf, of "level - 1"] recognizableD(1) [OF ok wf] l2 by simp
        fix i assume "i < length (take (length w) v)"
        then have i: "i < level" "i < length v" "i < length w" using l2 by auto
        have "c_at v i = c_at w i" using v(1) w i(1) by (auto simp: group_def)
        then show "take (length w) v ! i = w ! i" using i by (simp add: c_at_def)
      qed
      then show ?thesis using v(2) vf l2 Suc.prems by (auto simp: must_end_def list_ex_iff)
    qed
    have next_char: "c_at w level = ?c" if "(w, x) \<in> set fsp" "hit fsp w str n" for w x
    proof (cases "level < length w")
      case True
      then show ?thesis using that Suc.prems by (intro hit_agrees [OF ok that]) simp
    next
      case False
      then have "must_end fsp w" using ext in_group [OF that] by simp
      moreover have "level = length w"
        using False early [OF that(1), of "length w"] by (cases "length w < level") auto
      ultimately show ?thesis by (intro hit_agrees [OF ok that]) simp
    qed
    have step: "exec (gen ?g level) str n
        = (if ?c \<in> set next_chars \<and> (\<exists>x\<in>set ?g. c_at (fst x) level = ?c)
           then exec (gen (group fsp str (Suc level)) (Suc level)) str n else None)"
      using True Suc.prems
      by (subst gen.simps)
        (auto simp: switch_def map_of_cases list_ex_iff case_prod_unfold group_Suc [unfolded case_prod_unfold])
    have none: "first_hit fsp str n = None"
      if "\<not> (?c \<in> set next_chars \<and> (\<exists>x\<in>set ?g. c_at (fst x) level = ?c))"
    proof -
      have "\<not> ?hit x" if "x \<in> set fsp" for x
        using next_char [of "fst x" "snd x"] in_group [of "fst x" "snd x"] that
          recognizableD(3) [OF ok, of "fst x" "snd x" level] Suc.prems
          \<open>\<not> (?c \<in> set next_chars \<and> (\<exists>x\<in>set ?g. c_at (fst x) level = ?c))\<close>
        by (metis prod.collapse)
      then show ?thesis by (auto simp: first_hit_def find_None_iff)
    qed
    show ?thesis
    proof (cases "Suc level < ACTIVATED_LEVELS")
      case lt: True
      then show ?thesis using step none Suc.hyps(1) [of "Suc level"] Suc.hyps(2) by auto
    next
      case False
      then have lev: "Suc level = ACTIVATED_LEVELS" using Suc.prems by simp
      let ?h = "group fsp str (Suc level)"
      have "find ?hit fsp = find ?hit ?h"
        using next_char in_group by (intro find_group) (auto simp: group_def less_Suc_eq)
      also have "\<dots> = find (\<lambda>x. starts (fst x) str n) ?h"
      proof (rule find_cong)
        fix x assume x: "x \<in> set ?h"
        show "?hit x = starts (fst x) str n"
        proof (cases "must_end fsp (fst x)")
          case True
          then have "length (fst x) < Suc level" using lev by (simp add: must_end_def)
          then have "toupper (c_at str (length (fst x))) = c_at (fst x) (length (fst x))"
            using x by (simp add: group_def)
          then show ?thesis by (simp add: hit_def c_at_def [of "fst x"])
        qed (simp add: hit_def)
      qed
      finally have "first_hit fsp str n = words ?h str n" by (simp add: first_hit_def words_find)
      moreover have "gen ?h (Suc level) = Chain ?h" using lev by (subst gen.simps) simp
      ultimately show ?thesis using step none by auto
    qed
  qed
qed simp

lemma recursiveTraverser_gen:
  assumes "recognizable fsp"
  shows "recursiveTraverser fsp [] 0 = gen fsp 0"
proof -
  have "recursiveTraverser fsp [] 0 = gen (filter (\<lambda>x. agrees (fst x) [] 0) fsp) 0"
  proof (rule traverser_gen)
    show "\<forall>x\<in>set fsp. \<forall>i<ACTIVATED_LEVELS. c_at (fst x) i \<in> set next_chars"
      using recognizableD(3) [OF assms] by (metis prod.collapse)
  qed (simp_all add: ACTIVATED_LEVELS_def)
  then show ?thesis by simp
qed

lemma recursiveTraverser_hit:
  assumes "recognizable fsp"
  shows "exec (recursiveTraverser fsp [] 0) str n = first_hit fsp str n"
  using exec_gen [OF assms, of 0 str n] recursiveTraverser_gen [OF assms]
  by (simp add: ACTIVATED_LEVELS_def group_def)

section \<open>The exported function\<close>

lemma addStrings_contents:
  "contents (foldl fastStringParser_addString fsp ws) = contents fsp @ ws"
  by (induction ws arbitrary: fsp) (simp_all add: fastStringParser_addString_def Let_def)

lemma addStrings_shortest:
  assumes "\<forall>x\<in>set (contents fsp). shortestStringLength fsp \<le> length (fst x)"
  shows "\<forall>x\<in>set (contents (foldl fastStringParser_addString fsp ws)).
           shortestStringLength (foldl fastStringParser_addString fsp ws) \<le> length (fst x)"
  using assms
proof (induction ws arbitrary: fsp)
  case (Cons w ws)
  have "\<forall>x\<in>set (contents (fastStringParser_addString fsp w)).
      shortestStringLength (fastStringParser_addString fsp w) \<le> length (fst x)"
    using Cons.prems by (auto simp: fastStringParser_addString_def Let_def)
  then show ?case using Cons.IH by simp
qed simp

abbreviation loaded :: "'a strings \<Rightarrow> 'a strings" where
  "loaded file_lines \<equiv> map (\<lambda>(line, ident). (strip_eol line, ident)) file_lines"

lemma createRules_contents: "contents (fastSTringParser_createRulesFromFile file_lines) = loaded file_lines"
  by (simp add: fastSTringParser_createRulesFromFile_def addStrings_contents fastStringParser_initialize_def)

lemma createRules_shortest:
  "x \<in> set (loaded file_lines) \<Longrightarrow>
     shortestStringLength (fastSTringParser_createRulesFromFile file_lines) \<le> length (fst x)"
  using addStrings_shortest [of fastStringParser_initialize "loaded file_lines"]
    createRules_contents [of file_lines]
  unfolding fastSTringParser_createRulesFromFile_def fastStringParser_initialize_def
  by (metis (no_types, lifting) empty_iff fastStringParser.select_convs(1) list.set(1))

lemma scanner_first_hit:
  assumes "\<And>x. x \<in> set fsp \<Longrightarrow> lo \<le> length (fst x)" and "recognizable fsp"
  shows "scanner lo nothing (exec (recursiveTraverser fsp [] 0)) (Some s) n
       = (case first_hit fsp s n of None \<Rightarrow> nothing | Some ident \<Rightarrow> ident)"
proof (cases "n < lo")
  case True
  then have "\<not> hit fsp (fst x) s n" if "x \<in> set fsp" for x
    using assms(1) [OF that] by (auto simp: hit_def starts_def)
  then have "first_hit fsp s n = None" by (auto simp: first_hit_def find_None_iff)
  then show ?thesis using True by (simp add: scanner_def)
next
  case False
  then show ?thesis by (simp add: scanner_def recursiveTraverser_hit [OF assms(2)])
qed

section \<open>The shipped scanners\<close>

text \<open>The word files of \<open>src/StringRecognizer\<close>.\<close>

definition firstLines_strings :: "firstLines strings" where
  "firstLines_strings =
    [(''GET'', FIRSTLINES_GET), (''HEAD'', FIRSTLINES_HEAD), (''POST'', FIRSTLINES_POST),
     (''PUT'', FIRSTLINES_PUT), (''DELETE'', FIRSTLINES_DELETE), (''TRACE'', FIRSTLINES_TRACE),
     (''OPTIONS'', FIRSTLINES_OPTIONS), (''CONNECT'', FIRSTLINES_CONNECT),
     (''PATCH'', FIRSTLINES_PATCH)]"

definition httpHeader_strings :: "httpHeader strings" where
  "httpHeader_strings =
    [(''AUTHORIZATION:'', HTTPHEADER_AUTHORIZATION),
     (''ACCEPT-ENCODING:'', HTTPHEADER_ACCEPT_ENCODING), (''COOKIE:'', HTTPHEADER_COOKIE),
     (''CONNECTION:'', HTTPHEADER_CONNECTION), (''HOST:'', HTTPHEADER_HOST),
     (''IF-NONE-MATCH:'', HTTPHEADER_IF_NONE_MATCH),
     (''IF-MODIFIED-SINCE:'', HTTPHEADER_IF_MODIFIED_SINCE),
     (''IF-UNMODIFIED-SINCE:'', HTTPHEADER_IF_UNMODIFIED_SINCE), (''EXPECT:'', HTTPHEADER_EXPECT),
     (''TRANSFER-ENCODING:'', HTTPHEADER_TRANSFER_ENCODING), (''RANGE:'', HTTPHEADER_RANGE),
     (''REFERRER:'', HTTPHEADER_REFERRER), (''REFERER:'', HTTPHEADER_REFERER),
     (''USER-AGENT:'', HTTPHEADER_USER_AGENT)]"

definition postHeader_strings :: "postHeader strings" where
  "postHeader_strings =
    [(''CONTENT-TYPE:'', POSTHEADER_CONTENT_TYPE),
     (''CONTENT-DISPOSITION:'', POSTHEADER_CONTENT_DISPOSITION),
     (''CONTENT-LENGTH:'', POSTHEADER_CONTENT_LENGTH),
     (''UPGRADE-INSECURE-REQUESTS:'', POSTHEADER_UPGRADE_INSECURE_REQUESTS),
     (''CONNECTION:'', POSTHEADER_CONNECTION)]"

definition configKeys_strings :: "configKeys strings" where
  "configKeys_strings =
    [(''TIMEOUT:'', CONFIGKEYS_TIMEOUT), (''KEEPALIVE:'', CONFIGKEYS_KEEPALIVE),
     (''LISTEN:'', CONFIGKEYS_LISTEN), (''RUNASPRIORITY:'', CONFIGKEYS_RUNASPRIORITY),
     (''RUNASUSER:'', CONFIGKEYS_RUNASUSER),
     (''IFUSERDOESNTEXISTRUNASUID:'', CONFIGKEYS_IFUSERDOESNTEXISTRUNASUID),
     (''CACHING:'', CONFIGKEYS_CACHING), (''MAXCACHESIZE:'', CONFIGKEYS_MAXCACHESIZE),
     (''MAXCACHESIZEFOREACHFILE:'', CONFIGKEYS_MAXCACHESIZEFOREACHFILE),
     (''MAXSEPERATECACHEITEMS:'', CONFIGKEYS_MAXSEPERATECACHEITEMS),
     (''ENABLEPOST:'', CONFIGKEYS_ENABLEPOST),
     (''MAXPOSTTRANSACTIONSIZE:'', CONFIGKEYS_MAXPOSTTRANSACTIONSIZE),
     (''KEEPALIVETIMEOUT:'', CONFIGKEYS_KEEPALIVETIMEOUT),
     (''MAXKEEPALIVEREQUESTS:'', CONFIGKEYS_MAXKEEPALIVEREQUESTS),
     (''STARTSERVERS:'', CONFIGKEYS_STARTSERVERS),
     (''MINSPARETHREADS:'', CONFIGKEYS_MINSPARETHREADS),
     (''MAXSPARETHREADS:'', CONFIGKEYS_MAXSPARETHREADS), (''THREADLIMIT:'', CONFIGKEYS_THREADLIMIT),
     (''MAXCLIENTS:'', CONFIGKEYS_MAXCLIENTS), (''FILECOMPRESSION:'', CONFIGKEYS_FILECOMPRESSION),
     (''DYNAMICCONTENTCOMPRESSION:'', CONFIGKEYS_DYNAMICCONTENTCOMPRESSION),
     (''REALLOCTOSAVEMORETHANTHISNUMBEROFBYTESWITHCOMPRESSION:'', CONFIGKEYS_REALLOCTOSAVEMORETHANTHISNUMBEROFBYTESWITHCOMPRESSION),
     (''DEFAULTTYPE:'', CONFIGKEYS_DEFAULTTYPE), (''SERVERADMIN:'', CONFIGKEYS_SERVERADMIN),
     (''DOCUMENTROOT:'', CONFIGKEYS_DOCUMENTROOT), (''SERVERTOKENS:'', CONFIGKEYS_SERVERTOKENS),
     (''SERVERSIGNATURE:'', CONFIGKEYS_SERVERSIGNATURE),
     (''DIRECTORYLISTING:'', CONFIGKEYS_DIRECTORYLISTING)]"

definition textFiles_strings :: "textFiles strings" where
  "textFiles_strings =
    [(''HTML'', TEXTFILES_HTML), (''HTM'', TEXTFILES_HTM), (''CSS'', TEXTFILES_CSS),
     (''TXT'', TEXTFILES_TXT), (''DOC'', TEXTFILES_DOC), (''RTF'', TEXTFILES_RTF),
     (''ODF'', TEXTFILES_ODF), (''ODT'', TEXTFILES_ODT)]"

definition imageFiles_strings :: "imageFiles strings" where
  "imageFiles_strings =
    [(''GIF'', IMAGEFILES_GIF), (''PNG'', IMAGEFILES_PNG), (''JPG'', IMAGEFILES_JPG),
     (''JPEG'', IMAGEFILES_JPEG), (''WEBP'', IMAGEFILES_WEBP), (''BMP'', IMAGEFILES_BMP),
     (''TIFF'', IMAGEFILES_TIFF), (''DIB'', IMAGEFILES_DIB), (''RLE'', IMAGEFILES_RLE),
     (''J2C'', IMAGEFILES_J2C), (''ICO'', IMAGEFILES_ICO), (''PPM'', IMAGEFILES_PPM),
     (''PNM'', IMAGEFILES_PNM), (''RAW'', IMAGEFILES_RAW), (''SVG'', IMAGEFILES_SVG)]"

definition videoFiles_strings :: "videoFiles strings" where
  "videoFiles_strings =
    [(''AVI'', VIDEOFILES_AVI), (''MPEG4'', VIDEOFILES_MPEG4), (''MPEG'', VIDEOFILES_MPEG),
     (''MP4'', VIDEOFILES_MP4), (''WEBM'', VIDEOFILES_WEBM), (''OGV'', VIDEOFILES_OGV),
     (''MKV'', VIDEOFILES_MKV), (''3GP'', VIDEOFILES_3GP), (''H263'', VIDEOFILES_H263),
     (''H264'', VIDEOFILES_H264), (''FLV'', VIDEOFILES_FLV)]"

definition audioFiles_strings :: "audioFiles strings" where
  "audioFiles_strings =
    [(''MP3'', AUDIOFILES_MP3), (''WAV'', AUDIOFILES_WAV), (''MID'', AUDIOFILES_MID),
     (''OGG'', AUDIOFILES_OGG), (''VOC'', AUDIOFILES_VOC), (''AU'', AUDIOFILES_AU)]"

definition applicationFiles_strings :: "applicationFiles strings" where
  "applicationFiles_strings =
    [(''EXE'', APPLICATIONFILES_EXE), (''DLL'', APPLICATIONFILES_DLL),
     (''SCR'', APPLICATIONFILES_SCR), (''CPL'', APPLICATIONFILES_CPL),
     (''SWF'', APPLICATIONFILES_SWF), (''PDF'', APPLICATIONFILES_PDF),
     (''JSON'', APPLICATIONFILES_JSON), (''JS'', APPLICATIONFILES_JS)]"

definition archiveFiles_strings :: "archiveFiles strings" where
  "archiveFiles_strings =
    [(''7Z'', ARCHIVEFILES_7Z), (''AR'', ARCHIVEFILES_AR), (''BZ2'', ARCHIVEFILES_BZ2),
     (''CBZ'', ARCHIVEFILES_CBZ), (''CPIO'', ARCHIVEFILES_CPIO), (''GZ'', ARCHIVEFILES_GZ),
     (''ISO'', ARCHIVEFILES_ISO), (''JAR'', ARCHIVEFILES_JAR), (''LZMA'', ARCHIVEFILES_LZMA),
     (''TAR'', ARCHIVEFILES_TAR), (''TGZ'', ARCHIVEFILES_TGZ), (''TAR.7Z'', ARCHIVEFILES_TAR_7Z),
     (''TAR.Z'', ARCHIVEFILES_TAR_Z), (''TAR.GZ'', ARCHIVEFILES_TAR_GZ),
     (''TAR.BZ2'', ARCHIVEFILES_TAR_BZ2), (''TAR.BZ'', ARCHIVEFILES_TAR_BZ),
     (''TAR.LZ'', ARCHIVEFILES_TAR_LZ), (''TAR.LZMA'', ARCHIVEFILES_TAR_LZMA),
     (''TAR.XZ'', ARCHIVEFILES_TAR_XZ), (''XZ'', ARCHIVEFILES_XZ), (''ZIP'', ARCHIVEFILES_ZIP)]"

lemmas eval_scanner = gen.simps ACTIVATED_LEVELS_def c_at_def next_chars_def acceptedChars_def numeral_2_eq_2

lemma shipped:
  assumes "recognizable fsp" and "loaded fsp = fsp"
    and "shortestStringLength (fastSTringParser_createRulesFromFile fsp) = lo"
    and "f = scanner lo nothing (exec (gen fsp 0))"
  shows "f = export_C_Scanner (fastSTringParser_createRulesFromFile fsp) nothing"
  using assms by (simp add: export_C_Scanner_def createRules_contents recursiveTraverser_gen)

lemma shipped_firstLines:
  shows "recognizable firstLines_strings" (is ?ok)
    and "loaded firstLines_strings = firstLines_strings" (is ?loaded)
    and "scanFor_firstLines = export_C_Scanner (fastSTringParser_createRulesFromFile firstLines_strings) FIRSTLINES_EMPTY" (is ?gen)
proof -
  show ok: ?ok by code_simp
  show loaded: ?loaded by code_simp
  have shortest: "shortestStringLength (fastSTringParser_createRulesFromFile firstLines_strings) = 3" by code_simp
  have "scanFor_firstLines = scanner 3 FIRSTLINES_EMPTY (exec (gen firstLines_strings 0))"
    by (simp add: scanFor_firstLines_def firstLines_strings_def eval_scanner)
  then show ?gen by (rule shipped [OF ok loaded shortest])
qed

lemma shipped_httpHeader:
  shows "recognizable httpHeader_strings" (is ?ok)
    and "loaded httpHeader_strings = httpHeader_strings" (is ?loaded)
    and "scanFor_httpHeader = export_C_Scanner (fastSTringParser_createRulesFromFile httpHeader_strings) HTTPHEADER_EMPTY" (is ?gen)
proof -
  show ok: ?ok by code_simp
  show loaded: ?loaded by code_simp
  have shortest: "shortestStringLength (fastSTringParser_createRulesFromFile httpHeader_strings) = 5" by code_simp
  have "scanFor_httpHeader = scanner 5 HTTPHEADER_EMPTY (exec (gen httpHeader_strings 0))"
    by (simp add: scanFor_httpHeader_def httpHeader_strings_def eval_scanner)
  then show ?gen by (rule shipped [OF ok loaded shortest])
qed

lemma shipped_postHeader:
  shows "recognizable postHeader_strings" (is ?ok)
    and "loaded postHeader_strings = postHeader_strings" (is ?loaded)
    and "scanFor_postHeader = export_C_Scanner (fastSTringParser_createRulesFromFile postHeader_strings) POSTHEADER_EMPTY" (is ?gen)
proof -
  show ok: ?ok by code_simp
  show loaded: ?loaded by code_simp
  have shortest: "shortestStringLength (fastSTringParser_createRulesFromFile postHeader_strings) = 11" by code_simp
  have "scanFor_postHeader = scanner 11 POSTHEADER_EMPTY (exec (gen postHeader_strings 0))"
    by (simp add: scanFor_postHeader_def postHeader_strings_def eval_scanner)
  then show ?gen by (rule shipped [OF ok loaded shortest])
qed

lemma shipped_configKeys:
  shows "recognizable configKeys_strings" (is ?ok)
    and "loaded configKeys_strings = configKeys_strings" (is ?loaded)
    and "scanFor_configKeys = export_C_Scanner (fastSTringParser_createRulesFromFile configKeys_strings) CONFIGKEYS_EMPTY" (is ?gen)
proof -
  show ok: ?ok by code_simp
  show loaded: ?loaded by code_simp
  have shortest: "shortestStringLength (fastSTringParser_createRulesFromFile configKeys_strings) = 7" by code_simp
  have "scanFor_configKeys = scanner 7 CONFIGKEYS_EMPTY (exec (gen configKeys_strings 0))"
    by (simp add: scanFor_configKeys_def configKeys_strings_def eval_scanner)
  then show ?gen by (rule shipped [OF ok loaded shortest])
qed

lemma shipped_textFiles:
  shows "recognizable textFiles_strings" (is ?ok)
    and "loaded textFiles_strings = textFiles_strings" (is ?loaded)
    and "scanFor_textFiles = export_C_Scanner (fastSTringParser_createRulesFromFile textFiles_strings) TEXTFILES_EMPTY" (is ?gen)
proof -
  show ok: ?ok by code_simp
  show loaded: ?loaded by code_simp
  have shortest: "shortestStringLength (fastSTringParser_createRulesFromFile textFiles_strings) = 3" by code_simp
  have "scanFor_textFiles = scanner 3 TEXTFILES_EMPTY (exec (gen textFiles_strings 0))"
    by (simp add: scanFor_textFiles_def textFiles_strings_def eval_scanner)
  then show ?gen by (rule shipped [OF ok loaded shortest])
qed

lemma shipped_imageFiles:
  shows "recognizable imageFiles_strings" (is ?ok)
    and "loaded imageFiles_strings = imageFiles_strings" (is ?loaded)
    and "scanFor_imageFiles = export_C_Scanner (fastSTringParser_createRulesFromFile imageFiles_strings) IMAGEFILES_EMPTY" (is ?gen)
proof -
  show ok: ?ok by code_simp
  show loaded: ?loaded by code_simp
  have shortest: "shortestStringLength (fastSTringParser_createRulesFromFile imageFiles_strings) = 3" by code_simp
  have "scanFor_imageFiles = scanner 3 IMAGEFILES_EMPTY (exec (gen imageFiles_strings 0))"
    by (simp add: scanFor_imageFiles_def imageFiles_strings_def eval_scanner)
  then show ?gen by (rule shipped [OF ok loaded shortest])
qed

lemma shipped_videoFiles:
  shows "recognizable videoFiles_strings" (is ?ok)
    and "loaded videoFiles_strings = videoFiles_strings" (is ?loaded)
    and "scanFor_videoFiles = export_C_Scanner (fastSTringParser_createRulesFromFile videoFiles_strings) VIDEOFILES_EMPTY" (is ?gen)
proof -
  show ok: ?ok by code_simp
  show loaded: ?loaded by code_simp
  have shortest: "shortestStringLength (fastSTringParser_createRulesFromFile videoFiles_strings) = 3" by code_simp
  have "scanFor_videoFiles = scanner 3 VIDEOFILES_EMPTY (exec (gen videoFiles_strings 0))"
    by (simp add: scanFor_videoFiles_def videoFiles_strings_def eval_scanner)
  then show ?gen by (rule shipped [OF ok loaded shortest])
qed

lemma shipped_audioFiles:
  shows "recognizable audioFiles_strings" (is ?ok)
    and "loaded audioFiles_strings = audioFiles_strings" (is ?loaded)
    and "scanFor_audioFiles = export_C_Scanner (fastSTringParser_createRulesFromFile audioFiles_strings) AUDIOFILES_EMPTY" (is ?gen)
proof -
  show ok: ?ok by code_simp
  show loaded: ?loaded by code_simp
  have shortest: "shortestStringLength (fastSTringParser_createRulesFromFile audioFiles_strings) = 2" by code_simp
  have "scanFor_audioFiles = scanner 2 AUDIOFILES_EMPTY (exec (gen audioFiles_strings 0))"
    by (simp add: scanFor_audioFiles_def audioFiles_strings_def eval_scanner)
  then show ?gen by (rule shipped [OF ok loaded shortest])
qed

lemma shipped_applicationFiles:
  shows "recognizable applicationFiles_strings" (is ?ok)
    and "loaded applicationFiles_strings = applicationFiles_strings" (is ?loaded)
    and "scanFor_applicationFiles = export_C_Scanner (fastSTringParser_createRulesFromFile applicationFiles_strings) APPLICATIONFILES_EMPTY" (is ?gen)
proof -
  show ok: ?ok by code_simp
  show loaded: ?loaded by code_simp
  have shortest: "shortestStringLength (fastSTringParser_createRulesFromFile applicationFiles_strings) = 2" by code_simp
  have "scanFor_applicationFiles = scanner 2 APPLICATIONFILES_EMPTY (exec (gen applicationFiles_strings 0))"
    by (simp add: scanFor_applicationFiles_def applicationFiles_strings_def eval_scanner)
  then show ?gen by (rule shipped [OF ok loaded shortest])
qed

lemma shipped_archiveFiles:
  shows "recognizable archiveFiles_strings" (is ?ok)
    and "loaded archiveFiles_strings = archiveFiles_strings" (is ?loaded)
    and "scanFor_archiveFiles = export_C_Scanner (fastSTringParser_createRulesFromFile archiveFiles_strings) ARCHIVEFILES_EMPTY" (is ?gen)
proof -
  show ok: ?ok by code_simp
  show loaded: ?loaded by code_simp
  have shortest: "shortestStringLength (fastSTringParser_createRulesFromFile archiveFiles_strings) = 2" by code_simp
  have "scanFor_archiveFiles = scanner 2 ARCHIVEFILES_EMPTY (exec (gen archiveFiles_strings 0))"
    by (simp add: scanFor_archiveFiles_def archiveFiles_strings_def eval_scanner)
  then show ?gen by (rule shipped [OF ok loaded shortest])
qed

lemma scanFor_first_hit:
  assumes "f = export_C_Scanner (fastSTringParser_createRulesFromFile fsp) nothing"
    and "recognizable fsp" and "loaded fsp = fsp"
  shows "f (Some s) n = (case first_hit fsp s n of None \<Rightarrow> nothing | Some ident \<Rightarrow> ident)"
  using scanner_first_hit [of fsp _ nothing s n] createRules_shortest [of _ fsp] assms
  by (simp add: export_C_Scanner_def createRules_contents)

section \<open>Properties\<close>



text \<open>
  C25: The ten scanners in \<open>src/AmmServerlib/stringscanners\<close> are what the generator makes of
  the ten word files in \<open>src/StringRecognizer\<close>: same switches, same tests, same order.
\<close>

theorem scanners_generated:
  "scanFor_firstLines = export_C_Scanner (fastSTringParser_createRulesFromFile firstLines_strings) FIRSTLINES_EMPTY
   \<and> scanFor_httpHeader = export_C_Scanner (fastSTringParser_createRulesFromFile httpHeader_strings) HTTPHEADER_EMPTY
   \<and> scanFor_postHeader = export_C_Scanner (fastSTringParser_createRulesFromFile postHeader_strings) POSTHEADER_EMPTY
   \<and> scanFor_configKeys = export_C_Scanner (fastSTringParser_createRulesFromFile configKeys_strings) CONFIGKEYS_EMPTY
   \<and> scanFor_textFiles = export_C_Scanner (fastSTringParser_createRulesFromFile textFiles_strings) TEXTFILES_EMPTY
   \<and> scanFor_imageFiles = export_C_Scanner (fastSTringParser_createRulesFromFile imageFiles_strings) IMAGEFILES_EMPTY
   \<and> scanFor_videoFiles = export_C_Scanner (fastSTringParser_createRulesFromFile videoFiles_strings) VIDEOFILES_EMPTY
   \<and> scanFor_audioFiles = export_C_Scanner (fastSTringParser_createRulesFromFile audioFiles_strings) AUDIOFILES_EMPTY
   \<and> scanFor_applicationFiles = export_C_Scanner (fastSTringParser_createRulesFromFile applicationFiles_strings) APPLICATIONFILES_EMPTY
   \<and> scanFor_archiveFiles = export_C_Scanner (fastSTringParser_createRulesFromFile archiveFiles_strings) ARCHIVEFILES_EMPTY"
  using shipped_firstLines(3) shipped_httpHeader(3) shipped_postHeader(3) shipped_configKeys(3) shipped_textFiles(3)
    shipped_imageFiles(3) shipped_videoFiles(3) shipped_audioFiles(3) shipped_applicationFiles(3) shipped_archiveFiles(3)
  by blast

end
