(* ===== verification/MimeTypes.thy ===== *)
theory MimeTypes
  imports StringRecognizer
begin

text \<open>
  Content types of files (\<open>GetContentTypeForExtension\<close>, \<open>GetExtentionType\<close>, \<open>GetContentType\<close>,
  \<open>GetExtensionImage\<close> and the \<open>CheckIfFileIs\<close> functions of
  \<open>src/AmmServerlib/tools/http_tools.c\<close>).  A type buffer is what it holds and its size in
  bytes; a function that answers 0 leaves the buffer as it was, and writing past its size is
  \<open>Out_of_bounds\<close>.  File names and extensions are C strings: lists without a NUL.
\<close>

section \<open>The code\<close>

definition textFiles_type :: "textFiles \<Rightarrow> string option" where
  "textFiles_type ext =
     (case ext of
        TEXTFILES_HTML \<Rightarrow> Some ''text/html''
      | TEXTFILES_HTM \<Rightarrow> Some ''text/html''
      | TEXTFILES_CSS \<Rightarrow> Some ''text/css''
      | TEXTFILES_TXT \<Rightarrow> Some ''text/txt''
      | TEXTFILES_DOC \<Rightarrow> Some ''text/doc''
      | TEXTFILES_RTF \<Rightarrow> Some ''text/rtf''
      | TEXTFILES_ODF \<Rightarrow> Some ''text/odf''
      | TEXTFILES_ODT \<Rightarrow> Some ''text/odt''
      | TEXTFILES_EMPTY \<Rightarrow> None)"

definition imageFiles_type :: "imageFiles \<Rightarrow> string option" where
  "imageFiles_type ext =
     (case ext of
        IMAGEFILES_GIF \<Rightarrow> Some ''image/gif''
      | IMAGEFILES_PNG \<Rightarrow> Some ''image/png''
      | IMAGEFILES_JPG \<Rightarrow> Some ''image/jpg''
      | IMAGEFILES_JPEG \<Rightarrow> Some ''image/jpg''
      | IMAGEFILES_WEBP \<Rightarrow> Some ''image/webp''
      | IMAGEFILES_BMP \<Rightarrow> Some ''image/bmp''
      | IMAGEFILES_TIFF \<Rightarrow> Some ''image/tiff''
      | IMAGEFILES_DIB \<Rightarrow> Some ''image/dib''
      | IMAGEFILES_RLE \<Rightarrow> Some ''image/rle''
      | IMAGEFILES_J2C \<Rightarrow> Some ''image/j2c''
      | IMAGEFILES_ICO \<Rightarrow> Some ''image/ico''
      | IMAGEFILES_PPM \<Rightarrow> Some ''image/ppm''
      | IMAGEFILES_PNM \<Rightarrow> Some ''image/pnm''
      | IMAGEFILES_RAW \<Rightarrow> Some ''image/raw''
      | IMAGEFILES_SVG \<Rightarrow> Some ''image/svg+xml''
      | IMAGEFILES_EMPTY \<Rightarrow> None)"

definition videoFiles_type :: "videoFiles \<Rightarrow> string option" where
  "videoFiles_type ext =
     (case ext of
        VIDEOFILES_AVI \<Rightarrow> Some ''video/mp4''
      | VIDEOFILES_MPEG4 \<Rightarrow> Some ''video/mp4''
      | VIDEOFILES_MPEG \<Rightarrow> Some ''video/mp4''
      | VIDEOFILES_MP4 \<Rightarrow> Some ''video/mp4''
      | VIDEOFILES_OGV \<Rightarrow> Some ''video/ogv''
      | VIDEOFILES_WEBM \<Rightarrow> Some ''video/webm''
      | VIDEOFILES_MKV \<Rightarrow> Some ''video/mkv''
      | VIDEOFILES_3GP \<Rightarrow> Some ''video/3gp''
      | VIDEOFILES_H263 \<Rightarrow> Some ''video/h263''
      | VIDEOFILES_H264 \<Rightarrow> Some ''video/h264''
      | VIDEOFILES_FLV \<Rightarrow> Some ''video/x-flv''
      | VIDEOFILES_EMPTY \<Rightarrow> None)"

definition audioFiles_type :: "audioFiles \<Rightarrow> string option" where
  "audioFiles_type ext =
     (case ext of
        AUDIOFILES_MP3 \<Rightarrow> Some ''audio/mp3''
      | AUDIOFILES_WAV \<Rightarrow> Some ''audio/wav''
      | AUDIOFILES_MID \<Rightarrow> Some ''audio/mid''
      | AUDIOFILES_OGG \<Rightarrow> Some ''audio/ogg''
      | AUDIOFILES_VOC \<Rightarrow> Some ''audio/voc''
      | AUDIOFILES_AU \<Rightarrow> Some ''audio/au''
      | AUDIOFILES_EMPTY \<Rightarrow> None)"

definition applicationFiles_type :: "applicationFiles \<Rightarrow> string option" where
  "applicationFiles_type ext =
     (case ext of
        APPLICATIONFILES_EXE \<Rightarrow> Some ''application/exe''
      | APPLICATIONFILES_DLL \<Rightarrow> Some ''application/exe''
      | APPLICATIONFILES_SCR \<Rightarrow> Some ''application/exe''
      | APPLICATIONFILES_CPL \<Rightarrow> Some ''application/exe''
      | APPLICATIONFILES_SWF \<Rightarrow> Some ''application/x-shockwave-flash''
      | APPLICATIONFILES_PDF \<Rightarrow> Some ''application/pdf''
      | APPLICATIONFILES_JSON \<Rightarrow> Some ''application/json''
      | APPLICATIONFILES_JS \<Rightarrow> Some ''application/javascript''
      | APPLICATIONFILES_EMPTY \<Rightarrow> None)"

definition archiveFiles_type :: "archiveFiles \<Rightarrow> string option" where
  "archiveFiles_type ext =
     (case ext of
        ARCHIVEFILES_GZ \<Rightarrow> Some ''application/gzip''
      | ARCHIVEFILES_TAR \<Rightarrow> Some ''application/x-tar''
      | ARCHIVEFILES_TGZ \<Rightarrow> Some ''application/gnutar''
      | ARCHIVEFILES_ZIP \<Rightarrow> Some ''application/zip''
      | ARCHIVEFILES_JAR \<Rightarrow> Some ''application/octet-stream''
      | ARCHIVEFILES_7Z \<Rightarrow> Some ''application/octet-stream''
      | ARCHIVEFILES_AR \<Rightarrow> Some ''application/octet-stream''
      | ARCHIVEFILES_BZ2 \<Rightarrow> Some ''application/octet-stream''
      | ARCHIVEFILES_CBZ \<Rightarrow> Some ''application/octet-stream''
      | ARCHIVEFILES_CPIO \<Rightarrow> Some ''application/octet-stream''
      | ARCHIVEFILES_ISO \<Rightarrow> Some ''application/octet-stream''
      | ARCHIVEFILES_LZMA \<Rightarrow> Some ''application/octet-stream''
      | ARCHIVEFILES_TAR_7Z \<Rightarrow> Some ''application/octet-stream''
      | ARCHIVEFILES_TAR_Z \<Rightarrow> Some ''application/octet-stream''
      | ARCHIVEFILES_TAR_GZ \<Rightarrow> Some ''application/octet-stream''
      | ARCHIVEFILES_TAR_BZ2 \<Rightarrow> Some ''application/octet-stream''
      | ARCHIVEFILES_TAR_BZ \<Rightarrow> Some ''application/octet-stream''
      | ARCHIVEFILES_TAR_LZ \<Rightarrow> Some ''application/octet-stream''
      | ARCHIVEFILES_TAR_LZMA \<Rightarrow> Some ''application/octet-stream''
      | ARCHIVEFILES_TAR_XZ \<Rightarrow> Some ''application/octet-stream''
      | ARCHIVEFILES_XZ \<Rightarrow> Some ''application/octet-stream''
      | ARCHIVEFILES_EMPTY \<Rightarrow> None)"

definition strcaseeq :: "string \<Rightarrow> string \<Rightarrow> bool" where
  "strcaseeq s t \<longleftrightarrow> map tolower s = map tolower t"

text \<open>The type the switches copy into the buffer, in their order.\<close>

definition extension_type :: "string \<Rightarrow> string option" where
  "extension_type theextension =
     (let str = Some theextension; n = length theextension
      in case textFiles_type (scanFor_textFiles str n) of Some t \<Rightarrow> Some t | None \<Rightarrow>
        (case imageFiles_type (scanFor_imageFiles str n) of Some t \<Rightarrow> Some t | None \<Rightarrow>
        (case videoFiles_type (scanFor_videoFiles str n) of Some t \<Rightarrow> Some t | None \<Rightarrow>
        (case audioFiles_type (scanFor_audioFiles str n) of Some t \<Rightarrow> Some t | None \<Rightarrow>
        (case applicationFiles_type (scanFor_applicationFiles str n) of Some t \<Rightarrow> Some t | None \<Rightarrow>
         archiveFiles_type (scanFor_archiveFiles str n))))))"

text \<open>\<open>strcpy\<close> writes the type and its NUL; \<open>snprintf\<close> cuts to the size.\<close>

definition GetContentTypeForExtension :: "string \<Rightarrow> string \<Rightarrow> nat \<Rightarrow> (string \<times> bool) checked" where
  "GetContentTypeForExtension theextension content_type contentTypeLength =
     (if contentTypeLength < 29 then Inr (content_type, False)
      else
        (case extension_type theextension of
           Some t \<Rightarrow> if length t + 1 > contentTypeLength then Inl Out_of_bounds else Inr (t, True)
         | None \<Rightarrow>
             if strcaseeq theextension ''bin'' \<or> strcaseeq theextension ''dat''
             then Inr (take (contentTypeLength - 1) ''application/octet-stream'', True)
             else Inr (content_type, False)))"

datatype contentTypeEnumerator =
    NO_FILETYPE | RESERVED_CTE_VALUE | TEXT | IMAGE | AUDIO | VIDEO | EXECUTABLE | FLASH | FOLDER

definition GetExtentionType :: "string option \<Rightarrow> contentTypeEnumerator" where
  "GetExtentionType theextension =
     (case theextension of
        None \<Rightarrow> NO_FILETYPE
      | Some e \<Rightarrow>
          if c_at e 0 = NUL then NO_FILETYPE
          else if c_at e 0 = CHR ''t'' then TEXT
          else if c_at e 0 = CHR ''i'' then IMAGE
          else if c_at e 0 = CHR ''v'' then VIDEO
          else if c_at e 0 = CHR ''a'' then
            (if e = ''application/x-shockwave-flash'' then FLASH
             else if c_at e 1 = CHR ''u'' then AUDIO
             else if c_at e 1 = CHR ''p'' then EXECUTABLE
             else NO_FILETYPE)
          else NO_FILETYPE)"

definition GetContentType :: "string \<Rightarrow> string \<Rightarrow> nat \<Rightarrow> (string \<times> bool) checked" where
  "GetContentType filename contentType contentTypeLength =
     (if filename = [] then Inr (contentType, False)
      else
        (let i = scan_back (\<lambda>c. c \<noteq> CHR ''.'') filename 1 (length filename) - 1
         in if i = 0 then Inr (contentType, False)
            else if i + 1 \<ge> length filename then Inr (contentType, False)
            else GetContentTypeForExtension (drop (i + 1) filename) contentType contentTypeLength))"

definition extension_image :: "contentTypeEnumerator \<Rightarrow> string" where
  "extension_image res =
     (case res of
        TEXT \<Rightarrow> ''doc.gif'' | IMAGE \<Rightarrow> ''img.gif'' | VIDEO \<Rightarrow> ''vid.gif'' | AUDIO \<Rightarrow> ''mus.gif''
      | EXECUTABLE \<Rightarrow> ''exe.gif'' | FLASH \<Rightarrow> ''vid.gif'' | _ \<Rightarrow> ''dir.gif'')"

definition GetExtensionImage :: "string \<Rightarrow> string \<Rightarrow> nat \<Rightarrow> (string \<times> bool) checked" where
  "GetExtensionImage filename theimagepath theimagepath_length =
     (case GetContentType filename theimagepath theimagepath_length of
        Inl f \<Rightarrow> Inl f
      | Inr (theimagepath, _) \<Rightarrow>
          (let res = GetExtentionType (Some theimagepath)
           in Inr (take (theimagepath_length - 1) (extension_image res), res \<noteq> NO_FILETYPE)))"

text \<open>
  The five \<open>CheckIfFileIs\<close> functions; \<open>garbage\<close> is what their local buffer, which they do not
  initialise, holds as a string.
\<close>

definition file_is :: "contentTypeEnumerator \<Rightarrow> string \<Rightarrow> string \<Rightarrow> bool checked" where
  "file_is kind garbage filename =
     (case GetContentType filename garbage 512 of
        Inl f \<Rightarrow> Inl f
      | Inr (contentType, _) \<Rightarrow> Inr (GetExtentionType (Some contentType) = kind))"

definition CheckIfFileIsText :: "string \<Rightarrow> string \<Rightarrow> bool checked" where
  "CheckIfFileIsText = file_is TEXT"
definition CheckIfFileIsImage :: "string \<Rightarrow> string \<Rightarrow> bool checked" where
  "CheckIfFileIsImage = file_is IMAGE"
definition CheckIfFileIsAudio :: "string \<Rightarrow> string \<Rightarrow> bool checked" where
  "CheckIfFileIsAudio = file_is AUDIO"
definition CheckIfFileIsVideo :: "string \<Rightarrow> string \<Rightarrow> bool checked" where
  "CheckIfFileIsVideo = file_is VIDEO"
definition CheckIfFileIsFlash :: "string \<Rightarrow> string \<Rightarrow> bool checked" where
  "CheckIfFileIsFlash = file_is FLASH"

section \<open>The switches as one table\<close>

text \<open>The words of the six scanners in the order they are asked, each with its type.\<close>

definition typed :: "('a \<Rightarrow> string option) \<Rightarrow> 'a strings \<Rightarrow> string strings" where
  "typed f fsp = map (\<lambda>(w, ext). (w, case f ext of None \<Rightarrow> [] | Some t \<Rightarrow> t)) fsp"

definition mime_table :: "string strings" where
  "mime_table =
     typed textFiles_type textFiles_strings @ typed imageFiles_type imageFiles_strings @
     typed videoFiles_type videoFiles_strings @ typed audioFiles_type audioFiles_strings @
     typed applicationFiles_type applicationFiles_strings @ typed archiveFiles_type archiveFiles_strings"

lemma first_hit_append:
  assumes "list_all (\<lambda>(w, _). must_end (fsp @ gsp) w = must_end fsp w) fsp"
    and "list_all (\<lambda>(w, _). must_end (fsp @ gsp) w = must_end gsp w) gsp"
  shows "first_hit (fsp @ gsp) s n = (case first_hit fsp s n of Some x \<Rightarrow> Some x | None \<Rightarrow> first_hit gsp s n)"
proof -
  have app: "find P (xs @ ys) = (case find P xs of Some x \<Rightarrow> Some x | None \<Rightarrow> find P ys)" for P xs ys
    by (induction xs) auto
  have "find (\<lambda>x. hit (fsp @ gsp) (fst x) s n) fsp = find (\<lambda>x. hit fsp (fst x) s n) fsp"
    and "find (\<lambda>x. hit (fsp @ gsp) (fst x) s n) gsp = find (\<lambda>x. hit gsp (fst x) s n) gsp"
    using assms by (auto intro!: find_cong simp: hit_def list_all_iff case_prod_unfold)
  then show ?thesis by (simp add: first_hit_def app split: option.split)
qed

lemma must_end_typed: "must_end (typed f fsp) w = must_end fsp w"
  by (simp add: must_end_def typed_def list_ex_iff case_prod_unfold)

lemma first_hit_typed:
  assumes "list_all (\<lambda>(_, ext). f ext \<noteq> None) fsp"
  shows "first_hit (typed f fsp) s n = (case first_hit fsp s n of None \<Rightarrow> None | Some ext \<Rightarrow> f ext)"
proof -
  have "find (\<lambda>x. P (fst x)) (typed f fsp)
      = map_option (\<lambda>(w, ext). (w, case f ext of None \<Rightarrow> [] | Some t \<Rightarrow> t)) (find (\<lambda>x. P (fst x)) fsp)" for P
    by (induction fsp) (auto simp: typed_def)
  from this [of "\<lambda>w. hit fsp w s n"] have "first_hit (typed f fsp) s n
      = map_option (\<lambda>ext. case f ext of None \<Rightarrow> [] | Some t \<Rightarrow> t) (first_hit fsp s n)"
    by (simp add: first_hit_def hit_def must_end_typed option.map_comp comp_def case_prod_unfold)
  moreover have "f ext \<noteq> None" if "first_hit fsp s n = Some ext" for ext
    using that assms by (auto simp: first_hit_def find_Some_iff list_all_iff set_conv_nth case_prod_unfold)
  ultimately show ?thesis by (auto split: option.split)
qed

lemma typed_scanner:
  assumes "f = export_C_Scanner (fastSTringParser_createRulesFromFile fsp) nothing"
    and "recognizable fsp" and "loaded fsp = fsp" and "ty nothing = None"
    and "list_all (\<lambda>(_, ext). ty ext \<noteq> None) fsp"
  shows "ty (f (Some s) n) = first_hit (typed ty fsp) s n"
  using scanFor_first_hit [OF assms(1-3), of s n] first_hit_typed [OF assms(5), of s n] assms(4)
  by (simp split: option.split)

lemma textFiles_hit: "textFiles_type (scanFor_textFiles (Some s) n) = first_hit (typed textFiles_type textFiles_strings) s n"
  by (rule typed_scanner [OF shipped_textFiles(3, 1, 2)]) (simp add: textFiles_type_def, code_simp)

lemma imageFiles_hit: "imageFiles_type (scanFor_imageFiles (Some s) n) = first_hit (typed imageFiles_type imageFiles_strings) s n"
  by (rule typed_scanner [OF shipped_imageFiles(3, 1, 2)]) (simp add: imageFiles_type_def, code_simp)

lemma videoFiles_hit: "videoFiles_type (scanFor_videoFiles (Some s) n) = first_hit (typed videoFiles_type videoFiles_strings) s n"
  by (rule typed_scanner [OF shipped_videoFiles(3, 1, 2)]) (simp add: videoFiles_type_def, code_simp)

lemma audioFiles_hit: "audioFiles_type (scanFor_audioFiles (Some s) n) = first_hit (typed audioFiles_type audioFiles_strings) s n"
  by (rule typed_scanner [OF shipped_audioFiles(3, 1, 2)]) (simp add: audioFiles_type_def, code_simp)

lemma applicationFiles_hit: "applicationFiles_type (scanFor_applicationFiles (Some s) n) = first_hit (typed applicationFiles_type applicationFiles_strings) s n"
  by (rule typed_scanner [OF shipped_applicationFiles(3, 1, 2)]) (simp add: applicationFiles_type_def, code_simp)

lemma archiveFiles_hit: "archiveFiles_type (scanFor_archiveFiles (Some s) n) = first_hit (typed archiveFiles_type archiveFiles_strings) s n"
  by (rule typed_scanner [OF shipped_archiveFiles(3, 1, 2)]) (simp add: archiveFiles_type_def, code_simp)


lemma extension_type_hit: "extension_type e = first_hit mime_table e (length e)"
proof -
  let ?a = "typed applicationFiles_type applicationFiles_strings @ typed archiveFiles_type archiveFiles_strings"
  let ?b = "typed audioFiles_type audioFiles_strings @ ?a"
  let ?c = "typed videoFiles_type videoFiles_strings @ ?b"
  let ?d = "typed imageFiles_type imageFiles_strings @ ?c"
  have a: "first_hit ?a s n = (case first_hit (typed applicationFiles_type applicationFiles_strings) s n of
      Some x \<Rightarrow> Some x | None \<Rightarrow> first_hit (typed archiveFiles_type archiveFiles_strings) s n)" for s n
    by (rule first_hit_append) code_simp+
  have b: "first_hit ?b s n = (case first_hit (typed audioFiles_type audioFiles_strings) s n of
      Some x \<Rightarrow> Some x | None \<Rightarrow> first_hit ?a s n)" for s n
    by (rule first_hit_append) code_simp+
  have c: "first_hit ?c s n = (case first_hit (typed videoFiles_type videoFiles_strings) s n of
      Some x \<Rightarrow> Some x | None \<Rightarrow> first_hit ?b s n)" for s n
    by (rule first_hit_append) code_simp+
  have d: "first_hit ?d s n = (case first_hit (typed imageFiles_type imageFiles_strings) s n of
      Some x \<Rightarrow> Some x | None \<Rightarrow> first_hit ?c s n)" for s n
    by (rule first_hit_append) code_simp+
  have e: "first_hit mime_table s n = (case first_hit (typed textFiles_type textFiles_strings) s n of
      Some x \<Rightarrow> Some x | None \<Rightarrow> first_hit ?d s n)" for s n
    unfolding mime_table_def by (rule first_hit_append) code_simp+
  show ?thesis
    by (simp only: extension_type_def Let_def textFiles_hit imageFiles_hit videoFiles_hit audioFiles_hit
        applicationFiles_hit archiveFiles_hit a b c d e)
qed


lemma first_hit_in: "first_hit fsp e n = Some t \<Longrightarrow> \<exists>w. (w, t) \<in> set fsp"
  by (auto simp: first_hit_def find_Some_iff) (metis nth_mem)

lemma mime_table_lengths: "list_all (\<lambda>(_, t). length t \<le> 29) mime_table"
  by code_simp

lemma first_hit_length: "first_hit mime_table e n = Some t \<Longrightarrow> length t \<le> 29"
  using mime_table_lengths first_hit_in [of mime_table e n t] by (fastforce simp: list_all_iff)

lemma last_dot:
  assumes "CHR ''.'' \<notin> set ext" and "stem \<noteq> []"
  shows "scan_back (\<lambda>c. c \<noteq> CHR ''.'') (stem @ CHR ''.'' # ext) 1 (length (stem @ CHR ''.'' # ext)) = length stem + 1"
  using assms(1)
proof (induction ext rule: rev_induct)
  case Nil
  then show ?case using assms(2) by (subst scan_back.simps) (simp add: nth_append)
next
  case (snoc c ext)
  let ?s = "stem @ CHR ''.'' # ext"
  have "scan_back (\<lambda>c. c \<noteq> CHR ''.'') (?s @ [c]) 1 (length (?s @ [c]))
      = scan_back (\<lambda>c. c \<noteq> CHR ''.'') (?s @ [c]) 1 (length ?s)"
    using snoc.prems by (subst scan_back.simps) (auto simp: nth_append)
  also have "\<dots> = scan_back (\<lambda>c. c \<noteq> CHR ''.'') ?s 1 (length ?s)"
  proof -
    have "scan_back P (xs @ ys) lo e = scan_back P xs lo e" if "e \<le> length xs" for P xs ys lo e
      using that by (induction P "xs @ ys" lo e rule: scan_back.induct)
        (subst scan_back.simps, subst (2) scan_back.simps, auto simp: nth_append)
    then show ?thesis by blast
  qed
  finally show ?case using snoc by simp
qed

section \<open>Properties\<close>

text \<open>
  The content type of a file is decided by what follows its last dot, and by the six
  keyword scanners as by one table searched from the top: the first word the extension
  starts with, up to case, gives the type; \<open>bin\<close> and \<open>dat\<close> come last; otherwise the answer
  is 0 and the buffer keeps what it held.
\<close>

lemma content_type_of_file:
  assumes "stem \<noteq> []" and "ext \<noteq> []" and "CHR ''.'' \<notin> set ext" and "30 \<le> n"
  shows "GetContentType (stem @ CHR ''.'' # ext) buf n
       = Inr (case first_hit mime_table ext (length ext) of
                Some t \<Rightarrow> (t, True)
              | None \<Rightarrow> if strcaseeq ext ''bin'' \<or> strcaseeq ext ''dat''
                        then (''application/octet-stream'', True) else (buf, False))"
proof -
  have "GetContentType (stem @ CHR ''.'' # ext) buf n = GetContentTypeForExtension ext buf n"
    using assms(1, 2) by (simp add: GetContentType_def last_dot [OF assms(3, 1), simplified])
  then show ?thesis
    using assms(4) first_hit_length [of ext "length ext"]
    by (auto simp: GetContentTypeForExtension_def extension_type_hit split: option.split)
qed

lemma content_type_of_file_witness:
  "GetContentType ''a.tar.gz'' [] 512 = Inr (''application/gzip'', True)
   \<and> GetContentType ''index.HTML'' [] 512 = Inr (''text/html'', True)"
proof -
  have a: "first_hit mime_table ''gz'' (length ''gz'') = Some ''application/gzip''"
    and b: "first_hit mime_table ''HTML'' (length ''HTML'') = Some ''text/html''" by code_simp+
  have "GetContentType (''a.tar'' @ CHR ''.'' # ''gz'') [] 512 = Inr (''application/gzip'', True)"
    by (subst content_type_of_file) (simp_all only: a option.case, simp_all)
  moreover have "GetContentType (''index'' @ CHR ''.'' # ''HTML'') [] 512 = Inr (''text/html'', True)"
    by (subst content_type_of_file) (simp_all only: b option.case, simp_all)
  ultimately show ?thesis by simp
qed

text \<open>
  The size check of \<open>GetContentTypeForExtension\<close> is one short: it admits a buffer of 29
  bytes, and the type of an extension that is recognised as \<open>SWF\<close> has 29 characters and a
  terminating NUL.  With any other size no byte is written past the buffer.
\<close>

lemma content_type_overflow:
  "GetContentTypeForExtension ext buf n = Inl Out_of_bounds
   \<longleftrightarrow> n = 29 \<and> first_hit mime_table ext (length ext) = Some ''application/x-shockwave-flash''"
proof -
  define flash where "flash = ''application/x-shockwave-flash''"
  have flash: "length flash = 29" by (simp add: flash_def)
  have only: "list_all (\<lambda>(_, t). length t = 29 \<longrightarrow> t = flash) mime_table"
    unfolding flash_def by code_simp
  have "GetContentTypeForExtension ext buf n = Inl Out_of_bounds
      \<longleftrightarrow> n = 29 \<and> first_hit mime_table ext (length ext) = Some flash"
  proof (cases "first_hit mime_table ext (length ext)")
    case None
    then show ?thesis by (simp add: GetContentTypeForExtension_def extension_type_hit)
  next
    case (Some t)
    have "length t \<le> 29" by (rule first_hit_length [OF Some])
    moreover have "length t = 29 \<longleftrightarrow> t = flash"
      using only flash first_hit_in [OF Some] by (fastforce simp: list_all_iff)
    ultimately show ?thesis
      using Some flash by (auto simp: GetContentTypeForExtension_def extension_type_hit)
  qed
  then show ?thesis by (simp only: flash_def)
qed

text \<open>
  The kind of a file whose name has no extension is read from memory nobody wrote: the
  five \<open>CheckIfFileIs\<close> functions do not look at the answer of \<open>GetContentType\<close>, which left
  their local buffer as it was.
\<close>

lemma file_kind_of_garbage:
  assumes "CHR ''.'' \<notin> set filename"
  shows "CheckIfFileIsText garbage filename = Inr (c_at garbage 0 = CHR ''t'')
    \<and> CheckIfFileIsImage garbage filename = Inr (c_at garbage 0 = CHR ''i'')
    \<and> CheckIfFileIsVideo garbage filename = Inr (c_at garbage 0 = CHR ''v'')"
proof -
  have "scan_back (\<lambda>c. c \<noteq> CHR ''.'') filename 1 e \<le> 1" if "e \<le> length filename" for e
    using that assms
  proof (induction e)
    case (Suc e)
    then have "filename ! e \<noteq> CHR ''.''" by (metis Suc_le_lessD nth_mem)
    then show ?case using Suc by (subst scan_back.simps) simp
  qed (simp add: scan_back.simps)
  from this [of "length filename"] have "GetContentType filename garbage 512 = Inr (garbage, False)"
    by (simp add: GetContentType_def)
  then show ?thesis
    by (auto simp: CheckIfFileIsText_def CheckIfFileIsImage_def CheckIfFileIsVideo_def file_is_def GetExtentionType_def)
qed

lemma file_kind_of_garbage_witness:
  "CheckIfFileIsText ''text'' ''README'' = Inr True \<and> CheckIfFileIsText ''image'' ''README'' = Inr False"
  using file_kind_of_garbage [of "''README''" "''text''"] file_kind_of_garbage [of "''README''" "''image''"]
  by (simp add: c_at_def)

end
