(* ===== verification/TimeProvider.thy ===== *)
theory TimeProvider
  imports Prelude
begin

text \<open>
  Dates of the HTTP protocol (\<open>src/AmmServerlib/tools/time_provider.c\<close>): the day count of a
  civil date, the reader of \<open>If-Modified-Since\<close> and the writer of \<open>Date\<close> and
  \<open>Last-Modified\<close>.  Of the C library the sources use \<open>snprintf\<close> with \<open>%u\<close> and \<open>%02u\<close>,
  \<open>sscanf\<close> with \<open>%u\<close>, \<open>%3s\<close>, blanks and literal characters, and \<open>gmtime_r\<close>.
\<close>

section \<open>The C library\<close>

definition dec_val :: "string \<Rightarrow> nat" where
  "dec_val ds = foldl (\<lambda>v c. 10 * v + digit_val c) 0 ds"

function show_u :: "nat \<Rightarrow> string" where
  "show_u n = (if n < 10 then [char_of (48 + n)] else show_u (n div 10) @ [char_of (48 + n mod 10)])"
  by pat_completeness auto
termination
  by (relation "measure id") auto

declare show_u.simps [simp del]

definition show_02u :: "nat \<Rightarrow> string" where
  "show_02u n = (if n < 10 then CHR ''0'' # show_u n else show_u n)"

definition isspace :: "char \<Rightarrow> bool" where
  "isspace c \<longleftrightarrow> byte_val c = 32 \<or> 9 \<le> byte_val c \<and> byte_val c \<le> 13"

text \<open>A format of \<open>sscanf\<close> and what it assigns; a conversion that does not match ends it.\<close>

datatype conversion = Conv_u | Conv_s nat | Blank | Literal char

datatype assigned = U nat | S string

text \<open>\<open>%u\<close> reads with \<open>strtoul\<close>: a sign is accepted, the value is cut to 32 bits.\<close>

definition strtoul_u :: "bool \<Rightarrow> nat \<Rightarrow> nat" where
  "strtoul_u neg n =
     (if n \<ge> 2 ^ 64 then 2 ^ 32 - 1 else if neg then nat (- int n mod 2 ^ 32) else n mod 2 ^ 32)"

definition skip_sign :: "string \<Rightarrow> bool \<times> string" where
  "skip_sign s =
     (case s of
        [] \<Rightarrow> (False, s)
      | c # r \<Rightarrow> if c = CHR ''-'' then (True, r) else if c = CHR ''+'' then (False, r) else (False, s))"

fun sscanf :: "string \<Rightarrow> conversion list \<Rightarrow> assigned list" where
  "sscanf s [] = []"
| "sscanf s (Blank # f) = sscanf (dropWhile isspace s) f"
| "sscanf s (Literal c # f) = (case s of [] \<Rightarrow> [] | d # r \<Rightarrow> if d = c then sscanf r f else [])"
| "sscanf s (Conv_s w # f) =
     (let s = dropWhile isspace s; t = takeWhile (\<lambda>c. \<not> isspace c) (take w s)
      in if t = [] then [] else S t # sscanf (drop (length t) s) f)"
| "sscanf s (Conv_u # f) =
     (let (neg, r) = skip_sign (dropWhile isspace s); ds = takeWhile is_digit r
      in if ds = [] then [] else U (strtoul_u neg (dec_val ds)) # sscanf (drop (length ds) r) f)"

text \<open>The calendar, and \<open>gmtime_r\<close> for a time that is not before 1970.\<close>

definition is_leap :: "nat \<Rightarrow> bool" where
  "is_leap y \<longleftrightarrow> y mod 4 = 0 \<and> (y mod 100 \<noteq> 0 \<or> y mod 400 = 0)"

definition year_days :: "nat \<Rightarrow> nat" where
  "year_days y = (if is_leap y then 366 else 365)"

text \<open>Months are counted from 0, as in \<open>struct tm\<close>.\<close>

definition month_days :: "nat \<Rightarrow> nat \<Rightarrow> nat" where
  "month_days y m = (if m = 1 \<and> is_leap y then 29 else [31, 28, 31, 30, 31, 30, 31, 31, 30, 31, 30, 31] ! m)"

record tm =
  tm_sec :: nat
  tm_min :: nat
  tm_hour :: nat
  tm_mday :: nat
  tm_mon :: nat
  tm_year :: nat
  tm_wday :: nat

function find_year :: "nat \<Rightarrow> nat \<Rightarrow> nat \<times> nat" where
  "find_year y z = (if z < year_days y then (y, z) else find_year (y + 1) (z - year_days y))"
  by pat_completeness auto
termination
  by (relation "measure snd") (auto simp: year_days_def split: if_splits)

declare find_year.simps [simp del]

function find_month :: "nat \<Rightarrow> nat \<Rightarrow> nat \<Rightarrow> nat \<times> nat" where
  "find_month y m z = (if m < 11 \<and> \<not> z < month_days y m then find_month y (m + 1) (z - month_days y m) else (m, z))"
  by pat_completeness auto
termination
  by (relation "measure (\<lambda>(y, m, z). 11 - m)") auto

declare find_month.simps [simp del]

definition EPOCH_YEAR_IN_TM_YEAR :: nat where "EPOCH_YEAR_IN_TM_YEAR = 1900"

definition gmtime_r :: "nat \<Rightarrow> tm" where
  "gmtime_r clock =
     (let (y, z) = find_year 1970 (clock div 86400); (m, d) = find_month y 0 z; s = clock mod 86400
      in \<lparr>tm_sec = s mod 60, tm_min = s div 60 mod 60, tm_hour = s div 3600, tm_mday = d + 1, tm_mon = m,
          tm_year = y - EPOCH_YEAR_IN_TM_YEAR, tm_wday = (clock div 86400 + 4) mod 7\<rparr>)"

section \<open>The code\<close>

definition days :: "string list" where
  "days = [''Sun'', ''Mon'', ''Tue'', ''Wed'', ''Thu'', ''Fri'', ''Sat'']"

definition months :: "string list" where
  "months = [''Jan'', ''Feb'', ''Mar'', ''Apr'', ''May'', ''Jun'', ''Jul'', ''Aug'', ''Sep'', ''Oct'', ''Nov'', ''Dec'']"

text \<open>The text the three \<open>snprintf\<close> of a date have in common.\<close>

definition date_text :: "nat \<Rightarrow> nat \<Rightarrow> nat \<Rightarrow> nat \<Rightarrow> nat \<Rightarrow> nat \<Rightarrow> nat \<Rightarrow> string" where
  "date_text dayofweek day month year hour minute second =
     days ! dayofweek @ '', '' @ show_u day @ '' '' @ months ! month @ '' '' @ show_u year @ '' ''
     @ show_02u hour @ '':'' @ show_02u minute @ '':'' @ show_02u second @ '' GMT''"

definition RefreshCachedDateValue :: "nat \<Rightarrow> string" where
  "RefreshCachedDateValue clock =
     (let tmv = gmtime_r clock
      in take 39 (date_text (tm_wday tmv) (tm_mday tmv) (tm_mon tmv) (EPOCH_YEAR_IN_TM_YEAR + tm_year tmv)
           (tm_hour tmv) (tm_min tmv) (tm_sec tmv)))"

text \<open>
  The \<open>now\<close> form copies the cached string; the other one looks its two names up in the arrays.
  What \<open>snprintf\<close> leaves in \<open>output\<close> is the text without its terminator.
\<close>

definition GetDateString ::
    "string \<Rightarrow> nat \<Rightarrow> string option \<Rightarrow> bool \<Rightarrow> nat \<Rightarrow> nat \<Rightarrow> nat \<Rightarrow> nat \<Rightarrow> nat \<Rightarrow> nat \<Rightarrow> nat \<Rightarrow> string checked" where
  "GetDateString g_cached_date_value maxOutput label now dayofweek day month year hour minute second =
     (let prefix = (case label of None \<Rightarrow> [] | Some l \<Rightarrow> l @ '': '')
      in if now then Inr (take (maxOutput - 1) (prefix @ g_cached_date_value @ [LF]))
         else if dayofweek \<ge> 7 \<or> month \<ge> 12 then Inl Out_of_bounds
         else Inr (take (maxOutput - 1) (prefix @ date_text dayofweek day month year hour minute second @ [LF])))"

definition GetDateStringFromTimeT :: "string \<Rightarrow> nat \<Rightarrow> string option \<Rightarrow> nat \<Rightarrow> string checked" where
  "GetDateStringFromTimeT g_cached_date_value maxOutput label clock =
     (let tmv = gmtime_r clock
      in GetDateString g_cached_date_value maxOutput label False (tm_wday tmv) (tm_mday tmv) (tm_mon tmv)
           (EPOCH_YEAR_IN_TM_YEAR + tm_year tmv) (tm_hour tmv) (tm_min tmv) (tm_sec tmv))"

text \<open>C divides an \<open>int\<close> towards zero.\<close>

definition int_quot :: "int \<Rightarrow> int \<Rightarrow> int" where
  "int_quot a b = (if a < 0 then - ((- a) div b) else a div b)"

definition DaysFromCivil :: "int \<Rightarrow> nat \<Rightarrow> nat \<Rightarrow> int" where
  "DaysFromCivil y m d =
     (let y = (if m \<le> 2 then y - 1 else y);
          era = int_quot (if y \<ge> 0 then y else y - 399) 400;
          yoe = nat (y - era * 400);
          doy = (153 * (if m > 2 then m - 3 else m + 9) + 2) div 5 + d - 1;
          doe = yoe * 365 + yoe div 4 - yoe div 100 + doy
      in era * 146097 + int doe - 719468)"

fun month_index :: "string \<Rightarrow> string list \<Rightarrow> nat \<Rightarrow> nat option" where
  "month_index threeChars [] i = None"
| "month_index threeChars (name # names) i =
     (if \<forall>k \<in> {0, 1, 2}. toupper (c_at threeChars k) = toupper (name ! k) then Some i
      else month_index threeChars names (i + 1))"

definition ParseMonthName :: "string \<Rightarrow> nat option" where
  "ParseMonthName threeChars = month_index threeChars months 0"

definition imf_format :: "conversion list" where
  "imf_format = [Conv_u, Blank, Conv_s 3, Blank, Conv_u, Blank, Conv_u, Literal CHR '':'', Conv_u, Literal CHR '':'', Conv_u]"

definition rfc850_format :: "conversion list" where
  "rfc850_format = [Conv_u, Literal CHR ''-'', Conv_s 3, Literal CHR ''-'', Conv_u, Blank, Conv_u, Literal CHR '':'', Conv_u,
     Literal CHR '':'', Conv_u]"

definition date_fields :: "string \<Rightarrow> (nat \<times> string \<times> nat \<times> nat \<times> nat \<times> nat) option" where
  "date_fields text =
     (case sscanf text imf_format of
        [U day, S monthName, U year, U hour, U minute, U second] \<Rightarrow> Some (day, monthName, year, hour, minute, second)
      | _ \<Rightarrow>
          (case sscanf text rfc850_format of
             [U day, S monthName, U year, U hour, U minute, U second] \<Rightarrow>
               Some (day, monthName, if year < 100 then year + (if year < 70 then 2000 else 1900) else year,
                     hour, minute, second)
           | _ \<Rightarrow> None))"

definition trimmed_date :: "string \<Rightarrow> string" where
  "trimmed_date value =
     (let text = dropWhile (\<lambda>c. c = SPC \<or> c = TAB) (takeWhile (\<lambda>c. c \<noteq> NUL) value);
          text = trim_right (\<lambda>c. c = SPC \<or> c = TAB \<or> c = CR \<or> c = LF) text
      in case dropWhile (\<lambda>c. c \<noteq> CHR '','') text of [] \<Rightarrow> text | _ # r \<Rightarrow> dropWhile (\<lambda>c. c = SPC) r)"

definition ParseHTTPDate :: "string option \<Rightarrow> int option" where
  "ParseHTTPDate v =
     (case v of
        None \<Rightarrow> None
      | Some v \<Rightarrow>
          if length v \<ge> 64 then None
          else
            (case date_fields (trimmed_date v) of
               None \<Rightarrow> None
             | Some (day, monthName, year, hour, minute, second) \<Rightarrow>
                 (case ParseMonthName monthName of
                    None \<Rightarrow> None
                  | Some month \<Rightarrow>
                      if day < 1 \<or> day > 31 \<or> year < 1900 \<or> year > 9999 \<or> hour > 23 \<or> minute > 59 \<or> second > 60
                      then None
                      else
                        Some (DaysFromCivil (int year) (month + 1) day * 86400 + int hour * 3600 + int minute * 60
                              + int second))))"

section \<open>The day count\<close>

text \<open>Days before the first day of a year, of a month (from 0), and of a date.\<close>

definition days_before_year :: "nat \<Rightarrow> nat" where
  "days_before_year y = (\<Sum>i<y. year_days i)"

definition days_before_month :: "nat \<Rightarrow> nat \<Rightarrow> nat" where
  "days_before_month y m = (\<Sum>i<m. month_days y i)"

definition day_number :: "nat \<Rightarrow> nat \<Rightarrow> nat \<Rightarrow> nat" where
  "day_number y m d = days_before_year y + days_before_month y m + (d - 1)"

lemma days_before_year_Suc: "days_before_year (Suc y) = days_before_year y + year_days y"
  by (simp add: days_before_year_def)

lemma days_before_month_Suc: "days_before_month y (Suc m) = days_before_month y m + month_days y m"
  by (simp add: days_before_month_def)

lemma div_pred:
  fixes x k :: int
  assumes "0 < k"
  shows "x div k = (x - 1) div k + (if x mod k = 0 then 1 else 0)"
proof (cases "x mod k = 0")
  case True
  then have "x - 1 = k * (x div k - 1) + (k - 1)"
    using mult_div_mod_eq [of k x] by (simp add: algebra_simps)
  from int_div_pos_eq [OF this] show ?thesis using assms True by simp
next
  case False
  then have r: "0 \<le> x mod k - 1" "x mod k - 1 < k"
    using assms pos_mod_sign [of k x] pos_mod_bound [of k x] by linarith+
  have "x - 1 = k * (x div k) + (x mod k - 1)" using mult_div_mod_eq [of k x] by (simp add: algebra_simps)
  from int_div_pos_eq [OF this r] show ?thesis using False by simp
qed

text \<open>The leap days of the years 1 to \<open>y\<close>.\<close>

definition leaps :: "int \<Rightarrow> int" where
  "leaps y = y div 4 - y div 100 + y div 400"

lemma leap_day: "leaps (int y) = leaps (int y - 1) + (if is_leap y then 1 else 0)"
proof -
  have nat_mod: "int y mod 4 = 0 \<longleftrightarrow> y mod 4 = 0" "int y mod 100 = 0 \<longleftrightarrow> y mod 100 = 0"
    "int y mod 400 = 0 \<longleftrightarrow> y mod 400 = 0"
    by (metis of_nat_eq_0_iff of_nat_mod of_nat_numeral)+
  have steps: "int y div 4 = (int y - 1) div 4 + (if y mod 4 = 0 then 1 else 0)"
    "int y div 100 = (int y - 1) div 100 + (if y mod 100 = 0 then 1 else 0)"
    "int y div 400 = (int y - 1) div 400 + (if y mod 400 = 0 then 1 else 0)"
    using div_pred [of _ "int y"] unfolding nat_mod [symmetric] by simp_all
  have sum: "a + (if P then 1 else 0) - (b + (if Q then 1 else 0)) + (c + (if R then 1 else 0))
      = a - b + c + (if P \<and> (\<not> Q \<or> R) then 1 else 0)" if "R \<Longrightarrow> Q" "Q \<Longrightarrow> P" for a b c :: int and P Q R
    using that by auto
  show ?thesis unfolding leaps_def is_leap_def steps by (rule sum) presburger+
qed

lemma days_before_year_closed: "int (days_before_year y) = 365 * int y + leaps (int y - 1) + 1"
proof (induction y)
  case 0
  show ?case by (simp add: days_before_year_def leaps_def)
next
  case (Suc y)
  moreover have "int (Suc y) - 1 = int y" by simp
  ultimately show ?case
    using leap_day [of y] unfolding days_before_year_Suc year_days_def by (cases "is_leap y") simp_all
qed

lemma days_before_month_values:
  "days_before_month y 0 = 0" "days_before_month y (Suc 0) = 31"
  "2 \<le> m \<Longrightarrow> m < 12 \<Longrightarrow>
     days_before_month y m = [0, 0, 59, 90, 120, 151, 181, 212, 243, 273, 304, 334] ! m + (if is_leap y then 1 else 0)"
  by (auto simp: days_before_month_def month_days_def less_Suc_eq eval_nat_numeral lessThan_Suc)

lemma era_floor: "int_quot (if y \<ge> 0 then y else y - 399) 400 = y div 400"
  by (cases "y \<ge> 0") (auto simp: int_quot_def, presburger?)

lemma era_days:
  fixes y :: int
  defines "yoe \<equiv> nat (y - y div 400 * 400)"
  shows "y div 400 * 146097 + int (yoe * 365 + yoe div 4 - yoe div 100) = 365 * y + leaps y"
proof -
  define e r where "e = y div 400" and "r = y mod 400"
  have y: "y = 400 * e + r" and r: "0 \<le> r" "r < 400" by (simp_all add: e_def r_def)
  have yoe: "int yoe = r" using r by (simp add: yoe_def e_def r_def minus_div_mult_eq_mod)
  have "yoe div 100 \<le> yoe div 4" by (simp add: div_le_mono2)
  then have "int (yoe * 365 + yoe div 4 - yoe div 100) = 365 * r + r div 4 - r div 100"
    by (simp add: of_nat_diff zdiv_int flip: yoe)
  moreover have "y div 4 = 100 * e + r div 4"
    using div_mult_self1 [of 4 r "100 * e"] by (simp add: y algebra_simps)
  moreover have "y div 100 = 4 * e + r div 100"
    using div_mult_self1 [of 100 r "4 * e"] by (simp add: y algebra_simps)
  moreover have "y div 400 = e" by (simp add: e_def)
  ultimately show ?thesis using y unfolding leaps_def by linarith
qed

lemma DaysFromCivil_closed:
  assumes "1 \<le> m" and "m \<le> 12" and "1 \<le> d"
    and y': "y' = (if m \<le> 2 then y - 1 else y)" and mp: "mp = (if m > 2 then m - 3 else m + 9)"
  shows "DaysFromCivil y m d
       = 365 * y' + leaps y' + int ((153 * mp + 2) div 5 + d - 1) - 719468"
proof -
  have "DaysFromCivil y m d = y' div 400 * 146097
      + int (nat (y' - y' div 400 * 400) * 365 + nat (y' - y' div 400 * 400) div 4 - nat (y' - y' div 400 * 400) div 100
          + ((153 * mp + 2) div 5 + d - 1)) - 719468"
    unfolding DaysFromCivil_def Let_def y'[symmetric] mp[symmetric] era_floor
    using assms(3) by simp
  then show ?thesis using era_days [of y'] by linarith
qed

lemma DaysFromCivil_day_number:
  assumes "m < 12" and "1 \<le> d" and "0 < y"
  shows "DaysFromCivil (int y) (m + 1) d = int (day_number y m d) - int (day_number 1970 0 1)"
proof -
  have epoch: "int (day_number 1970 0 1) = 719528"
    by (simp add: day_number_def days_before_year_closed days_before_month_values leaps_def)
  show ?thesis
  proof (cases "m < 2")
    case True
    then have "m = 0 \<or> m = 1" by auto
    then show ?thesis
      using assms epoch
      by (auto simp: DaysFromCivil_closed day_number_def days_before_year_closed days_before_month_values)
  next
    case False
    then have "m = 2 \<or> m = 3 \<or> m = 4 \<or> m = 5 \<or> m = 6 \<or> m = 7 \<or> m = 8 \<or> m = 9 \<or> m = 10 \<or> m = 11"
      using assms(1) by arith
    moreover have "365 * int y + leaps (int y) = int (days_before_year y) + (if is_leap y then 1 else 0) - 1"
      using leap_day [of y] unfolding days_before_year_closed by linarith
    ultimately show ?thesis
      using assms epoch False
      by (auto simp: DaysFromCivil_closed day_number_def days_before_month_values nth_Cons')
  qed
qed

section \<open>\<open>gmtime_r\<close>\<close>

lemma find_year_spec:
  "find_year y z = (y', z') \<Longrightarrow>
     y \<le> y' \<and> z' < year_days y' \<and> days_before_year y + z = days_before_year y' + z'"
proof (induction y z rule: find_year.induct)
  case (1 y z)
  show ?case
  proof (cases "z < year_days y")
    case True
    then show ?thesis using "1.prems" by (simp add: find_year.simps [of y z])
  next
    case False
    then have "find_year (y + 1) (z - year_days y) = (y', z')" using "1.prems" by (simp add: find_year.simps [of y z])
    from "1.IH" [OF False this] show ?thesis using False by (simp add: days_before_year_Suc)
  qed
qed

lemma year_days_months: "days_before_month y 12 = year_days y"
  by (simp add: days_before_month_def eval_nat_numeral lessThan_Suc month_days_def year_days_def)

lemma find_month_spec:
  assumes "find_month y m z = (m', z')" and "m < 12" and "days_before_month y m + z < year_days y"
  shows "m' < 12 \<and> z' < month_days y m' \<and> days_before_month y m + z = days_before_month y m' + z'"
  using assms
proof (induction y m z rule: find_month.induct)
  case (1 y m z)
  show ?case
  proof (cases "m < 11 \<and> \<not> z < month_days y m")
    case True
    then have "find_month y (m + 1) (z - month_days y m) = (m', z')"
      using "1.prems" by (simp add: find_month.simps [of y m z])
    from "1.IH" [OF True this] show ?thesis using True "1.prems" by (simp add: days_before_month_Suc)
  next
    case False
    have "find_month y m z = (m, z)" by (subst find_month.simps) (simp only: False if_False)
    then have eq: "m' = m" "z' = z" using "1.prems" by simp_all
    have "z < month_days y m"
    proof (cases "m < 11")
      case True
      then show ?thesis using False by simp
    next
      case no: False
      then have "m = 11" using "1.prems" by simp
      then show ?thesis
        using "1.prems" days_before_month_Suc [of y 11] by (simp add: year_days_months [symmetric])
    qed
    then show ?thesis using eq "1.prems" by simp
  qed
qed

lemma month_days_le: "m < 12 \<Longrightarrow> month_days y m \<le> 31"
  by (auto simp: month_days_def less_Suc_eq eval_nat_numeral)

lemma days_before_year_mono: "y \<le> y' \<Longrightarrow> days_before_year y \<le> days_before_year y'"
  unfolding days_before_year_def by (rule sum_mono2) auto

lemma gmtime_fields:
  fixes clock :: nat
  defines "t \<equiv> gmtime_r clock"
  shows "tm_mon t < 12" and "1 \<le> tm_mday t" and "tm_mday t \<le> 31" and "tm_hour t < 24" and "tm_min t < 60"
    and "tm_sec t < 60" and "tm_wday t < 7" and "1970 \<le> EPOCH_YEAR_IN_TM_YEAR + tm_year t"
    and "day_number (EPOCH_YEAR_IN_TM_YEAR + tm_year t) (tm_mon t) (tm_mday t)
      = day_number 1970 0 1 + clock div 86400"
    and "tm_hour t * 3600 + tm_min t * 60 + tm_sec t = clock mod 86400"
    and "clock < 2932897 * 86400 \<Longrightarrow> EPOCH_YEAR_IN_TM_YEAR + tm_year t \<le> 9999"
proof -
  obtain y z where yz: "find_year 1970 (clock div 86400) = (y, z)" by fastforce
  obtain m d where md: "find_month y 0 z = (m, d)" by fastforce
  note y = find_year_spec [OF yz]
  have m: "m < 12 \<and> d < month_days y m \<and> z = days_before_month y m + d"
    using find_month_spec [OF md] y by (simp add: days_before_month_values)
  have t: "t = \<lparr>tm_sec = clock mod 86400 mod 60, tm_min = clock mod 86400 div 60 mod 60,
      tm_hour = clock mod 86400 div 3600, tm_mday = d + 1, tm_mon = m, tm_year = y - EPOCH_YEAR_IN_TM_YEAR,
      tm_wday = (clock div 86400 + 4) mod 7\<rparr>"
    by (simp add: t_def gmtime_r_def yz md Let_def)
  have year: "EPOCH_YEAR_IN_TM_YEAR + tm_year t = y" using y by (simp add: t EPOCH_YEAR_IN_TM_YEAR_def)
  show "tm_mon t < 12" "1 \<le> tm_mday t" "tm_min t < 60" "tm_sec t < 60" "tm_wday t < 7"
    using m by (simp_all add: t)
  show "tm_mday t \<le> 31" using m month_days_le [of m y] by (simp add: t)
  show "tm_hour t < 24" by (simp add: t less_mult_imp_div_less)
  show "1970 \<le> EPOCH_YEAR_IN_TM_YEAR + tm_year t" using y year by simp
  show "day_number (EPOCH_YEAR_IN_TM_YEAR + tm_year t) (tm_mon t) (tm_mday t)
      = day_number 1970 0 1 + clock div 86400"
    using y m unfolding year by (simp add: t day_number_def days_before_month_values)
  have "s div 3600 * 3600 + s div 60 mod 60 * 60 + s mod 60 = s" for s :: nat
  proof -
    define q where "q = s div 60"
    have "s div 3600 = q div 60" by (simp add: q_def flip: div_mult2_eq)
    moreover have "q div 60 * 60 + q mod 60 = q" "q * 60 + s mod 60 = s" by (simp_all add: q_def)
    ultimately show ?thesis unfolding q_def [symmetric] by linarith
  qed
  then show "tm_hour t * 3600 + tm_min t * 60 + tm_sec t = clock mod 86400" by (simp add: t)
  assume "clock < 2932897 * 86400"
  then have "clock div 86400 < 2932897" by (simp add: less_mult_imp_div_less)
  moreover have "int (days_before_year 10000) = 3652425" "int (days_before_year 1970) = 719528"
    unfolding days_before_year_closed leaps_def by simp_all
  ultimately have "\<not> 10000 \<le> y" using days_before_year_mono [of 10000 y] y by linarith
  then show "EPOCH_YEAR_IN_TM_YEAR + tm_year t \<le> 9999" using year by simp
qed

section \<open>Reading a date that was written\<close>

lemma dec_val_snoc: "dec_val (ds @ [c]) = 10 * dec_val ds + digit_val c"
  by (simp add: dec_val_def)

lemma digit_char_dec: "n < 10 \<Longrightarrow> is_digit (char_of (48 + n)) \<and> digit_val (char_of (48 + n)) = n"
  by (simp add: is_digit_def digit_val_def)

lemma show_u_digits: "show_u n \<noteq> [] \<and> list_all is_digit (show_u n) \<and> dec_val (show_u n) = n"
proof (induction n rule: show_u.induct)
  case (1 n)
  show ?case
  proof (cases "n < 10")
    case True
    then show ?thesis using digit_char_dec [OF True] by (simp add: show_u.simps [of n] dec_val_def)
  next
    case False
    then show ?thesis using "1.IH" digit_char_dec [of "n mod 10"]
      by (simp add: show_u.simps [of n] dec_val_snoc)
  qed
qed

lemma show_u_length: "n < 10 ^ k \<Longrightarrow> 0 < k \<Longrightarrow> length (show_u n) \<le> k"
proof (induction k arbitrary: n)
  case (Suc k)
  show ?case
  proof (cases "n < 10")
    case True
    then show ?thesis by (simp add: show_u.simps [of n])
  next
    case False
    then have "n div 10 < 10 ^ k" "0 < k" using Suc.prems by (auto intro: gr0I)
    then show ?thesis using Suc.IH [of "n div 10"] False by (simp add: show_u.simps [of n])
  qed
qed simp

lemma show_02u_digits: "show_02u n \<noteq> [] \<and> list_all is_digit (show_02u n) \<and> dec_val (show_02u n) = n"
  using show_u_digits [of n] by (simp add: show_02u_def dec_val_def is_digit_def digit_val_def)

lemma show_02u_length: "n < 100 \<Longrightarrow> length (show_02u n) \<le> 2"
  using show_u_length [of n 2] show_u_length [of n 1] by (auto simp: show_02u_def)

lemma takeWhile_digits:
  "list_all is_digit ds \<Longrightarrow> \<not> is_digit c \<Longrightarrow> takeWhile is_digit (ds @ c # r) = ds"
  by (induction ds) auto

lemma digit_not_blank: "is_digit c \<Longrightarrow> \<not> isspace c \<and> c \<noteq> CHR ''-'' \<and> c \<noteq> CHR ''+'' \<and> c \<noteq> NUL"
  by (auto simp: is_digit_def isspace_def)

lemma sscanf_number:
  assumes "ds \<noteq> [] \<and> list_all is_digit ds \<and> dec_val ds = n" and "\<not> is_digit c" and "n < 2 ^ 32"
  shows "sscanf (ds @ c # r) (Conv_u # f) = U n # sscanf (c # r) f"
proof -
  obtain d ds' where ds: "ds = d # ds'" "is_digit d" using assms(1) by (cases ds) auto
  then have "skip_sign (dropWhile isspace (ds @ c # r)) = (False, ds @ c # r)"
    using digit_not_blank [OF ds(2)] by (simp add: skip_sign_def)
  moreover have "takeWhile is_digit (ds @ c # r) = ds" using assms(1,2) by (simp add: takeWhile_digits)
  ultimately show ?thesis using assms by (simp add: strtoul_u_def)
qed

lemma sscanf_last_number:
  assumes "ds \<noteq> [] \<and> list_all is_digit ds \<and> dec_val ds = n" and "n < 2 ^ 32"
  shows "sscanf (ds @ SPC # r) [Conv_u] = [U n]"
  using sscanf_number [OF assms(1) _ assms(2), of SPC r "[]"] by (simp add: is_digit_def)

lemma months_words: "list_all (\<lambda>w. length w = 3 \<and> list_all (\<lambda>c. \<not> isspace c) w) months"
  by (simp add: months_def isspace_def)

lemma isspace_SPC [simp]: "isspace SPC"
  by (simp add: isspace_def)

lemma length_names [simp]: "length months = 12" "length days = 7"
  by (simp_all add: months_def days_def)

lemma sscanf_month:
  assumes "m < 12"
  shows "sscanf (SPC # months ! m @ SPC # r) (Blank # Conv_s 3 # f) = S (months ! m) # sscanf (SPC # r) f"
proof -
  have "months ! m \<in> set months" using assms by simp
  then have "length (months ! m) = 3" "list_all (\<lambda>c. \<not> isspace c) (months ! m)"
    using months_words by (auto simp: list_all_iff)
  then obtain a b c where "months ! m = [a, b, c]" "\<not> isspace a" "\<not> isspace b" "\<not> isspace c"
    by (auto simp: numeral_3_eq_3 length_Suc_conv)
  then show ?thesis by (simp add: Let_def)
qed

lemma month_index_found:
  assumes "w \<in> set ws" and "distinct (map (map toupper) ws)" and "list_all (\<lambda>w. length w = 3) ws"
  shows "\<exists>k<length ws. month_index w ws i = Some (i + k) \<and> ws ! k = w"
  using assms
proof (induction ws arbitrary: i)
  case (Cons v ws)
  show ?case
  proof (cases "\<forall>k \<in> {0, 1, 2}. toupper (c_at w k) = toupper (v ! k)")
    case True
    have "length w = 3" "length v = 3" using Cons.prems by (auto simp: list_all_iff)
    then have "map toupper w = map toupper v"
      using True by (intro nth_equalityI) (auto simp: c_at_def less_Suc_eq numeral_3_eq_3 numeral_2_eq_2)
    then have "w = v" using Cons.prems by (auto simp: image_iff)
    then show ?thesis using True by (intro exI [of _ 0]) simp
  next
    case False
    have len: "length v = 3" using Cons.prems by simp
    then have "c_at v k = v ! k" if "k \<in> {0, 1, 2}" for k using that by (auto simp: c_at_def)
    then have "w \<noteq> v" using False by auto
    then have "w \<in> set ws" using Cons.prems by simp
    from Cons.IH [OF this, of "i + 1"] Cons.prems obtain k
      where "k < length ws" "month_index w ws (i + 1) = Some (i + 1 + k)" "ws ! k = w" by auto
    then show ?thesis using False by (intro exI [of _ "Suc k"]) auto
  qed
qed simp

lemma months_distinct: "distinct (map (map toupper) months) \<and> distinct months"
  by (simp add: months_def toupper_def)

lemma ParseMonthName_months:
  assumes "m < 12"
  shows "ParseMonthName (months ! m) = Some m"
proof -
  have mem: "months ! m \<in> set months" using assms by simp
  have "list_all (\<lambda>w. length w = 3) months" using months_words by (auto simp: list_all_iff)
  from month_index_found [OF mem _ this, of 0] months_distinct obtain k
    where "k < length months" "month_index (months ! m) months 0 = Some k" "months ! k = months ! m" by auto
  then show ?thesis
    using months_distinct assms by (auto simp: ParseMonthName_def nth_eq_iff_index_eq)
qed

lemma days_words: "list_all (\<lambda>w. length w = 3 \<and> list_all (\<lambda>c. c \<notin> {SPC, TAB, NUL, CHR '',''}) w) days"
  by (simp add: days_def)

lemma day_name:
  assumes "k < 7"
  obtains a b c where "days ! k = [a, b, c]" and "{a, b, c} \<inter> {SPC, TAB, NUL, CHR '',''} = {}"
proof -
  have "days ! k \<in> set days" using assms by simp
  then have "length (days ! k) = 3" "list_all (\<lambda>c. c \<notin> {SPC, TAB, NUL, CHR '',''}) (days ! k)"
    using days_words by (auto simp: list_all_iff)
  then show thesis using that by (auto simp: numeral_3_eq_3 length_Suc_conv)
qed

text \<open>The part of the text behind the comma.\<close>

definition civil_text :: "nat \<Rightarrow> nat \<Rightarrow> nat \<Rightarrow> nat \<Rightarrow> nat \<Rightarrow> nat \<Rightarrow> string" where
  "civil_text day month year hour minute second =
     show_u day @ '' '' @ months ! month @ '' '' @ show_u year @ '' '' @ show_02u hour @ '':'' @ show_02u minute
     @ '':'' @ show_02u second @ '' GMT''"

lemma date_fields_civil:
  assumes "mon < 12" and "day < 2 ^ 32" "year < 2 ^ 32" "hour < 2 ^ 32" "minute < 2 ^ 32" "second < 2 ^ 32"
  shows "date_fields (civil_text day mon year hour minute second) = Some (day, months ! mon, year, hour, minute, second)"
proof -
  note u = sscanf_number [OF show_u_digits] sscanf_number [OF show_02u_digits]
    sscanf_last_number [OF show_02u_digits]
  have blank: "sscanf (SPC # ds @ r) (Blank # f) = sscanf (ds @ r) f" if "ds \<noteq> [] \<and> list_all is_digit ds \<and> P" for ds r f P
    using that digit_not_blank [of "hd ds"] by (cases ds) (auto simp: isspace_def)
  have nodigit: "\<not> is_digit SPC" "\<not> is_digit CHR '':''" by (simp_all add: is_digit_def)
  have "sscanf (civil_text day mon year hour minute second) imf_format
      = [U day, S (months ! mon), U year, U hour, U minute, U second]"
    using assms nodigit
    by (simp del: sscanf.simps(2,4,5)
        add: civil_text_def imf_format_def u sscanf_month blank [OF show_u_digits] blank [OF show_02u_digits])
  then show ?thesis by (simp add: date_fields_def)
qed

lemma NUL_notin_civil:
  assumes "m < 12"
  shows "NUL \<notin> set (civil_text d m y h mi s)"
proof -
  have "NUL \<notin> set ds" if "ds \<noteq> [] \<and> list_all is_digit ds \<and> P" for ds P
    using that digit_not_blank by (auto simp: list_all_iff)
  note this [OF show_u_digits] this [OF show_02u_digits]
  moreover have "list_all (\<lambda>w. NUL \<notin> set w) months" by (simp add: months_def)
  then have "NUL \<notin> set (months ! m)" using assms by (simp add: list_all_length)
  ultimately show ?thesis by (simp add: civil_text_def)
qed

lemma trimmed_date_text:
  assumes "m < 12" and "k < 7"
  shows "trimmed_date (date_text k d m y h mi s @ [LF]) = civil_text d m y h mi s"
proof -
  obtain a b c where name: "days ! k = [a, b, c]" "{a, b, c} \<inter> {SPC, TAB, NUL, CHR '',''} = {}"
    by (rule day_name [OF assms(2)])
  let ?t = "civil_text d m y h mi s" and ?blank = "\<lambda>c. c = SPC \<or> c = TAB \<or> c = CR \<or> c = LF"
  have ne: "x \<noteq> SPC \<and> x \<noteq> TAB \<and> x \<noteq> NUL \<and> x \<noteq> CHR '',''" if "x \<in> {a, b, c}" for x
    using name(2) that by blast
  define X where "X = [a, b, c] @ '', '' @ ?t"
  have whole: "date_text k d m y h mi s = X" by (simp add: date_text_def civil_text_def name X_def)
  have "NUL \<notin> set (X @ [LF])" using ne NUL_notin_civil [OF assms(1)] by (auto simp: X_def)
  then have s1: "takeWhile (\<lambda>c. c \<noteq> NUL) (X @ [LF]) = X @ [LF]" by (auto simp: takeWhile_eq_all_conv)
  have s2: "dropWhile (\<lambda>c. c = SPC \<or> c = TAB) (X @ [LF]) = X @ [LF]" using ne by (simp add: X_def)
  have s3: "trim_right ?blank (X @ [LF]) = X" by (simp add: trim_right_def X_def civil_text_def)
  have s4: "dropWhile (\<lambda>c. c \<noteq> CHR '','') X = CHR '','' # SPC # ?t" using ne by (simp add: X_def)
  obtain e r where e: "?t = e # r" "is_digit e"
    using show_u_digits [of d] by (cases "show_u d") (auto simp: civil_text_def)
  then have s5: "dropWhile (\<lambda>c. c = SPC) (SPC # ?t) = ?t" by (auto simp: is_digit_def)
  show ?thesis unfolding trimmed_date_def Let_def whole s1 s2 s3 s4 by (simp only: list.case s5)
qed

lemma months_length: "m < 12 \<Longrightarrow> length (months ! m) = 3"
  using months_words nth_mem [of m months] by (auto simp: list_all_iff)

lemma date_text_length:
  assumes "m < 12" and "k < 7" and "d < 10 ^ 2" "y < 10 ^ 4" "h < 100" "mi < 100" "s < 100"
  shows "length (date_text k d m y h mi s) \<le> 29"
proof -
  have "length (days ! k) = 3" by (rule day_name [OF assms(2)]) simp
  moreover have "length (show_u d) \<le> 2" "length (show_u y) \<le> 4"
    by (rule show_u_length; use assms in simp)+
  ultimately show ?thesis
    using show_02u_length [OF assms(5)] show_02u_length [OF assms(6)] show_02u_length [OF assms(7)]
      months_length [OF assms(1)]
    unfolding date_text_def by simp
qed

section \<open>Properties\<close>

text \<open>
  \<open>DaysFromCivil\<close> counts the days of the Gregorian calendar: for a date of 1970 or later
  it is the sum of the lengths of the years since 1970, of the months before it in its year
  and of the days before it in its month.
\<close>

lemma civil_counts_days:
  assumes "1970 \<le> y" and "m < 12" and "1 \<le> d"
  shows "DaysFromCivil (int y) (m + 1) d
       = int ((\<Sum>i\<in>{1970..<y}. year_days i) + (\<Sum>i<m. month_days y i) + (d - 1))"
proof -
  have "{..<y} = {..<1970} \<union> {1970..<y}" using assms(1) by auto
  then have "days_before_year y = days_before_year 1970 + (\<Sum>i\<in>{1970..<y}. year_days i)"
    unfolding days_before_year_def by (simp add: sum.union_disjoint Int_def)
  then show ?thesis
    using DaysFromCivil_day_number [OF assms(2,3), of y] assms(1)
    by (simp add: day_number_def days_before_month_def)
qed

lemma civil_counts_days_witness: "DaysFromCivil 1972 3 1 = int (365 + 365 + 31 + 29)"
proof -
  have "{1970..<1972} = {1970, 1971 :: nat}" by auto
  then have "(\<Sum>i\<in>{1970..<1972}. year_days i) + (\<Sum>i<2. month_days 1972 i) = 365 + 365 + 31 + 29"
    by (simp add: year_days_def is_leap_def month_days_def numeral_2_eq_2 lessThan_Suc)
  then show ?thesis using civil_counts_days [of 1972 2 1] by simp
qed

text \<open>
  C40: A time the server writes into \<open>Last-Modified\<close> is the time it reads when the client
  sends the text back in \<open>If-Modified-Since\<close>, up to the year 9999.
\<close>

theorem http_date_roundtrip:
  assumes "clock < 2932897 * 86400" and "GetDateStringFromTimeT cached 64 None clock = Inr text"
  shows "ParseHTTPDate (Some text) = Some (int clock)"
proof -
  define t where "t = gmtime_r clock"
  define y where "y = EPOCH_YEAR_IN_TM_YEAR + tm_year t"
  note f = gmtime_fields [of clock, folded t_def, folded y_def]
  let ?d = "date_text (tm_wday t) (tm_mday t) (tm_mon t) y (tm_hour t) (tm_min t) (tm_sec t)"
  have len: "length ?d \<le> 29" using f(1-7,11) assms(1) by (intro date_text_length) auto
  have whole: "text = ?d @ [LF]"
    using assms(2) f(1,7) len
    by (simp add: GetDateStringFromTimeT_def GetDateString_def y_def t_def Let_def)
  have small: "n < 2 ^ 32" if "n \<le> 9999" for n :: nat using that by simp
  have fields: "date_fields (trimmed_date text)
      = Some (tm_mday t, months ! tm_mon t, y, tm_hour t, tm_min t, tm_sec t)"
    unfolding whole trimmed_date_text [OF f(1,7)]
    by (rule date_fields_civil) (use f assms(1) in auto)
  have civil: "DaysFromCivil (int y) (tm_mon t + 1) (tm_mday t) = int (clock div 86400)"
    using DaysFromCivil_day_number [OF f(1,2), of y] f(8,9) by simp
  have "int (clock div 86400) * 86400 + int (tm_hour t) * 3600 + int (tm_min t) * 60 + int (tm_sec t) = int clock"
    using f(10) div_mult_mod_eq [of clock 86400] by linarith
  then show ?thesis
    using fields civil len f(1-8,11) assms(1)
    by (simp add: ParseHTTPDate_def whole ParseMonthName_months)
qed

theorem http_date_roundtrip_witness:
  "\<exists>text. GetDateStringFromTimeT [] 64 None 1275136295 = Inr text \<and> ParseHTTPDate (Some text) = Some 1275136295"
proof -
  obtain u where t: "GetDateStringFromTimeT [] 64 None 1275136295 = Inr u"
    using gmtime_fields(1,7) [of 1275136295]
    by (simp add: GetDateStringFromTimeT_def GetDateString_def Let_def)
  from http_date_roundtrip [OF _ this] t show ?thesis by simp
qed

end
