(* ===== verification/Chunked.thy ===== *)
theory Chunked
  imports Prelude
begin

text \<open>
  The scanner and the in-place decoder of chunked request bodies
  (\<open>src/AmmServerlib/header_analysis/chunked_transfer.c\<close>).  A body is the list of the
  bytes received so far; positions are offsets into it.  \<open>WalkChunkedBody\<close> carries the
  buffer, which the decoder compacts in place while it still reads from it.  The grammar
  of RFC 9112 section 7.1, as far as the code reads it, is the inductive relation
  \<open>chunked_msg\<close>; the scanner accepts exactly its sentences.
\<close>

section \<open>The code\<close>

datatype chunk_scan =
  HTTP_CHUNKED_INCOMPLETE | HTTP_CHUNKED_COMPLETE | HTTP_CHUNKED_ERROR_BAD | HTTP_CHUNKED_ERROR_TOO_BIG

definition HexValue :: "char \<Rightarrow> int" where
  "HexValue c =
     (let b = int (byte_val c)
      in if 48 \<le> b \<and> b \<le> 57 then b - 48
         else if 97 \<le> b \<and> b \<le> 102 then 10 + (b - 97)
         else if 65 \<le> b \<and> b \<le> 70 then 10 + (b - 65)
         else -1)"

text \<open>
  The digit loop of \<open>ParseChunkSizeLine\<close>: the position, the size (an \<open>unsigned long\<close>)
  and the number of digits where it stops, or None where it gives up on an overflow.
\<close>

function size_digits :: "string \<Rightarrow> nat \<Rightarrow> nat \<Rightarrow> nat \<Rightarrow> (nat \<times> nat \<times> nat) option" where
  "size_digits body pos sz digits =
     (if pos < length body \<and> 0 \<le> HexValue (body ! pos)
      then (if sz > (2 ^ 64 - 1 - 15) div 16 then None
            else size_digits body (Suc pos)
                   ((sz * 16 + nat (HexValue (body ! pos))) mod 2 ^ 64) (Suc digits))
      else Some (pos, sz, digits))"
  by pat_completeness auto
termination
  by (relation "measure (\<lambda>(body, pos, sz, digits). length body - pos)") auto

declare size_digits.simps [simp del]

text \<open>An end of line at a position: CRLF, or a bare LF; the code writes this test out four times.\<close>

datatype eol = Eol_More | Eol_Bad | Eol_End nat

definition read_eol :: "string \<Rightarrow> nat \<Rightarrow> eol" where
  "read_eol body pos =
     (if pos \<ge> length body then Eol_More
      else if body ! pos = CR then
        (if pos + 1 \<ge> length body then Eol_More
         else if body ! (pos + 1) \<noteq> LF then Eol_Bad
         else Eol_End (pos + 2))
      else if body ! pos = LF then Eol_End (pos + 1)
      else Eol_Bad)"

abbreviation line_byte :: "char \<Rightarrow> bool" where
  "line_byte c \<equiv> c \<noteq> CR \<and> c \<noteq> LF"

text \<open>The results 0, -1, -2 and 1 of \<open>ParseChunkSizeLine\<close>, the last with its two outputs.\<close>

datatype size_line = Size_More | Size_Bad | Size_TooBig | Size_OK nat nat

definition ParseChunkSizeLine :: "string \<Rightarrow> nat \<Rightarrow> nat \<Rightarrow> nat \<Rightarrow> size_line" where
  "ParseChunkSizeLine body position maxDecodedSize decodedSoFar =
     (case size_digits body position 0 0 of
        None \<Rightarrow> Size_Bad
      | Some (pos, sz, digits) \<Rightarrow>
          if digits = 0 then Size_Bad
          else
            (let pos = scan_while line_byte body (length body) pos
             in case read_eol body pos of
                  Eol_More \<Rightarrow> Size_More
                | Eol_Bad \<Rightarrow> Size_Bad
                | Eol_End pos \<Rightarrow>
                    if sz > maxDecodedSize \<or> decodedSoFar > maxDecodedSize - sz then Size_TooBig
                    else Size_OK pos sz))"

text \<open>The trailer section after the zero chunk: its loop over the lines, then the whole routine.\<close>

function trailer_lines :: "string \<Rightarrow> nat \<Rightarrow> eol" where
  "trailer_lines body pos =
     (if pos < length body then
        (let eolPos = scan_while line_byte body (length body) pos
         in case read_eol body eolPos of
              Eol_More \<Rightarrow> Eol_More
            | Eol_Bad \<Rightarrow> Eol_Bad
            | Eol_End next \<Rightarrow> if eolPos = pos then Eol_End next else trailer_lines body next)
      else Eol_More)"
  by pat_completeness auto

lemma read_eol_End:
  "read_eol body pos = Eol_End p \<Longrightarrow> pos < p \<and> p \<le> length body"
  by (auto simp: read_eol_def split: if_splits)

termination trailer_lines
proof (relation "measure (\<lambda>(body, pos). length body - pos)")
  fix body pos eolPos p
  assume "pos < length body"
    and "eolPos = scan_while line_byte body (length body) pos"
    and "read_eol body eolPos = Eol_End p"
  then show "((body, p), body, pos) \<in> measure (\<lambda>(body, pos). length body - pos)"
    using read_eol_End [of body eolPos p] scan_while_ge [of pos line_byte body "length body"] by auto
qed simp

declare trailer_lines.simps [simp del]

definition ParseTrailerSection :: "string \<Rightarrow> nat \<Rightarrow> eol" where
  "ParseTrailerSection body position =
     (if position \<ge> length body then Eol_More
      else if body ! position = CR \<or> body ! position = LF then read_eol body position
      else trailer_lines body position)"

text \<open>\<open>memmove(buf+w,buf+r,n)\<close> inside one buffer.\<close>

definition memmove_in :: "string \<Rightarrow> nat \<Rightarrow> nat \<Rightarrow> nat \<Rightarrow> string" where
  "memmove_in buf w r n =
     map (\<lambda>i. if w \<le> i \<and> i < w + n then buf ! (r + (i - w)) else buf ! i) [0..<length buf]"

lemma length_memmove_in [simp]: "length (memmove_in buf w r n) = length buf"
  by (simp add: memmove_in_def)

lemma size_digits_progress:
  "size_digits body pos n digits = Some (p, sz, k) \<Longrightarrow> pos \<le> p \<and> k - digits = p - pos \<and> digits \<le> k"
proof (induction body pos n digits arbitrary: p sz k rule: size_digits.induct)
  case (1 body pos n digits)
  show ?case
  proof (cases "pos < length body \<and> 0 \<le> HexValue (body ! pos)")
    case True
    with 1 show ?thesis
      by (fastforce simp: size_digits.simps [of body pos n digits] split: if_splits)
  next
    case False
    with "1.prems" show ?thesis by (auto simp: size_digits.simps [of body pos n digits])
  qed
qed

lemma ParseChunkSizeLine_progress:
  assumes "ParseChunkSizeLine body pos mx d = Size_OK p sz"
  shows "pos < p" and "p \<le> length body" and "sz \<le> mx" and "d + sz \<le> mx"
proof -
  from assms obtain q k e where sd: "size_digits body pos 0 0 = Some (q, sz, k)" and k: "k \<noteq> 0"
    and e: "e = scan_while line_byte body (length body) q"
    and r: "read_eol body e = Eol_End p" and sz: "sz \<le> mx" "\<not> d > mx - sz"
    by (auto simp: ParseChunkSizeLine_def Let_def split: option.splits prod.splits if_splits eol.splits)
  have "pos < q" using size_digits_progress [OF sd] k by auto
  then show "pos < p" and "p \<le> length body"
    using read_eol_End [OF r] e scan_while_ge [of q line_byte body "length body"] by auto
  from sz show "sz \<le> mx" and "d + sz \<le> mx" by auto
qed

text \<open>
  The walker.  With \<open>writeBody\<close> the payload is moved down inside the buffer it is read
  from; \<open>decodedSize\<close> is written on completion only.
\<close>

function WalkChunkedBody ::
    "bool \<Rightarrow> string \<Rightarrow> nat \<Rightarrow> nat \<Rightarrow> nat \<Rightarrow> nat \<Rightarrow> chunk_scan \<times> string \<times> nat option" where
  "WalkChunkedBody writeBody body maxDecodedSize readPos writePos decoded =
     (case ParseChunkSizeLine body readPos maxDecodedSize decoded of
        Size_More \<Rightarrow> (HTTP_CHUNKED_INCOMPLETE, body, None)
      | Size_Bad \<Rightarrow> (HTTP_CHUNKED_ERROR_BAD, body, None)
      | Size_TooBig \<Rightarrow> (HTTP_CHUNKED_ERROR_TOO_BIG, body, None)
      | Size_OK pos chunkSize \<Rightarrow>
          if chunkSize = 0 then
            (case ParseTrailerSection body pos of
               Eol_More \<Rightarrow> (HTTP_CHUNKED_INCOMPLETE, body, None)
             | Eol_Bad \<Rightarrow> (HTTP_CHUNKED_ERROR_BAD, body, None)
             | Eol_End _ \<Rightarrow> (HTTP_CHUNKED_COMPLETE, body, Some decoded))
          else if length body - pos < chunkSize then (HTTP_CHUNKED_INCOMPLETE, body, None)
          else
            (let body' = (if writeBody then memmove_in body writePos pos chunkSize else body);
                 writePos' = (if writeBody then writePos + chunkSize else writePos)
             in case read_eol body' (pos + chunkSize) of
                  Eol_More \<Rightarrow> (HTTP_CHUNKED_INCOMPLETE, body', None)
                | Eol_Bad \<Rightarrow> (HTTP_CHUNKED_ERROR_BAD, body', None)
                | Eol_End next \<Rightarrow>
                    WalkChunkedBody writeBody body' maxDecodedSize next writePos' (decoded + chunkSize)))"
  by pat_completeness auto
termination
proof (relation "measure (\<lambda>(wb, body, mx, r, w, d). length body - r)")
  fix wb :: bool and body :: string and mx r w d pos sz nxt :: nat and body' w'
  assume p: "ParseChunkSizeLine body r mx d = Size_OK pos sz"
    and b: "body' = (if wb then memmove_in body w pos sz else body)"
    and e: "read_eol body' (pos + sz) = Eol_End nxt"
  have "r < pos" and "pos + sz < nxt" and "nxt \<le> length body"
    using ParseChunkSizeLine_progress [OF p] read_eol_End [OF e] b by (auto split: if_splits)
  then show "((wb, body', mx, nxt, w', d + sz), wb, body, mx, r, w, d)
               \<in> measure (\<lambda>(wb, body, mx, r, w, d). length body - r)"
    using b by auto
qed simp

declare WalkChunkedBody.simps [simp del]

definition HTTPChunkedBodyScan :: "string option \<Rightarrow> nat \<Rightarrow> chunk_scan \<times> nat option" where
  "HTTPChunkedBodyScan body maxDecodedSize =
     (case body of
        None \<Rightarrow> (HTTP_CHUNKED_ERROR_BAD, None)
      | Some body \<Rightarrow>
          (case WalkChunkedBody False body maxDecodedSize 0 0 0 of (r, _, d) \<Rightarrow> (r, d)))"

definition HTTPChunkedBodyDecode :: "string option \<Rightarrow> nat \<Rightarrow> chunk_scan \<times> string option \<times> nat option" where
  "HTTPChunkedBodyDecode body maxDecodedSize =
     (case body of
        None \<Rightarrow> (HTTP_CHUNKED_ERROR_BAD, None, None)
      | Some body \<Rightarrow>
          (case WalkChunkedBody True body maxDecodedSize 0 0 0 of (r, b, d) \<Rightarrow> (r, Some b, d)))"

section \<open>The grammar of chunked framing\<close>

definition is_eol :: "string \<Rightarrow> bool" where
  "is_eol e \<longleftrightarrow> e = crlf \<or> e = [LF]"

definition is_hex :: "char \<Rightarrow> bool" where
  "is_hex c \<longleftrightarrow> 0 \<le> HexValue c"

fun hexsum :: "nat \<Rightarrow> string \<Rightarrow> nat" where
  "hexsum a [] = a"
| "hexsum a (c # cs) = hexsum (a * 16 + nat (HexValue c)) cs"

text \<open>A chunk-size line: hexadecimal digits, extensions that are ignored, an end of line.\<close>

definition is_size_line :: "string \<Rightarrow> nat \<Rightarrow> bool" where
  "is_size_line l n \<longleftrightarrow>
     (\<exists>h ext e. l = h @ ext @ e \<and> h \<noteq> [] \<and> list_all is_hex h \<and> hexsum 0 h = n \<and>
        list_all line_byte ext \<and> (ext \<noteq> [] \<longrightarrow> \<not> is_hex (hd ext)) \<and> is_eol e)"

inductive trailer :: "string \<Rightarrow> bool" where
  trailer_end: "is_eol e \<Longrightarrow> trailer e"
| trailer_line: "l \<noteq> [] \<Longrightarrow> list_all line_byte l \<Longrightarrow> is_eol e \<Longrightarrow> trailer t \<Longrightarrow> trailer (l @ e @ t)"

inductive chunked_msg :: "string \<Rightarrow> string \<Rightarrow> bool" where
  last_chunk: "is_size_line l 0 \<Longrightarrow> trailer t \<Longrightarrow> chunked_msg (l @ t) []"
| data_chunk: "is_size_line l (length d) \<Longrightarrow> d \<noteq> [] \<Longrightarrow> is_eol e \<Longrightarrow> chunked_msg m p \<Longrightarrow>
     chunked_msg (l @ d @ e @ m) (d @ p)"

lemma hexsum_ge: "a \<le> hexsum a h"
proof (induction h arbitrary: a)
  case (Cons c h)
  have "a \<le> a * 16 + nat (HexValue c)" by simp
  also have "\<dots> \<le> hexsum (a * 16 + nat (HexValue c)) h" by (rule Cons.IH)
  finally show ?case by simp
qed simp

lemma HexValue_lt: "HexValue c < 16"
  by (auto simp: HexValue_def Let_def)

lemma eol_not_hex: "is_eol e \<Longrightarrow> e \<noteq> [] \<and> \<not> is_hex (hd e) \<and> \<not> line_byte (hd e)"
  by (auto simp: is_eol_def is_hex_def HexValue_def)

lemma size_digits_sound:
  "size_digits body pos n k = Some (p, sz, k') \<Longrightarrow> pos \<le> length body \<Longrightarrow>
     pos \<le> p \<and> p \<le> length body \<and> k' = k + (p - pos) \<and> sz = hexsum n (between body pos p) \<and>
     list_all is_hex (between body pos p) \<and> (p < length body \<longrightarrow> \<not> is_hex (body ! p))"
proof (induction body pos n k arbitrary: p sz k' rule: size_digits.induct)
  case (1 body pos n k)
  show ?case
  proof (cases "pos < length body \<and> is_hex (body ! pos)")
    case True
    let ?v = "n * 16 + nat (HexValue (body ! pos))"
    from True "1.prems"(1) have n: "\<not> n > (2 ^ 64 - 1 - 15) div 16"
      and s: "size_digits body (Suc pos) (?v mod 2 ^ 64) (Suc k) = Some (p, sz, k')"
      by (auto simp: size_digits.simps [of body pos n k] is_hex_def split: if_splits)
    have v: "?v mod 2 ^ 64 = ?v"
      using n HexValue_lt [of "body ! pos"] by (intro mod_less) simp
    have IH: "Suc pos \<le> p \<and> p \<le> length body \<and> k' = Suc k + (p - Suc pos) \<and>
        sz = hexsum ?v (between body (Suc pos) p) \<and> list_all is_hex (between body (Suc pos) p) \<and>
        (p < length body \<longrightarrow> \<not> is_hex (body ! p))"
      using "1.IH" True n s unfolding v is_hex_def by simp
    then have "between body pos p = body ! pos # between body (Suc pos) p"
      using True between_append [of pos "Suc pos" p body] by simp
    then show ?thesis using IH True by auto
  next
    case False
    with "1.prems" show ?thesis
      by (auto simp: size_digits.simps [of body pos n k] is_hex_def split: if_splits)
  qed
qed

lemma size_digits_complete:
  "list_all is_hex h \<Longrightarrow> hexsum n h < 2 ^ 64 \<Longrightarrow> (rest \<noteq> [] \<longrightarrow> \<not> is_hex (hd rest)) \<Longrightarrow>
     size_digits (pre @ h @ rest) (length pre) n k = Some (length pre + length h, hexsum n h, k + length h)"
proof (induction h arbitrary: pre n k)
  case Nil
  then show ?case
    by (cases rest; subst size_digits.simps) (auto simp: is_hex_def)
next
  case (Cons c h)
  let ?v = "n * 16 + nat (HexValue c)"
  have lt: "?v < 2 ^ 64"
    using Cons.prems(2) hexsum_ge [of ?v h] by simp
  have "size_digits (pre @ (c # h) @ rest) (length pre) n k
      = size_digits ((pre @ [c]) @ h @ rest) (length (pre @ [c])) ?v (Suc k)"
    using Cons.prems(1) lt
    by (simp add: size_digits.simps [of "pre @ c # h @ rest" "length pre"] is_hex_def)
  also have "\<dots> = Some (length (pre @ [c]) + length h, hexsum ?v h, Suc k + length h)"
    using Cons.prems by (intro Cons.IH) auto
  finally show ?case by simp
qed

lemma read_eol_sound:
  "read_eol body pos = Eol_End p \<Longrightarrow> pos < p \<and> p \<le> length body \<and> is_eol (between body pos p)"
  using between_append [of pos "Suc pos" "Suc (Suc pos)" body]
  by (auto simp: read_eol_def is_eol_def split: if_splits)

lemma read_eol_complete:
  "is_eol e \<Longrightarrow> read_eol (pre @ e @ post) (length pre) = Eol_End (length pre + length e)"
  by (auto simp: read_eol_def is_eol_def nth_append)

lemma scan_line_run:
  assumes "list_all line_byte ext" and "is_eol e"
  shows "scan_while line_byte (pre @ ext @ e @ post) (length (pre @ ext @ e @ post)) (length pre)
           = length pre + length ext"
proof -
  obtain c cs where "e = c # cs" and "\<not> line_byte c"
    using eol_not_hex [OF assms(2)] by (cases e) auto
  then show ?thesis
    using assms(1) scan_while_run [of ext line_byte c pre "cs @ post"] by (simp add: list_all_iff)
qed

lemma ParseChunkSizeLine_sound:
  assumes "ParseChunkSizeLine body pos mx d = Size_OK p sz" and "pos \<le> length body"
  shows "pos < p \<and> p \<le> length body \<and> is_size_line (between body pos p) sz \<and> d + sz \<le> mx"
proof -
  from assms obtain q k where sd: "size_digits body pos 0 0 = Some (q, sz, k)" and k: "k \<noteq> 0"
    and r: "read_eol body (scan_while line_byte body (length body) q) = Eol_End p"
    by (auto simp: ParseChunkSizeLine_def Let_def split: option.splits prod.splits if_splits eol.splits)
  let ?e = "scan_while line_byte body (length body) q"
  note d0 = size_digits_sound [OF sd assms(2)]
  note e = read_eol_sound [OF r]
  have d: "pos \<le> q" "q \<le> length body" "k = q - pos" and hx: "hexsum 0 (between body pos q) = sz"
    "list_all is_hex (between body pos q)" and stop: "q < length body \<longrightarrow> \<not> is_hex (body ! q)"
    using d0 by simp_all
  have qe: "q \<le> ?e" by (rule scan_while_ge)
  have ext: "list_all line_byte (between body q ?e)"
    unfolding list_all_iff by (rule between_scan_while [OF order_refl d(2)])
  have nh: "between body q ?e \<noteq> [] \<longrightarrow> \<not> is_hex (hd (between body q ?e))"
    using stop by (auto simp: between_def hd_drop_conv_nth)
  have split: "between body pos p = between body pos q @ between body q ?e @ between body ?e p"
    using d e qe between_append [of pos q p body] between_append [of q ?e p body] by simp
  have ne: "between body pos q \<noteq> []"
    using d k length_between [of q body pos] by (cases "q = pos") auto
  have "is_size_line (between body pos p) sz"
    unfolding is_size_line_def
    by (intro exI [of _ "between body pos q"] exI [of _ "between body q ?e"] exI [of _ "between body ?e p"]
        conjI split ne ext nh) (use hx e in simp_all)
  then show ?thesis using ParseChunkSizeLine_progress [OF assms(1)] by simp
qed

lemma ParseChunkSizeLine_complete:
  assumes "is_size_line l n" and "n < 2 ^ 64" and "d + n \<le> mx"
  shows "ParseChunkSizeLine (pre @ l @ post) (length pre) mx d = Size_OK (length pre + length l) n"
proof -
  from assms(1) obtain h ext e where l: "l = h @ ext @ e" and h: "h \<noteq> []" "list_all is_hex h" "hexsum 0 h = n"
    and ext: "list_all line_byte ext" "ext \<noteq> [] \<longrightarrow> \<not> is_hex (hd ext)" and e: "is_eol e"
    by (auto simp: is_size_line_def)
  have sd: "size_digits (pre @ l @ post) (length pre) 0 0 = Some (length pre + length h, n, length h)"
    using size_digits_complete [of h 0 "ext @ e @ post" pre 0] h ext assms(2) eol_not_hex [OF e] l
    by (cases ext) (auto simp: hd_append)
  have sc: "scan_while line_byte (pre @ l @ post) (length (pre @ l @ post)) (length pre + length h)
      = length pre + length h + length ext"
    using scan_line_run [OF ext(1) e, of "pre @ h" post] l by (simp add: add.assoc)
  have re: "read_eol (pre @ l @ post) (length pre + length h + length ext) = Eol_End (length pre + length l)"
    using read_eol_complete [OF e, of "pre @ h @ ext" post] l by (simp add: add.assoc)
  show ?thesis
    using sd sc re h(1) assms(3) by (auto simp: ParseChunkSizeLine_def Let_def)
qed

lemma trailer_lines_sound:
  "trailer_lines body pos = Eol_End p \<Longrightarrow> pos \<le> length body \<Longrightarrow>
     pos < p \<and> p \<le> length body \<and> trailer (between body pos p)"
proof (induction body pos arbitrary: p rule: trailer_lines.induct)
  case (1 body pos)
  let ?e = "scan_while line_byte body (length body) pos"
  from "1.prems"(1) obtain nxt where lt: "pos < length body" and r: "read_eol body ?e = Eol_End nxt"
    by (auto simp: trailer_lines.simps [of body pos] Let_def split: if_splits eol.splits)
  note e = read_eol_sound [OF r]
  have pe: "pos \<le> ?e" by (rule scan_while_ge)
  show ?case
  proof (cases "?e = pos")
    case True
    with "1.prems" lt r e show ?thesis
      by (auto simp: trailer_lines.simps [of body pos] intro: trailer_end)
  next
    case False
    with "1.prems" lt r have rest: "trailer_lines body nxt = Eol_End p"
      by (simp add: trailer_lines.simps [of body pos])
    have IH: "nxt < p \<and> p \<le> length body \<and> trailer (between body nxt p)"
      using "1.IH" [OF lt refl r False rest] e by simp
    have run: "list_all line_byte (between body pos ?e)"
      unfolding list_all_iff using lt by (intro between_scan_while) simp_all
    have "between body pos p = between body pos ?e @ between body ?e nxt @ between body nxt p"
      using pe e IH between_append [of pos ?e p body] between_append [of ?e nxt p body] by simp
    moreover have "between body pos ?e \<noteq> []"
      using False pe e length_between [of ?e body pos] by (cases "?e - pos") auto
    ultimately have "trailer (between body pos p)"
      using trailer_line [OF _ run] e IH by simp
    with IH e pe show ?thesis by linarith
  qed
qed

lemma ParseTrailerSection_sound:
  assumes "ParseTrailerSection body pos = Eol_End p"
  shows "p \<le> length body \<and> pos < p \<and> trailer (between body pos p)"
  using assms trailer_lines_sound [of body pos p] read_eol_sound [of body pos p]
  by (auto simp: ParseTrailerSection_def trailer_end split: if_splits)

lemma trailer_lines_complete:
  "trailer t \<Longrightarrow> trailer_lines (pre @ t @ post) (length pre) = Eol_End (length pre + length t)"
proof (induction t arbitrary: pre rule: trailer.induct)
  case (trailer_end e)
  then have "scan_while line_byte (pre @ e @ post) (length (pre @ e @ post)) (length pre) = length pre"
    using scan_line_run [of "[]" e pre post] by simp
  then show ?case
    using read_eol_complete [OF trailer_end, of pre post] eol_not_hex [OF trailer_end]
    by (subst trailer_lines.simps) (simp add: Let_def)
next
  case (trailer_line l e t)
  let ?s = "pre @ (l @ e @ t) @ post"
  have sc: "scan_while line_byte ?s (length ?s) (length pre) = length pre + length l"
    using scan_line_run [OF trailer_line(2,3), of pre "t @ post"] by simp
  have re: "read_eol ?s (length pre + length l) = Eol_End (length (pre @ l @ e))"
    using read_eol_complete [OF trailer_line(3), of "pre @ l" "t @ post"] by (simp add: add.assoc)
  have IH: "trailer_lines ?s (length (pre @ l @ e)) = Eol_End (length (pre @ l @ e) + length t)"
    using trailer_line.IH [of "pre @ l @ e"] by simp
  have "0 < length l" using trailer_line(1) by simp
  then show ?case
    using sc re IH by (subst trailer_lines.simps) auto
qed

lemma ParseTrailerSection_complete:
  assumes "trailer t"
  shows "ParseTrailerSection (pre @ t @ post) (length pre) = Eol_End (length pre + length t)"
  using assms
proof (cases rule: trailer.cases)
  case trailer_end
  then show ?thesis
    using read_eol_complete [of t pre post] eol_not_hex [of t]
    by (cases t) (auto simp: ParseTrailerSection_def)
next
  case (trailer_line l e t')
  then have "line_byte ((pre @ t @ post) ! length pre)" and "t \<noteq> []"
    by (cases l; auto)+
  then show ?thesis
    using trailer_lines_complete [OF assms, of pre post] by (auto simp: ParseTrailerSection_def)
qed

lemma walk_sound:
  assumes "WalkChunkedBody False body mx r w d = (HTTP_CHUNKED_COMPLETE, b, Some n)"
    and "r \<le> length body" and "d \<le> mx"
  shows "n \<le> mx \<and> (\<exists>m p rest. drop r body = m @ rest \<and> chunked_msg m p \<and> n = d + length p)"
  using assms
proof (induction "False" body mx r w d arbitrary: b n rule: WalkChunkedBody.induct)
  case (1 body mx r w d)
  from "1.prems"(1) obtain pos sz where ps: "ParseChunkSizeLine body r mx d = Size_OK pos sz"
    by (auto simp: WalkChunkedBody.simps [of False body mx r w d] split: size_line.splits)
  note l = ParseChunkSizeLine_sound [OF ps "1.prems"(2)]
  have dl: "drop r body = between body r pos @ drop pos body"
    using l by (intro drop_between) simp
  show ?case
  proof (cases "sz = 0")
    case True
    with "1.prems"(1) ps obtain q where t: "ParseTrailerSection body pos = Eol_End q" and n: "n = d"
      by (auto simp: WalkChunkedBody.simps [of False body mx r w d] split: eol.splits)
    note t = ParseTrailerSection_sound [OF t]
    have "drop r body = (between body r pos @ between body pos q) @ drop q body"
      using dl t drop_between [of pos q body] by simp
    moreover have "chunked_msg (between body r pos @ between body pos q) []"
      using l t True by (intro last_chunk) simp_all
    ultimately have "\<exists>m p rest. drop r body = m @ rest \<and> chunked_msg m p \<and> n = d + length p"
      using n by (metis add_0_right list.size(3))
    then show ?thesis using n "1.prems"(3) by simp
  next
    case False
    with "1.prems"(1) ps obtain q where fits: "\<not> length body - pos < sz"
      and e: "read_eol body (pos + sz) = Eol_End q"
      and rest: "WalkChunkedBody False body mx q w (d + sz) = (HTTP_CHUNKED_COMPLETE, b, Some n)"
      by (auto simp: WalkChunkedBody.simps [of False body mx r w d] Let_def split: eol.splits if_splits)
    note e' = read_eol_sound [OF e]
    have "n \<le> mx \<and> (\<exists>m p rest. drop q body = m @ rest \<and> chunked_msg m p \<and> n = d + sz + length p)"
      by (rule "1.hyps" [OF ps False fits refl refl, unfolded if_False, OF e rest]) (use e' l in simp_all)
    then obtain m p tl where n: "n \<le> mx" "n = d + sz + length p" and m: "drop q body = m @ tl" "chunked_msg m p"
      by blast
    let ?data = "slice body pos sz"
    have data: "length ?data = sz" "?data \<noteq> []" using fits False l by (auto simp: slice_def)
    have "drop r body = (between body r pos @ ?data @ between body (pos + sz) q @ m) @ tl"
      using dl m(1) e' drop_between [of pos "pos + sz" body] drop_between [of "pos + sz" q body]
      by (simp add: slice_between)
    moreover have "chunked_msg (between body r pos @ ?data @ between body (pos + sz) q @ m) (?data @ p)"
      using l data e' m(2) by (intro data_chunk) simp_all
    moreover have "n = d + length (?data @ p)" using n data(1) by simp
    ultimately show ?thesis using n(1) by blast
  qed
qed

lemma drop_memmove_in: "w + n \<le> k \<Longrightarrow> drop k (memmove_in buf w r n) = drop k buf"
  by (rule nth_equalityI) (auto simp: memmove_in_def)

lemma take_memmove_in:
  assumes "w \<le> r" and "r + n \<le> length buf"
  shows "take (w + n) (memmove_in buf w r n) = take w buf @ slice buf r n"
  using assms by (intro nth_equalityI) (auto simp: memmove_in_def slice_def nth_append)

lemma walk_complete:
  assumes "chunked_msg m p" and "d + length p \<le> mx" and "mx < 2 ^ 64" and "w \<le> length pre"
  shows "\<exists>buf. WalkChunkedBody wb (pre @ m @ rest) mx (length pre) w d
                 = (HTTP_CHUNKED_COMPLETE, buf, Some (d + length p)) \<and>
               (wb \<longrightarrow> take (w + length p) buf = take w pre @ p)"
  using assms
proof (induction m p arbitrary: pre w d rule: chunked_msg.induct)
  case (last_chunk l t)
  have "ParseChunkSizeLine (pre @ (l @ t) @ rest) (length pre) mx d = Size_OK (length pre + length l) 0"
    using ParseChunkSizeLine_complete [OF last_chunk(1), of d mx pre "t @ rest"] last_chunk.prems by simp
  moreover have "ParseTrailerSection (pre @ (l @ t) @ rest) (length pre + length l)
      = Eol_End (length pre + length l + length t)"
    using ParseTrailerSection_complete [OF last_chunk(2), of "pre @ l" rest] by (simp add: add.assoc)
  ultimately show ?case
    using last_chunk.prems by (subst WalkChunkedBody.simps) simp
next
  case (data_chunk l da e m p)
  let ?s = "pre @ (l @ da @ e @ m) @ rest" and ?pos = "length pre + length l"
  let ?s' = "if wb then memmove_in ?s w ?pos (length da) else ?s"
  let ?w' = "if wb then w + length da else w"
  have ps: "ParseChunkSizeLine ?s (length pre) mx d = Size_OK ?pos (length da)"
    using ParseChunkSizeLine_complete [OF data_chunk(1), of d mx pre "da @ e @ m @ rest"]
      data_chunk.prems by simp
  obtain pre' where s': "?s' = pre' @ e @ m @ rest" and lp: "length pre' = ?pos + length da"
    and tk: "wb \<Longrightarrow> take (w + length da) pre' = take w pre @ da"
  proof -
    have dr: "drop (?pos + length da) ?s' = e @ m @ rest"
      using data_chunk.prems(3) by (simp add: drop_memmove_in)
    have "?s' = take (?pos + length da) ?s' @ drop (?pos + length da) ?s'"
      by (rule append_take_drop_id [symmetric])
    then have "?s' = take (?pos + length da) ?s' @ e @ m @ rest"
      unfolding dr .
    moreover have "length (take (?pos + length da) ?s') = ?pos + length da" by simp
    moreover have "wb \<Longrightarrow> take (w + length da) (take (?pos + length da) ?s') = take w pre @ da"
      using data_chunk.prems(3) take_memmove_in [of w ?pos "length da" ?s] by (simp add: slice_def min_absorb1)
    ultimately show thesis by (rule that)
  qed
  let ?q = "length (pre' @ e)"
  have re: "read_eol ?s' (?pos + length da) = Eol_End ?q"
    using read_eol_complete [OF data_chunk(3), of pre' "m @ rest"] s' lp by simp
  have "\<exists>buf. WalkChunkedBody wb ((pre' @ e) @ m @ rest) mx ?q ?w' (d + length da)
              = (HTTP_CHUNKED_COMPLETE, buf, Some (d + length da + length p)) \<and>
            (wb \<longrightarrow> take (?w' + length p) buf = take ?w' (pre' @ e) @ p)"
    using data_chunk.prems lp by (intro data_chunk.IH) auto
  then obtain buf where walk: "WalkChunkedBody wb ?s' mx ?q ?w' (d + length da)
      = (HTTP_CHUNKED_COMPLETE, buf, Some (d + length da + length p))"
    and c: "wb \<longrightarrow> take (?w' + length p) buf = take ?w' (pre' @ e) @ p"
    using s' by auto
  have "WalkChunkedBody wb ?s mx (length pre) w d = WalkChunkedBody wb ?s' mx ?q ?w' (d + length da)"
    using ps re data_chunk(2) by (subst WalkChunkedBody.simps) (simp add: Let_def)
  moreover have "wb \<longrightarrow> take (w + length (da @ p)) buf = take w pre @ da @ p"
    using c tk lp data_chunk.prems(3) by (auto simp: add.assoc)
  ultimately show ?case using walk by (auto simp: add.assoc)
qed

lemma walk_gives_size:
  "WalkChunkedBody wb body mx r w d = (HTTP_CHUNKED_COMPLETE, b, x) \<Longrightarrow> x \<noteq> None"
proof (induction wb body mx r w d rule: WalkChunkedBody.induct)
  case (1 wb body mx r w d)
  from "1.prems" show ?case
    by (auto simp: WalkChunkedBody.simps [of wb body mx r w d] Let_def
        split: size_line.splits eol.splits if_splits dest: "1.IH")
qed

lemma walk_complete_iff:
  assumes "mx < 2 ^ 64"
  shows "fst (WalkChunkedBody False body mx 0 0 0) = HTTP_CHUNKED_COMPLETE
    \<longleftrightarrow> (\<exists>m p rest. body = m @ rest \<and> chunked_msg m p \<and> length p \<le> mx)"
proof
  assume "fst (WalkChunkedBody False body mx 0 0 0) = HTTP_CHUNKED_COMPLETE"
  then obtain b n where w: "WalkChunkedBody False body mx 0 0 0 = (HTTP_CHUNKED_COMPLETE, b, Some n)"
    using walk_gives_size by (metis option.exhaust prod.collapse)
  from walk_sound [OF this] show "\<exists>m p rest. body = m @ rest \<and> chunked_msg m p \<and> length p \<le> mx" by auto
next
  assume "\<exists>m p rest. body = m @ rest \<and> chunked_msg m p \<and> length p \<le> mx"
  then obtain m p rest where "body = m @ rest" and "chunked_msg m p" and "length p \<le> mx" by blast
  then show "fst (WalkChunkedBody False body mx 0 0 0) = HTTP_CHUNKED_COMPLETE"
    using walk_complete [of m p 0 mx 0 "[]" False rest] assms by auto
qed

text \<open>What has arrived when the connection pauses between two chunks: some data chunks, complete.\<close>

inductive chunk_run :: "string \<Rightarrow> string \<Rightarrow> bool" where
  no_chunk: "chunk_run [] []"
| one_more: "is_size_line l (length d) \<Longrightarrow> d \<noteq> [] \<Longrightarrow> is_eol e \<Longrightarrow> chunk_run m p \<Longrightarrow>
     chunk_run (l @ d @ e @ m) (d @ p)"

lemma chunk_run_msg: "chunk_run m p \<Longrightarrow> chunked_msg m' q \<Longrightarrow> chunked_msg (m @ m') (p @ q)"
  by (induction rule: chunk_run.induct) (use data_chunk in auto)

lemma walk_data_chunk:
  assumes "is_size_line l (length da)" and "da \<noteq> []" and "is_eol e" and "d + length da \<le> mx" and "mx < 2 ^ 64"
  shows "WalkChunkedBody False (pre @ (l @ da @ e) @ rest) mx (length pre) w d
       = WalkChunkedBody False (pre @ (l @ da @ e) @ rest) mx (length (pre @ l @ da @ e)) w (d + length da)"
proof -
  let ?s = "pre @ (l @ da @ e) @ rest"
  have "ParseChunkSizeLine ?s (length pre) mx d = Size_OK (length pre + length l) (length da)"
    using ParseChunkSizeLine_complete [OF assms(1), of d mx pre "da @ e @ rest"] assms(4,5) by simp
  moreover have "read_eol ?s (length pre + length l + length da) = Eol_End (length (pre @ l @ da @ e))"
    using read_eol_complete [OF assms(3), of "pre @ l @ da" rest] by (simp add: add.assoc)
  ultimately show ?thesis
    using assms(2) by (subst WalkChunkedBody.simps) simp
qed

lemma walk_at_end: "WalkChunkedBody False s mx (length s) w d = (HTTP_CHUNKED_ERROR_BAD, s, None)"
  by (simp add: WalkChunkedBody.simps ParseChunkSizeLine_def size_digits.simps)

lemma walk_run:
  "chunk_run m p \<Longrightarrow> d + length p \<le> mx \<Longrightarrow> mx < 2 ^ 64 \<Longrightarrow>
     WalkChunkedBody False (pre @ m) mx (length pre) w d = (HTTP_CHUNKED_ERROR_BAD, pre @ m, None)"
proof (induction m p arbitrary: pre d rule: chunk_run.induct)
  case no_chunk
  then show ?case using walk_at_end [of pre] by simp
next
  case (one_more l da e m p)
  then show ?case
    using walk_data_chunk [OF one_more(1-3), of d mx pre m w] one_more.IH [of "d + length da" "pre @ l @ da @ e"]
    by simp
qed

section \<open>Properties\<close>

text \<open>
  C30: the scanner says a body is complete, with n decoded bytes, exactly when the bytes
  received begin with a sentence of the chunked grammar whose payload has n bytes and
  fits the configured maximum.
\<close>

theorem chunked_scan_iff_grammar:
  assumes "mx < 2 ^ 64"
  shows "HTTPChunkedBodyScan (Some body) mx = (HTTP_CHUNKED_COMPLETE, Some n) \<longleftrightarrow>
           n \<le> mx \<and> (\<exists>m p rest. body = m @ rest \<and> chunked_msg m p \<and> n = length p)"
proof
  assume "HTTPChunkedBodyScan (Some body) mx = (HTTP_CHUNKED_COMPLETE, Some n)"
  then obtain b where "WalkChunkedBody False body mx 0 0 0 = (HTTP_CHUNKED_COMPLETE, b, Some n)"
    by (auto simp: HTTPChunkedBodyScan_def split: prod.splits)
  from walk_sound [OF this]
  show "n \<le> mx \<and> (\<exists>m p rest. body = m @ rest \<and> chunked_msg m p \<and> n = length p)" by simp
next
  assume "n \<le> mx \<and> (\<exists>m p rest. body = m @ rest \<and> chunked_msg m p \<and> n = length p)"
  then obtain m p rest where "n \<le> mx" and "body = m @ rest" and "chunked_msg m p" and "n = length p"
    by blast
  then show "HTTPChunkedBodyScan (Some body) mx = (HTTP_CHUNKED_COMPLETE, Some n)"
    using walk_complete [of m p 0 mx 0 "[]" False rest] assms by (auto simp: HTTPChunkedBodyScan_def)
qed

lemma size_line_5: "is_size_line (''5'' @ crlf) (length ''hello'')"
  unfolding is_size_line_def
  by (rule exI [of _ "''5''"], rule exI [of _ "[]"], rule exI [of _ crlf])
    (simp add: is_hex_def HexValue_def is_eol_def)

lemma size_line_0: "is_size_line (''0'' @ crlf) 0"
  unfolding is_size_line_def
  by (rule exI [of _ "''0''"], rule exI [of _ "[]"], rule exI [of _ crlf])
    (simp add: is_hex_def HexValue_def is_eol_def)

lemma last_msg: "chunked_msg (''0'' @ crlf @ crlf) []"
  using last_chunk [OF size_line_0 trailer_end [of crlf]] by (simp add: is_eol_def)

lemma hello_run: "chunk_run (''5'' @ crlf @ ''hello'' @ crlf) ''hello''"
  using one_more [OF size_line_5 _ _ no_chunk, of crlf] by (simp add: is_eol_def)

lemma hello_msg: "chunked_msg (''5'' @ crlf @ ''hello'' @ crlf @ ''0'' @ crlf @ crlf) ''hello''"
  using chunk_run_msg [OF hello_run last_msg] by simp

theorem chunked_scan_iff_grammar_witness:
  "HTTPChunkedBodyScan (Some (''5'' @ crlf @ ''hello'' @ crlf @ ''0'' @ crlf @ crlf)) 100
     = (HTTP_CHUNKED_COMPLETE, Some 5)"
proof (rule chunked_scan_iff_grammar [THEN iffD2])
  let ?m = "''5'' @ crlf @ ''hello'' @ crlf @ ''0'' @ crlf @ crlf"
  have "\<exists>m p rest. ?m = m @ rest \<and> chunked_msg m p \<and> 5 = length p"
    by (rule exI [of _ ?m], rule exI [of _ "''hello''"], rule exI [of _ "[]"]) (use hello_msg in simp)
  then show "(5::nat) \<le> 100 \<and> (\<exists>m p rest. ?m = m @ rest \<and> chunked_msg m p \<and> 5 = length p)"
    by simp
qed simp

text \<open>
  C31: decoding a body the grammar derives leaves its payload, and nothing else, at the
  start of the buffer, in place, whatever follows the body in the buffer.
\<close>

theorem chunked_decode_payload:
  assumes "chunked_msg m p" and "length p \<le> mx" and "mx < 2 ^ 64"
  shows "\<exists>buf. HTTPChunkedBodyDecode (Some (m @ rest)) mx = (HTTP_CHUNKED_COMPLETE, Some buf, Some (length p)) \<and>
               take (length p) buf = p"
  using walk_complete [OF assms(1), of 0 mx 0 "[]" True rest] assms(2,3)
  by (auto simp: HTTPChunkedBodyDecode_def)

theorem chunked_decode_payload_witness:
  "\<exists>buf. HTTPChunkedBodyDecode (Some ((''5'' @ crlf @ ''hello'' @ crlf @ ''0'' @ crlf @ crlf) @ ''GET'')) 100
           = (HTTP_CHUNKED_COMPLETE, Some buf, Some (length ''hello'')) \<and> take (length ''hello'') buf = ''hello''"
  by (rule chunked_decode_payload [OF hello_msg]) simp_all

text \<open>
  once the scanner has said COMPLETE, bytes that arrive later (a pipelined request)
  do not change its answer, and the decoder that runs next agrees with it.
\<close>

lemma chunked_complete_stable:
  assumes "HTTPChunkedBodyScan (Some body) mx = (HTTP_CHUNKED_COMPLETE, Some n)" and "mx < 2 ^ 64"
  shows "HTTPChunkedBodyScan (Some (body @ more)) mx = (HTTP_CHUNKED_COMPLETE, Some n) \<and>
         (\<exists>buf. HTTPChunkedBodyDecode (Some (body @ more)) mx = (HTTP_CHUNKED_COMPLETE, Some buf, Some n))"
proof -
  from assms(1) obtain b where "WalkChunkedBody False body mx 0 0 0 = (HTTP_CHUNKED_COMPLETE, b, Some n)"
    by (auto simp: HTTPChunkedBodyScan_def split: prod.splits)
  from walk_sound [OF this] obtain m p rest
    where "n \<le> mx" and "body = m @ rest" and "chunked_msg m p" and "n = length p" by auto
  then show ?thesis
    using walk_complete [of m p 0 mx 0 "[]" False "rest @ more"] walk_complete [of m p 0 mx 0 "[]" True "rest @ more"]
      assms(2)
    by (auto simp: HTTPChunkedBodyScan_def HTTPChunkedBodyDecode_def)
qed

lemma chunked_complete_stable_witness:
  "HTTPChunkedBodyScan (Some ((''0'' @ crlf @ crlf) @ ''GET'')) 8 = (HTTP_CHUNKED_COMPLETE, Some 0)"
proof -
  have "HTTPChunkedBodyScan (Some (''0'' @ crlf @ crlf)) 8 = (HTTP_CHUNKED_COMPLETE, Some 0)"
    by (simp add: HTTPChunkedBodyScan_def WalkChunkedBody.simps ParseChunkSizeLine_def size_digits.simps
        HexValue_def scan_while.simps read_eol_def ParseTrailerSection_def)
  from chunked_complete_stable [OF this, of "''GET''"] show ?thesis by simp
qed

text \<open>
  framing is unambiguous: two readings of the same bytes as a chunked body followed
  by something else have the same payload, so no peer can be made to see another body.
\<close>

lemma chunked_msg_unambiguous:
  assumes "chunked_msg m p" and "chunked_msg m' p'" and "m @ rest = m' @ rest'"
    and "length p < 2 ^ 64" and "length p' < 2 ^ 64"
  shows "p = p'"
proof -
  let ?mx = "2 ^ 64 - 1 :: nat"
  have le: "0 + length p \<le> ?mx" "0 + length p' \<le> ?mx" using assms(4,5) by simp_all
  obtain b b' where "WalkChunkedBody True (m @ rest) ?mx 0 0 0 = (HTTP_CHUNKED_COMPLETE, b, Some (length p))"
      "take (length p) b = p"
    and "WalkChunkedBody True (m' @ rest') ?mx 0 0 0 = (HTTP_CHUNKED_COMPLETE, b', Some (length p'))"
      "take (length p') b' = p'"
    using walk_complete [OF assms(1) le(1), of 0 "[]" True rest] walk_complete [OF assms(2) le(2), of 0 "[]" True rest']
    by auto
  then show ?thesis using assms(3) by (metis option.inject prod.inject)
qed

lemma chunked_msg_unambiguous_witness:
  "\<not> chunked_msg (''5'' @ crlf @ ''hello'' @ crlf @ ''0'' @ crlf @ crlf) ''hell0''"
  using chunked_msg_unambiguous [OF hello_msg _ refl, of "''hell0''"] by auto

text \<open>
  the scanner is called after every recv() and must answer INCOMPLETE while a body is
  arriving, but it answers BAD whenever the bytes received so far end exactly after a data
  chunk: the request line of digits it looks for next is empty.  Such a prefix continues to
  a well-formed body.
\<close>

lemma chunk_boundary_rejected:
  assumes "chunk_run m p" and "length p \<le> mx" and "mx < 2 ^ 64" and "chunked_msg m' q"
  shows "HTTPChunkedBodyScan (Some m) mx = (HTTP_CHUNKED_ERROR_BAD, None) \<and> chunked_msg (m @ m') (p @ q)"
  using walk_run [OF assms(1), of 0 mx "[]" 0] assms(2,3) chunk_run_msg [OF assms(1,4)]
  by (simp add: HTTPChunkedBodyScan_def)

lemma chunk_boundary_rejected_witness:
  "HTTPChunkedBodyScan (Some (''5'' @ crlf @ ''hello'' @ crlf)) 100 = (HTTP_CHUNKED_ERROR_BAD, None) \<and>
   chunked_msg ((''5'' @ crlf @ ''hello'' @ crlf) @ (''0'' @ crlf @ crlf)) (''hello'' @ [])"
  by (rule chunk_boundary_rejected [OF hello_run _ _ last_msg]) simp_all

end
