(* ===== verification/HttpHeader.thy ===== *)
theory HttpHeader
  imports ApiRequest Chunked
begin

text \<open>
  The header of a request while it arrives (\<open>struct HTTPHeader\<close> of
  \<open>src/AmmServerlib/AmmServerlib.h\<close> and \<open>header_analysis/generic_header_tools.c\<close>).
  \<open>headerRAW\<close> is the address of the receive buffer and \<open>headerBytes\<close> what the allocation
  holds, so a pointer into the buffer is an address: \<open>headerRAW\<close> plus an offset, None for
  NULL.  Unsigned 32-bit sums that the sources compare are written with their wrap-around.
\<close>

section \<open>Data\<close>

type_synonym ptr = "nat option"

record get_item =
  g_name :: ptr
  g_nameSize :: nat
  g_value :: ptr
  g_valueSize :: nat
  g_realloc :: bool

record post_item =
  pointerStart :: ptr
  pointerEnd :: ptr
  p_contentSize :: nat
  p_name :: ptr
  p_nameSize :: nat
  p_value :: ptr
  p_valueSize :: nat
  p_filename :: ptr
  p_filenameSize :: nat
  p_contentDisposition :: ptr
  p_contentDispositionSize :: nat
  p_contentType :: ptr
  p_contentTypeSize :: nat
  p_realloc :: bool

datatype range_kind = HTTP_RANGE_NONE | HTTP_RANGE_CLOSED | HTTP_RANGE_OPEN_ENDED | HTTP_RANGE_SUFFIX

text \<open>A pointer field and the length field beside it.\<close>

type_synonym span = "ptr \<times> nat"

record http_header =
  failed :: bool
  dumpedToFile :: bool
  parsingStartOffset :: nat
  parsingCurrentLine :: nat
  headerRAW :: ptr
  headerBytes :: string
  headerRAWHeadSize :: nat
  headerRAWSize :: nat
  headerRAWRequestedSize :: nat
  MAXheaderRAWSize :: nat
  requestType :: request_type
  h_resource :: string
  verified_local_resource :: string
  GETrequest :: span
  POSTrequest :: span
  POSTrequestBody :: span
  authorized :: bool
  keepalive :: bool
  supports_compression :: bool
  httpVersion :: "nat \<times> nat"
  requestTargetWasAbsolute :: bool
  hostHeaderCount :: nat
  expectContinue :: bool
  expectUnsupported :: bool
  expectContinueSent :: bool
  chunked :: bool
  transferEncodingUnsupported :: bool
  hasContentLength :: bool
  contentLengthInvalid :: bool
  headerValidated :: bool
  responseAlreadySent :: bool
  errorResponseCode :: nat
  ifModifiedSince :: "int option"
  ifUnmodifiedSince :: "int option"
  rangeRequested :: bool
  rangeKind :: range_kind
  range_start :: nat
  range_end :: nat
  ContentLength :: nat
  h_cookie :: span
  h_host :: span
  h_referer :: span
  h_eTag :: span
  h_userAgent :: span
  h_contentType :: span
  h_contentDisposition :: span
  h_boundary :: span
  GETItem :: "get_item list"
  POSTItem :: "post_item list"
  COOKIEItem :: "get_item list"

text \<open>The settings of the instance that the receive path reads.\<close>

record http_settings =
  PASSWORD_PROTECTION :: bool
  BASE64PASSWORD :: "string option"
  MAX_POST_TRANSACTION_SIZE :: nat
  ENABLE_POST :: bool
  webserver_root :: string
  KEEPALIVE_ENABLED :: bool

definition MASTER_ENABLE_POST :: bool where "MASTER_ENABLE_POST = True"

definition HTTP_POST_GROWTH_STEP_REQUEST_HEADER :: nat where
  "HTTP_POST_GROWTH_STEP_REQUEST_HEADER = 512 * 1024"

definition DEFAULT_MAX_HTTP_POST_REQUEST_HEADER :: nat where
  "DEFAULT_MAX_HTTP_POST_REQUEST_HEADER = 4 * 1024 * 1024"

text \<open>The settings of an instance before a configuration file is read, and a header full of zeros.\<close>

definition initial_settings :: "string \<Rightarrow> http_settings" where
  "initial_settings root =
     \<lparr>PASSWORD_PROTECTION = False, BASE64PASSWORD = None,
      MAX_POST_TRANSACTION_SIZE = DEFAULT_MAX_HTTP_POST_REQUEST_HEADER, ENABLE_POST = False,
      webserver_root = root, KEEPALIVE_ENABLED = True\<rparr>"

definition clearHeader :: http_header where
  "clearHeader =
     \<lparr>failed = False, dumpedToFile = False, parsingStartOffset = 0, parsingCurrentLine = 0,
      headerRAW = None, headerBytes = [], headerRAWHeadSize = 0, headerRAWSize = 0,
      headerRAWRequestedSize = 0, MAXheaderRAWSize = 0, requestType = NONE, h_resource = [],
      verified_local_resource = [], GETrequest = (None, 0), POSTrequest = (None, 0),
      POSTrequestBody = (None, 0), authorized = False, keepalive = False, supports_compression = False,
      httpVersion = (0, 0), requestTargetWasAbsolute = False, hostHeaderCount = 0,
      expectContinue = False, expectUnsupported = False, expectContinueSent = False,
      chunked = False, transferEncodingUnsupported = False,
      hasContentLength = False, contentLengthInvalid = False, headerValidated = False,
      responseAlreadySent = False, errorResponseCode = 0, ifModifiedSince = None,
      ifUnmodifiedSince = None, rangeRequested = False, rangeKind = HTTP_RANGE_NONE,
      range_start = 0, range_end = 0, ContentLength = 0, h_cookie = (None, 0), h_host = (None, 0),
      h_referer = (None, 0), h_eTag = (None, 0), h_userAgent = (None, 0), h_contentType = (None, 0),
      h_contentDisposition = (None, 0), h_boundary = (None, 0), GETItem = [], POSTItem = [],
      COOKIEItem = []\<rparr>"

section \<open>Looking for the end of the header\<close>

definition HTTPHeaderIsHEAD :: "string \<Rightarrow> nat \<Rightarrow> bool" where
  "HTTPHeaderIsHEAD request requestLength \<longleftrightarrow> requestLength \<ge> 4 \<and> take 4 request = ''HEAD''"

definition HTTPHeaderIsPOST :: "string \<Rightarrow> nat \<Rightarrow> bool" where
  "HTTPHeaderIsPOST request requestLength \<longleftrightarrow> requestLength \<ge> 4 \<and> take 4 request = ''POST''"

definition HTTPHeaderIsGET :: "string \<Rightarrow> nat \<Rightarrow> bool" where
  "HTTPHeaderIsGET request requestLength \<longleftrightarrow> requestLength \<ge> 3 \<and> take 3 request = ''GET''"

text \<open>The two line ends that are recognised, read backwards from \<open>i\<close>.\<close>

definition ends_header :: "string \<Rightarrow> nat \<Rightarrow> bool" where
  "ends_header request i \<longleftrightarrow>
     request ! i = LF \<and>
     (i \<ge> 1 \<and> request ! (i - 1) = LF \<or>
      i \<ge> 3 \<and> request ! (i - 3) = CR \<and> request ! (i - 2) = LF \<and> request ! (i - 1) = CR)"

function scan_from_start :: "string \<Rightarrow> nat \<Rightarrow> nat \<Rightarrow> nat" where
  "scan_from_start request request_length i =
     (if i < request_length then (if ends_header request i then i else scan_from_start request request_length (i + 1))
      else 0)"
  by pat_completeness auto
termination
  by (relation "measure (\<lambda>(request, request_length, i). request_length - i)") auto

declare scan_from_start.simps [simp del]

text \<open>The index of the last LF of the header, 0 when there is none.\<close>

definition HTTPHeaderScanForHeaderEndFromStart :: "string \<Rightarrow> nat \<Rightarrow> nat" where
  "HTTPHeaderScanForHeaderEndFromStart request request_length =
     (if request_length < 4 then 0 else scan_from_start request request_length 3)"

fun scan_from_end :: "string \<Rightarrow> nat \<Rightarrow> nat \<Rightarrow> nat" where
  "scan_from_end request dontSearchBefore 0 = 0"
| "scan_from_end request dontSearchBefore (Suc i) =
     (if Suc i > dontSearchBefore + 1 then
        (if ends_header request (Suc i) then Suc i else scan_from_end request dontSearchBefore i)
      else 0)"

definition HTTPHeaderScanForHeaderEndFromEnd :: "string \<Rightarrow> nat \<Rightarrow> nat \<Rightarrow> nat" where
  "HTTPHeaderScanForHeaderEndFromEnd request dontSearchBefore request_length =
     (if request_length < 4 then 0 else scan_from_end request dontSearchBefore (request_length - 1))"

section \<open>The buffer\<close>

definition calculateRemainingDataLength :: "nat \<Rightarrow> nat \<Rightarrow> nat \<Rightarrow> nat" where
  "calculateRemainingDataLength baseAddress baseAddressMemoryLength whereWeAre =
     (let endAddress = baseAddress + baseAddressMemoryLength
      in if whereWeAre \<ge> endAddress then 0 else (endAddress - whereWeAre) mod 2 ^ 32)"

definition recalculatePosition :: "nat \<Rightarrow> nat \<Rightarrow> ptr \<Rightarrow> ptr" where
  "recalculatePosition oldBaseAddress newAddress oldPosition =
     (case oldPosition of
        None \<Rightarrow> None
      | Some p \<Rightarrow> Some (newAddress + nat ((int p - int oldBaseAddress) mod 2 ^ 32)))"

definition recalculate_post_item :: "(ptr \<Rightarrow> ptr) \<Rightarrow> post_item \<Rightarrow> post_item" where
  "recalculate_post_item f it =
     (if p_realloc it then
        it\<lparr>pointerStart := f (pointerStart it), pointerEnd := f (pointerEnd it), p_name := f (p_name it),
           p_value := f (p_value it), p_filename := f (p_filename it),
           p_contentDisposition := f (p_contentDisposition it), p_contentType := f (p_contentType it)\<rparr>
      else it)"

definition recalculate_get_item :: "(ptr \<Rightarrow> ptr) \<Rightarrow> get_item \<Rightarrow> get_item" where
  "recalculate_get_item f it =
     (if g_realloc it then it\<lparr>g_name := f (g_name it), g_value := f (g_value it)\<rparr> else it)"

definition recalculateHeaderFieldsBasedOnANewBaseAddress :: "nat \<Rightarrow> http_header \<Rightarrow> http_header \<times> bool" where
  "recalculateHeaderFieldsBasedOnANewBaseAddress oldBaseAddress h =
     (case headerRAW h of
        None \<Rightarrow> (h, False)
      | Some newBaseAddress \<Rightarrow>
          (let f = recalculatePosition oldBaseAddress newBaseAddress
           in (h\<lparr>h_cookie := apfst f (h_cookie h), h_host := apfst f (h_host h), h_referer := apfst f (h_referer h),
                h_eTag := apfst f (h_eTag h), h_userAgent := apfst f (h_userAgent h),
                h_contentType := apfst f (h_contentType h), h_contentDisposition := apfst f (h_contentDisposition h),
                h_boundary := apfst f (h_boundary h),
                POSTItem := map (recalculate_post_item f) (POSTItem h),
                GETItem := map (recalculate_get_item f) (GETItem h),
                COOKIEItem := map (recalculate_get_item f) (COOKIEItem h)\<rparr>, True)))"

text \<open>
  \<open>realloc\<close> is what the allocator answers: the new address, or None.  What it keeps of the
  old block and the two writes of zeros give the new bytes; \<open>memset\<close> with a negative length
  (a buffer that would shrink) leaves the block.
\<close>

definition grow_target :: "http_settings \<Rightarrow> http_header \<Rightarrow> nat option" where
  "grow_target s h =
     (if headerRAWRequestedSize h \<noteq> 0 then
        (if headerRAWRequestedSize h \<le> MAX_POST_TRANSACTION_SIZE s then Some (headerRAWRequestedSize h) else None)
      else Some ((MAXheaderRAWSize h + HTTP_POST_GROWTH_STEP_REQUEST_HEADER) mod 2 ^ 32))"

definition growHeader :: "ptr \<Rightarrow> http_settings \<Rightarrow> http_header \<Rightarrow> (http_header \<times> bool) checked" where
  "growHeader realloc s h =
     (if failed h then Inr (h, False)
      else
        (case grow_target s h of
           None \<Rightarrow> Inr (h\<lparr>dumpedToFile := True\<rparr>, False)
         | Some wannabeHeaderSize \<Rightarrow>
             (case headerRAW h of
                None \<Rightarrow>
                  (case realloc of
                     None \<Rightarrow> Inr (h, False)
                   | Some a \<Rightarrow>
                       Inr (h\<lparr>headerRAW := Some a, headerBytes := replicate (wannabeHeaderSize + 1) NUL,
                              MAXheaderRAWSize := wannabeHeaderSize\<rparr>, True))
              | Some oldHeaderAddress \<Rightarrow>
                  if MAXheaderRAWSize h < MAX_POST_TRANSACTION_SIZE s then
                    (let wannabeHeaderSize = min wannabeHeaderSize (MAX_POST_TRANSACTION_SIZE s)
                     in case realloc of
                          None \<Rightarrow> Inr (h\<lparr>dumpedToFile := True\<rparr>, False)
                        | Some newBuffer \<Rightarrow>
                            if wannabeHeaderSize < MAXheaderRAWSize h then Inl Out_of_bounds
                            else
                              (let h' = h\<lparr>headerRAW := Some newBuffer,
                                     headerBytes := take (MAXheaderRAWSize h) (headerBytes h)
                                       @ replicate (wannabeHeaderSize + 1 - MAXheaderRAWSize h) NUL,
                                     MAXheaderRAWSize := wannabeHeaderSize\<rparr>
                               in if oldHeaderAddress \<noteq> newBuffer
                                  then Inr (fst (recalculateHeaderFieldsBasedOnANewBaseAddress oldHeaderAddress h'), True)
                                  else Inr (h', True)))
                  else Inr (h\<lparr>dumpedToFile := True\<rparr>, False))))"

definition CapRequestLengthToHeaderEnd :: "http_header \<Rightarrow> nat \<Rightarrow> nat \<Rightarrow> nat" where
  "CapRequestLengthToHeaderEnd h startOffset requestLength =
     (if \<not> chunked h \<or> headerRAWHeadSize h = 0 then requestLength
      else
        (let headerEndAbsolute = headerRAWHeadSize h + 1
         in if headerEndAbsolute \<le> startOffset then 0
            else min requestLength (headerEndAbsolute - startOffset)))"

section \<open>Completeness\<close>

definition found_head_size :: "http_header \<Rightarrow> http_header" where
  "found_head_size h =
     (if headerRAWHeadSize h = 0
      then h\<lparr>headerRAWHeadSize := HTTPHeaderScanForHeaderEndFromStart (headerBytes h) (headerRAWSize h)\<rparr> else h)"

definition refuse :: "nat \<Rightarrow> http_header \<Rightarrow> http_header" where
  "refuse status h = h\<lparr>failed := True, errorResponseCode := status, keepalive := False\<rparr>"

definition chunked_is_complete :: "http_settings \<Rightarrow> http_header \<Rightarrow> http_header \<times> bool" where
  "chunked_is_complete s h =
     (let h = found_head_size h; headerLength = headerRAWHeadSize h + 1
      in if headerRAWHeadSize h = 0 then (h, False)
         else if headerRAWSize h \<le> headerLength then (h, False)
         else
           (case HTTPChunkedBodyScan
                   (Some (slice (headerBytes h) headerLength (headerRAWSize h - headerLength)))
                   (MAX_POST_TRANSACTION_SIZE s) of
              (HTTP_CHUNKED_COMPLETE, _) \<Rightarrow> (h, True)
            | (HTTP_CHUNKED_ERROR_BAD, _) \<Rightarrow> (refuse 400 h, True)
            | (HTTP_CHUNKED_ERROR_TOO_BIG, _) \<Rightarrow> (refuse 413 h, True)
            | (HTTP_CHUNKED_INCOMPLETE, _) \<Rightarrow>
                if headerRAWSize h \<ge> MAXheaderRAWSize h \<and>
                   (\<not> ENABLE_POST s \<or> \<not> MASTER_ENABLE_POST \<or> MAXheaderRAWSize h \<ge> MAX_POST_TRANSACTION_SIZE s)
                then (refuse 413 h, True)
                else (h, False)))"

definition scan_is_complete :: "http_header \<Rightarrow> bool" where
  "scan_is_complete h \<longleftrightarrow> HTTPHeaderScanForHeaderEndFromEnd (headerBytes h) 0 (headerRAWSize h) \<noteq> 0"

definition HTTPRequestIsComplete :: "http_settings \<Rightarrow> http_header \<Rightarrow> http_header \<times> bool" where
  "HTTPRequestIsComplete s h =
     (if requestType h = POST \<and> chunked h then chunked_is_complete s h
      else if requestType h = POST then
        (let h = found_head_size h
         in if headerRAWHeadSize h = 0 then (h, False)
            else
              (let totalHTTPRecvSize = (ContentLength h + headerRAWHeadSize h + 1) mod 2 ^ 32
               in if ContentLength h > MAX_POST_TRANSACTION_SIZE s then (refuse 413 h, True)
                  else if totalHTTPRecvSize > headerRAWSize h
                  then (h\<lparr>headerRAWRequestedSize := totalHTTPRecvSize\<rparr>, False)
                  else if headerRAWSize h \<le> totalHTTPRecvSize then (h, True)
                  else (h, scan_is_complete h)))
      else (h, scan_is_complete h))"

section \<open>The end of the header\<close>

lemma scan_from_start_spec:
  "scan_from_start s n i = 0 \<and> (\<forall>j. i \<le> j \<and> j < n \<longrightarrow> \<not> ends_header s j)
   \<or> i \<le> scan_from_start s n i \<and> scan_from_start s n i < n \<and> ends_header s (scan_from_start s n i)
      \<and> (\<forall>j. i \<le> j \<and> j < scan_from_start s n i \<longrightarrow> \<not> ends_header s j)"
proof (induction "n - i" arbitrary: i rule: less_induct)
  case less
  show ?case
  proof (cases "i < n \<and> \<not> ends_header s i")
    case True
    then have step: "scan_from_start s n i = scan_from_start s n (i + 1)" by (subst scan_from_start.simps) simp
    have "n - (i + 1) < n - i" using True by arith
    note IH = less [OF this]
    have "j = i \<or> i + 1 \<le> j" if "i \<le> j" for j using that by arith
    with IH True show ?thesis unfolding step by (metis Suc_eq_plus1 Suc_leD)
  next
    case False
    then show ?thesis by (subst (1 2 3 4 5) scan_from_start.simps) auto
  qed
qed

lemma header_end_iff:
  assumes "0 < k"
  shows "HTTPHeaderScanForHeaderEndFromStart s n = k
    \<longleftrightarrow> 3 \<le> k \<and> k < n \<and> ends_header s k \<and> (\<forall>j. 3 \<le> j \<and> j < k \<longrightarrow> \<not> ends_header s j)"
proof (cases "n < 4")
  case True
  then show ?thesis using assms by (auto simp: HTTPHeaderScanForHeaderEndFromStart_def)
next
  case False
  then have "HTTPHeaderScanForHeaderEndFromStart s n = scan_from_start s n 3"
    by (simp add: HTTPHeaderScanForHeaderEndFromStart_def)
  then show ?thesis using scan_from_start_spec [of s n 3] assms
    by (metis linorder_neqE_nat not_less_zero)
qed

lemma ends_header_append: "i < length s \<Longrightarrow> ends_header (s @ t) i = ends_header s i"
  by (auto simp: ends_header_def nth_append)

lemma ends_header_take: "i < n \<Longrightarrow> i < length s \<Longrightarrow> ends_header (take n s) i = ends_header s i"
  by (auto simp: ends_header_def)

text \<open>The end of the header as a message length of the connection: None while it is arriving.\<close>

definition header_end :: "string \<Rightarrow> nat option" where
  "header_end s =
     (case HTTPHeaderScanForHeaderEndFromStart s (length s) of 0 \<Rightarrow> None | Suc k \<Rightarrow> Some (Suc k + 1))"

lemma header_end_Some:
  "header_end s = Some n \<longleftrightarrow> HTTPHeaderScanForHeaderEndFromStart s (length s) = n - 1 \<and> 1 < n"
  by (auto simp: header_end_def split: nat.splits)

interpretation plain: framing header_end
proof
  fix s n t
  assume s: "header_end s = Some n"
  then have n: "0 < n - 1" and k: "HTTPHeaderScanForHeaderEndFromStart s (length s) = n - 1"
    by (auto simp: header_end_Some)
  note k = k [unfolded header_end_iff [OF n]]
  show "0 < n \<and> n \<le> length s" using n k by linarith
  have "HTTPHeaderScanForHeaderEndFromStart (s @ t) (length (s @ t)) = n - 1"
    unfolding header_end_iff [OF n] using k by (auto simp: ends_header_append)
  then show "header_end (s @ t) = Some n" using n by (simp add: header_end_Some)
qed

text \<open>The same for a request whose header declares a body of \<open>cl\<close> bytes.\<close>

definition post_end :: "nat \<Rightarrow> string \<Rightarrow> nat option" where
  "post_end cl s =
     (case header_end s of
        None \<Rightarrow> None
      | Some n \<Rightarrow> if n + cl \<le> length s then Some (n + cl) else None)"

lemma framing_post_end: "framing (post_end cl)"
proof
  fix s n t
  assume s: "post_end cl s = Some n"
  then obtain k where k: "header_end s = Some k" and n: "n = k + cl" "n \<le> length s"
    by (auto simp: post_end_def split: option.splits if_splits)
  show "0 < n \<and> n \<le> length s" using plain.end_bounds [OF k] n by simp
  show "post_end cl (s @ t) = Some n" using plain.end_stable [OF k, of t] n by (simp add: post_end_def)
qed

interpretation post: framing "post_end cl" for cl
  by (rule framing_post_end)

section \<open>When a request is complete\<close>

abbreviation received :: "http_header \<Rightarrow> string" where
  "received h \<equiv> take (headerRAWSize h) (headerBytes h)"

lemma scan_received:
  assumes "headerRAWSize h \<le> length (headerBytes h)"
  shows "HTTPHeaderScanForHeaderEndFromStart (headerBytes h) (headerRAWSize h)
       = HTTPHeaderScanForHeaderEndFromStart (received h) (length (received h))"
proof -
  have len: "length (received h) = headerRAWSize h" using assms by simp
  have same: "ends_header (received h) j = ends_header (headerBytes h) j" if "j < headerRAWSize h" for j
    using that assms by (intro ends_header_take) simp_all
  have "HTTPHeaderScanForHeaderEndFromStart (headerBytes h) (headerRAWSize h) = k
    \<longleftrightarrow> HTTPHeaderScanForHeaderEndFromStart (received h) (length (received h)) = k" if "0 < k" for k
    unfolding header_end_iff [OF that] len using same by (meson order.strict_trans)
  then show ?thesis by (metis gr0I)
qed

text \<open>The index of the last byte of the header is either not known yet or right.\<close>

definition head_known :: "http_header \<Rightarrow> bool" where
  "head_known h \<longleftrightarrow> headerRAWSize h \<le> length (headerBytes h)
     \<and> (headerRAWHeadSize h = 0 \<or> header_end (received h) = Some (headerRAWHeadSize h + 1))"

lemma head_found:
  assumes "head_known h"
  shows "case header_end (received h) of
      None \<Rightarrow> headerRAWHeadSize (found_head_size h) = 0
    | Some n \<Rightarrow> headerRAWHeadSize (found_head_size h) = n - 1 \<and> 1 < n"
proof (cases "headerRAWHeadSize h = 0")
  case True
  then have "headerRAWHeadSize (found_head_size h)
      = HTTPHeaderScanForHeaderEndFromStart (received h) (length (received h))"
    using assms scan_received [of h] by (simp add: head_known_def found_head_size_def)
  then show ?thesis by (simp add: header_end_def split: nat.splits)
next
  case False
  then show ?thesis using assms by (auto simp: head_known_def found_head_size_def)
qed

lemma found_head_size_fields [simp]:
  "headerRAWSize (found_head_size h) = headerRAWSize h" "headerBytes (found_head_size h) = headerBytes h"
  "ContentLength (found_head_size h) = ContentLength h" "MAXheaderRAWSize (found_head_size h) = MAXheaderRAWSize h"
  "failed (found_head_size h) = failed h"
  by (simp_all add: found_head_size_def)

text \<open>
  C29: A POST with a declared length is complete exactly when all of its header and that many
  bytes of body have arrived; when more has arrived the answer is that of the search for an
  empty line from the end of what was received.
\<close>

theorem post_request_complete:
  assumes "requestType h = POST" and "\<not> chunked h" and "head_known h"
    and "ContentLength h \<le> MAX_POST_TRANSACTION_SIZE s" and "ContentLength h + headerRAWSize h < 2 ^ 32"
  shows "snd (HTTPRequestIsComplete s h)
    \<longleftrightarrow> (case post_end (ContentLength h) (received h) of
           None \<Rightarrow> False
         | Some n \<Rightarrow> n = headerRAWSize h \<or> scan_is_complete h)"
proof (cases "header_end (received h)")
  case None
  then show ?thesis using head_found [OF assms(3)] assms(1,2)
    by (simp add: HTTPRequestIsComplete_def post_end_def)
next
  case (Some n)
  have len: "length (received h) = headerRAWSize h" using assms(3) by (simp add: head_known_def)
  have n: "headerRAWHeadSize (found_head_size h) = n - 1" "1 < n" using head_found [OF assms(3)] Some by simp_all
  have "n \<le> headerRAWSize h" using plain.end_bounds [OF Some] len by simp
  then have total: "(ContentLength h + headerRAWHeadSize (found_head_size h) + 1) mod 2 ^ 32 = ContentLength h + n"
    using n assms(5) by simp
  have "scan_is_complete (found_head_size h) = scan_is_complete h" by (simp add: scan_is_complete_def)
  then show ?thesis using assms(1,2,4) n Some len total
    by (auto simp: HTTPRequestIsComplete_def post_end_def Let_def)
qed

theorem post_request_complete_witness:
  "snd (HTTPRequestIsComplete (initial_settings ''www'')
     (clearHeader\<lparr>requestType := POST, headerBytes := ''P /'' @ [LF, LF] @ ''body'' @ [NUL], headerRAWSize := 9,
        ContentLength := 4\<rparr>))"
  (is "snd (HTTPRequestIsComplete ?s ?h)")
proof -
  have "head_known ?h" by (simp add: head_known_def clearHeader_def)
  moreover have "post_end 4 (received ?h) = Some 9"
    by (simp add: post_end_def header_end_def HTTPHeaderScanForHeaderEndFromStart_def scan_from_start.simps
        ends_header_def)
  ultimately show ?thesis
    using post_request_complete [of ?h ?s]
    by (simp add: initial_settings_def clearHeader_def DEFAULT_MAX_HTTP_POST_REQUEST_HEADER_def)
qed

lemma chunked_scan_complete:
  assumes "mx < 2 ^ 64"
  shows "fst (HTTPChunkedBodyScan (Some body) mx) = HTTP_CHUNKED_COMPLETE
    \<longleftrightarrow> (\<exists>m p rest. body = m @ rest \<and> chunked_msg m p \<and> length p \<le> mx)"
  using walk_complete_iff [OF assms, of body]
  by (cases "WalkChunkedBody False body mx 0 0 0") (simp add: HTTPChunkedBodyScan_def)

lemma chunked_msg_Nil: "\<not> chunked_msg [] p"
  by (auto elim!: chunked_msg.cases simp: is_size_line_def is_eol_def)

text \<open>
  C28: A chunked POST is complete and accepted exactly when its header is followed by a body of
  the chunked grammar whose payload fits the configured limit.
\<close>

theorem chunked_request_complete:
  assumes "requestType h = POST" and "chunked h" and "\<not> failed h" and "head_known h"
    and "MAX_POST_TRANSACTION_SIZE s < 2 ^ 64"
  shows "(\<exists>h'. HTTPRequestIsComplete s h = (h', True) \<and> \<not> failed h')
    \<longleftrightarrow> (\<exists>n m p rest. header_end (received h) = Some n \<and> drop n (received h) = m @ rest \<and> chunked_msg m p
           \<and> length p \<le> MAX_POST_TRANSACTION_SIZE s)"
proof (cases "header_end (received h)")
  case None
  then show ?thesis using head_found [OF assms(4)] assms(1,2)
    by (simp add: HTTPRequestIsComplete_def chunked_is_complete_def)
next
  case (Some n)
  let ?h = "found_head_size h" and ?mx = "MAX_POST_TRANSACTION_SIZE s"
  have size: "headerRAWSize h \<le> length (headerBytes h)" using assms(4) by (simp add: head_known_def)
  have n: "headerRAWHeadSize ?h + 1 = n" "headerRAWHeadSize ?h \<noteq> 0"
    using head_found [OF assms(4)] Some by auto
  obtain r x where scan: "HTTPChunkedBodyScan (Some (drop n (received h))) ?mx = (r, x)" by fastforce
  have body: "slice (headerBytes h) n (headerRAWSize h - n) = drop n (received h)"
    by (simp add: slice_def drop_take)
  show ?thesis
  proof (cases "headerRAWSize h \<le> n")
    case True
    then have "drop n (received h) = []" by simp
    then show ?thesis using True n Some assms(1,2)
      by (auto simp: HTTPRequestIsComplete_def chunked_is_complete_def chunked_msg_Nil)
  next
    case False
    have "(\<exists>h'. HTTPRequestIsComplete s h = (h', True) \<and> \<not> failed h')
      \<longleftrightarrow> fst (HTTPChunkedBodyScan (Some (drop n (received h))) ?mx) = HTTP_CHUNKED_COMPLETE"
      using False n(2) assms(1,2,3) scan
      by (cases r) (auto simp: HTTPRequestIsComplete_def chunked_is_complete_def refuse_def n(1) body Let_def
          simp del: One_nat_def add_Suc_right)
    then show ?thesis using chunked_scan_complete [OF assms(5)] Some by simp
  qed
qed

theorem chunked_request_complete_witness:
  "\<exists>h'. HTTPRequestIsComplete (initial_settings ''www'')
     (clearHeader\<lparr>requestType := POST, chunked := True,
        headerBytes := ''P /'' @ [LF, LF] @ ''5'' @ crlf @ ''hello'' @ crlf @ ''0'' @ crlf @ crlf @ [NUL],
        headerRAWSize := 20\<rparr>) = (h', True) \<and> \<not> failed h'"
  (is "\<exists>h'. HTTPRequestIsComplete ?s ?h = (h', True) \<and> \<not> failed h'")
proof -
  have "header_end (received ?h) = Some 5"
    by (simp add: header_end_def HTTPHeaderScanForHeaderEndFromStart_def scan_from_start.simps ends_header_def)
  moreover have "drop 5 (received ?h) = (''5'' @ crlf @ ''hello'' @ crlf @ ''0'' @ crlf @ crlf) @ []" by simp
  moreover have "length ''hello'' \<le> MAX_POST_TRANSACTION_SIZE ?s"
    by (simp add: initial_settings_def DEFAULT_MAX_HTTP_POST_REQUEST_HEADER_def)
  ultimately have "\<exists>n m p rest. header_end (received ?h) = Some n \<and> drop n (received ?h) = m @ rest
      \<and> chunked_msg m p \<and> length p \<le> MAX_POST_TRANSACTION_SIZE ?s"
    using hello_msg by blast
  moreover have "head_known ?h" by (simp add: head_known_def clearHeader_def)
  ultimately show ?thesis
    by (subst chunked_request_complete)
      (simp_all add: initial_settings_def clearHeader_def DEFAULT_MAX_HTTP_POST_REQUEST_HEADER_def)
qed

section \<open>Growing the buffer\<close>

text \<open>The pointers into the buffer that are kept when it moves, and what they point to.\<close>

definition header_pointers :: "http_header \<Rightarrow> ptr list" where
  "header_pointers h =
     map fst [h_cookie h, h_host h, h_referer h, h_eTag h, h_userAgent h, h_contentType h, h_contentDisposition h,
       h_boundary h]
     @ concat (map (\<lambda>it. [pointerStart it, pointerEnd it, p_name it, p_value it, p_filename it,
         p_contentDisposition it, p_contentType it]) (filter p_realloc (POSTItem h)))
     @ concat (map (\<lambda>it. [g_name it, g_value it]) (filter g_realloc (GETItem h @ COOKIEItem h)))"

definition text_at :: "http_header \<Rightarrow> nat \<Rightarrow> ptr \<Rightarrow> string option" where
  "text_at h n p = map_option (\<lambda>a. between (headerBytes h) (a - the (headerRAW h)) n) p"

lemma moved_pointers:
  assumes "headerRAW h = Some new"
  shows "header_pointers (fst (recalculateHeaderFieldsBasedOnANewBaseAddress old h))
       = map (recalculatePosition old new) (header_pointers h)"
proof -
  let ?f = "recalculatePosition old new"
  have post: "concat (map (\<lambda>it. [pointerStart it, pointerEnd it, p_name it, p_value it, p_filename it,
         p_contentDisposition it, p_contentType it]) (filter p_realloc (map (recalculate_post_item ?f) ps)))
     = map ?f (concat (map (\<lambda>it. [pointerStart it, pointerEnd it, p_name it, p_value it, p_filename it,
         p_contentDisposition it, p_contentType it]) (filter p_realloc ps)))" for ps
    by (induction ps) (simp_all add: recalculate_post_item_def)
  have get: "concat (map (\<lambda>it. [g_name it, g_value it]) (filter g_realloc (map (recalculate_get_item ?f) gs)))
     = map ?f (concat (map (\<lambda>it. [g_name it, g_value it]) (filter g_realloc gs)))" for gs
    by (induction gs) (simp_all add: recalculate_get_item_def)
  show ?thesis
    using assms post [of "POSTItem h"] get [of "GETItem h"] get [of "COOKIEItem h"]
    by (simp add: recalculateHeaderFieldsBasedOnANewBaseAddress_def header_pointers_def Let_def)
qed

lemma header_pointers_buffer [simp]:
  "header_pointers (h\<lparr>headerRAW := a, headerBytes := b, MAXheaderRAWSize := n\<rparr>) = header_pointers h"
  by (simp add: header_pointers_def)

lemma moved_buffer [simp]:
  "headerBytes (fst (recalculateHeaderFieldsBasedOnANewBaseAddress old h)) = headerBytes h"
  "headerRAW (fst (recalculateHeaderFieldsBasedOnANewBaseAddress old h)) = headerRAW h"
  "MAXheaderRAWSize (fst (recalculateHeaderFieldsBasedOnANewBaseAddress old h)) = MAXheaderRAWSize h"
  "GETrequest (fst (recalculateHeaderFieldsBasedOnANewBaseAddress old h)) = GETrequest h"
  by (simp_all add: recalculateHeaderFieldsBasedOnANewBaseAddress_def Let_def split: option.split)

text \<open>What growing a buffer that exists comes to when it succeeds.\<close>

lemma growHeader_success:
  assumes "growHeader (Some new) s h = Inr (h', True)" and "headerRAW h = Some old"
  obtains w where "MAXheaderRAWSize h \<le> w" and "w \<le> MAX_POST_TRANSACTION_SIZE s"
    and "headerBytes h' = take (MAXheaderRAWSize h) (headerBytes h) @ replicate (w + 1 - MAXheaderRAWSize h) NUL"
    and "MAXheaderRAWSize h' = w" and "headerRAW h' = Some new" and "GETrequest h' = GETrequest h"
    and "old \<noteq> new \<Longrightarrow> header_pointers h' = map (recalculatePosition old new) (header_pointers h)"
    and "old = new \<Longrightarrow> header_pointers h' = header_pointers h"
proof -
  from assms obtain w0 where w0: "grow_target s h = Some w0" and room: "MAXheaderRAWSize h < MAX_POST_TRANSACTION_SIZE s"
    and big: "\<not> min w0 (MAX_POST_TRANSACTION_SIZE s) < MAXheaderRAWSize h"
    by (auto simp: growHeader_def Let_def split: if_splits option.splits)
  define w where "w = min w0 (MAX_POST_TRANSACTION_SIZE s)"
  define g where "g = h\<lparr>headerRAW := Some new,
      headerBytes := take (MAXheaderRAWSize h) (headerBytes h) @ replicate (w + 1 - MAXheaderRAWSize h) NUL,
      MAXheaderRAWSize := w\<rparr>"
  have h': "h' = (if old \<noteq> new then fst (recalculateHeaderFieldsBasedOnANewBaseAddress old g) else g)"
    using assms w0 room big by (simp add: growHeader_def Let_def w_def g_def split: if_splits)
  show thesis
    by (rule that [of w])
      (use big in \<open>simp_all add: h' w_def g_def moved_pointers not_less\<close>)
qed

lemma recalculatePosition_inside:
  "old \<le> a \<Longrightarrow> a < old + 2 ^ 32 \<Longrightarrow> recalculatePosition old new (Some a) = Some (new + (a - old))"
  by (simp add: recalculatePosition_def flip: of_nat_diff)

text \<open>
  Growing the receive buffer keeps what was received, ends the buffer with a NUL, does not
  go over the configured limit, and every pointer into the buffer that is kept points to the
  same text afterwards, wherever \<open>realloc\<close> has moved the block.
\<close>

lemma grow_keeps_text:
  assumes "growHeader (Some new) s h = Inr (h', True)" and "headerRAW h = Some old"
    and "MAXheaderRAWSize h \<le> length (headerBytes h)" and "MAXheaderRAWSize h < 2 ^ 32"
    and "\<forall>a. Some a \<in> set (header_pointers h) \<longrightarrow> old \<le> a \<and> a \<le> old + MAXheaderRAWSize h"
  shows "map (text_at h' (MAXheaderRAWSize h)) (header_pointers h')
       = map (text_at h (MAXheaderRAWSize h)) (header_pointers h)
    \<and> take (MAXheaderRAWSize h) (headerBytes h') = take (MAXheaderRAWSize h) (headerBytes h)
    \<and> length (headerBytes h') = MAXheaderRAWSize h' + 1 \<and> headerBytes h' ! MAXheaderRAWSize h' = NUL
    \<and> MAXheaderRAWSize h \<le> MAXheaderRAWSize h' \<and> MAXheaderRAWSize h' \<le> MAX_POST_TRANSACTION_SIZE s"
proof -
  let ?n = "MAXheaderRAWSize h"
  obtain w where w: "?n \<le> w" "w \<le> MAX_POST_TRANSACTION_SIZE s"
    and bytes: "headerBytes h' = take ?n (headerBytes h) @ replicate (w + 1 - ?n) NUL"
    and raw: "MAXheaderRAWSize h' = w" "headerRAW h' = Some new"
    and ptrs: "old \<noteq> new \<Longrightarrow> header_pointers h' = map (recalculatePosition old new) (header_pointers h)"
      "old = new \<Longrightarrow> header_pointers h' = header_pointers h"
    by (rule growHeader_success [OF assms(1,2)]) blast
  have prefix: "take ?n (headerBytes h') = take ?n (headerBytes h)" using assms(3) by (simp add: bytes)
  then have same: "between (headerBytes h') i ?n = between (headerBytes h) i ?n" for i
    by (simp add: between_def flip: drop_take)
  have moved: "text_at h' ?n (recalculatePosition old new p) = text_at h ?n p" if "p \<in> set (header_pointers h)" for p
  proof (cases p)
    case None
    then show ?thesis by (simp add: recalculatePosition_def text_at_def)
  next
    case (Some a)
    then have "old \<le> a" "a < old + 2 ^ 32" using that assms(4,5) by auto
    then show ?thesis using Some raw assms(2) same by (simp add: recalculatePosition_inside text_at_def)
  qed
  have "map (text_at h' ?n) (header_pointers h') = map (text_at h ?n) (header_pointers h)"
  proof (cases "old = new")
    case True
    then show ?thesis using ptrs(2) raw assms(2) same by (auto simp: text_at_def fun_eq_iff)
  next
    case False
    then show ?thesis using ptrs(1) moved by simp
  qed
  then show ?thesis using w raw prefix assms(3) by (simp add: bytes nth_append)
qed

lemma grow_keeps_text_witness:
  "\<exists>h'. growHeader (Some 900) (initial_settings ''www'')
      (clearHeader\<lparr>headerRAW := Some 100, headerBytes := ''HOST: a'' @ [NUL], MAXheaderRAWSize := 7,
        headerRAWRequestedSize := 9, h_host := (Some 106, 1)\<rparr>) = Inr (h', True)
    \<and> take 7 (headerBytes h') = ''HOST: a''"
  (is "\<exists>h'. growHeader _ ?s ?h = Inr (h', True) \<and> _")
proof -
  obtain h' where h': "growHeader (Some 900) ?s ?h = Inr (h', True)"
    by (simp add: growHeader_def grow_target_def initial_settings_def clearHeader_def
        DEFAULT_MAX_HTTP_POST_REQUEST_HEADER_def)
  have "\<forall>a. Some a \<in> set (header_pointers ?h) \<longrightarrow> 100 \<le> a \<and> a \<le> 100 + MAXheaderRAWSize ?h"
    by (simp add: header_pointers_def clearHeader_def)
  from grow_keeps_text [OF h' _ _ _ this] have "take 7 (headerBytes h') = ''HOST: a''" by simp
  with h' show ?thesis by blast
qed

text \<open>
  \<open>GETrequest\<close> is not among the pointers that are moved: after a move to another block
  the query of a POST request still points into the old block, which \<open>realloc\<close> has freed.
\<close>

lemma grow_forgets_query:
  assumes "growHeader (Some new) s h = Inr (h', True)" and "headerRAW h = Some old"
    and "fst (GETrequest h) = Some a" and "old \<le> a" and "a \<le> old + MAXheaderRAWSize h"
    and "new + MAXheaderRAWSize h' < old \<or> old + MAXheaderRAWSize h < new"
  shows "fst (GETrequest h') = Some a \<and> \<not> (new \<le> a \<and> a \<le> new + MAXheaderRAWSize h')"
proof -
  obtain w where "headerRAW h' = Some new" and "GETrequest h' = GETrequest h"
    by (rule growHeader_success [OF assms(1,2)]) blast
  then show ?thesis using assms(3-) by auto
qed

lemma grow_forgets_query_witness:
  "\<exists>h'. growHeader (Some 900) (initial_settings ''www'')
      (clearHeader\<lparr>headerRAW := Some 100, headerBytes := ''P /?ab'' @ [NUL], MAXheaderRAWSize := 6,
        headerRAWRequestedSize := 9, GETrequest := (Some 104, 2)\<rparr>) = Inr (h', True)
    \<and> fst (GETrequest h') = Some 104 \<and> \<not> 900 \<le> (104 :: nat)"
  (is "\<exists>h'. growHeader _ ?s ?h = Inr (h', True) \<and> _")
proof -
  obtain h' where h': "growHeader (Some 900) ?s ?h = Inr (h', True)"
    by (simp add: growHeader_def grow_target_def initial_settings_def clearHeader_def
        DEFAULT_MAX_HTTP_POST_REQUEST_HEADER_def)
  from grow_forgets_query [OF h', of 100 104] have "fst (GETrequest h') = Some 104" by simp
  with h' show ?thesis by auto
qed

end
