(* ===== verification/PathTools.thy ===== *)
theory PathTools
  imports Prelude "HOL-Library.Sublist"
begin

text \<open>
  The routines that make a file name of a request safe (\<open>StripHTMLCharacters_Inplace\<close>,
  \<open>StripGETRequestQueryAndFragment\<close>, \<open>FilenameStripperOk\<close>, \<open>ReducePathSlashes_Inplace\<close> and
  \<open>PathResolvesWithinDirectory\<close> of \<open>src/AmmServerlib/tools/http_tools.c\<close>).  An in-place
  routine gets \<open>mem\<close>, the bytes from its pointer to the end of the allocation, and returns
  them changed; its C string is \<open>cstring mem\<close>, the bytes before the first NUL.
\<close>

section \<open>The code\<close>

definition cstring :: "string \<Rightarrow> string" where
  "cstring mem = takeWhile (\<lambda>c. c \<noteq> NUL) mem"

abbreviation strlen :: "string \<Rightarrow> nat" where "strlen mem \<equiv> length (cstring mem)"

abbreviation SLASH :: char where "SLASH \<equiv> CHR ''/''"

text \<open>
  \<open>z\<close> is compared with the position after the offset was moved, so the inner increment of
  \<open>i\<close> is never reached; it is kept as the source has it.
\<close>

function reduce_loop :: "string \<Rightarrow> nat \<Rightarrow> nat \<Rightarrow> nat \<Rightarrow> string \<times> nat" where
  "reduce_loop mem len i offset =
     (if i + offset < len then
        (let z = (if mem ! (i + offset) = SLASH then scan_while (\<lambda>c. c = SLASH) mem len (i + offset + 1) else i + offset + 1);
             offset' = offset + (z - (i + offset + 1));
             i' = (if mem ! (i + offset) = SLASH \<and> z > i + offset' + 1 then i + 1 else i);
             mem' = (if offset' > 0 \<and> i' + offset' < len then mem[i' := mem ! (i' + offset')] else mem)
         in reduce_loop mem' len (i' + 1) offset')
      else (mem, offset))"
  by pat_completeness auto
termination
  by (relation "measure (\<lambda>(mem, len, i, offset). len - i)") (auto simp: Let_def)

declare reduce_loop.simps [simp del]

definition ReducePathSlashes_Inplace :: "string \<Rightarrow> string \<times> bool" where
  "ReducePathSlashes_Inplace filename =
     (case reduce_loop filename (strlen filename) 0 0 of
        (mem, offset) \<Rightarrow>
          if offset > 0 then (mem[strlen filename - offset := NUL], True) else (mem, False))"

text \<open>The position of the last \<open>#\<close> before the query, and the position of the query.\<close>

function query_loop :: "string \<Rightarrow> nat \<Rightarrow> nat \<Rightarrow> nat \<Rightarrow> nat \<times> nat" where
  "query_loop request len i fragment_pos =
     (if i < len \<and> request ! i \<noteq> CHR ''?'' then
        query_loop request len (i + 1) (if request ! i = CHR ''#'' then i else fragment_pos)
      else (i, fragment_pos))"
  by pat_completeness auto
termination
  by (relation "measure (\<lambda>(request, len, i, fragment_pos). len - i)") auto

declare query_loop.simps [simp del]

definition StripGETRequestQueryAndFragment :: "string option \<Rightarrow> nat \<Rightarrow> string option \<times> bool" where
  "StripGETRequestQueryAndFragment request maxQueryLength =
     (case request of
        None \<Rightarrow> (None, False)
      | Some r \<Rightarrow>
          if strlen r = 0 then (Some r, False)
          else
            (let len = min (strlen r) maxQueryLength
             in case query_loop r len 0 len of
                  (i, fragment_pos) \<Rightarrow>
                    (let r = (if fragment_pos < len then r[fragment_pos := NUL] else r)
                     in if i = len then (Some r, False)
                        else if i + 1 \<ge> len then (Some r, False)
                        else (Some (r[i := NUL]), True))))"

text \<open>The digit of a \<open>%AB\<close> escape; None sets \<open>sec_byte\<close>.\<close>

definition hex_value :: "char \<Rightarrow> nat option" where
  "hex_value c =
     (if 48 \<le> byte_val c \<and> byte_val c \<le> 57 then Some (byte_val c - 48)
      else if 97 \<le> byte_val c \<and> byte_val c \<le> 102 then Some (10 + (byte_val c - 97))
      else if 65 \<le> byte_val c \<and> byte_val c \<le> 70 then Some (10 + (byte_val c - 65))
      else None)"

definition escaped_byte :: "bool \<Rightarrow> char \<Rightarrow> char \<Rightarrow> char option" where
  "escaped_byte enable_security a b =
     (case (hex_value a, hex_value b) of
        (Some x, Some y) \<Rightarrow>
          (let ascii_val = x * 16 + y
           in if enable_security \<and> (ascii_val < 32 \<or> ascii_val > 126) then None else Some (char_of ascii_val))
      | _ \<Rightarrow> None)"

function strip_loop :: "bool \<Rightarrow> nat \<Rightarrow> string \<Rightarrow> nat \<Rightarrow> nat \<Rightarrow> (string \<times> nat) checked" where
  "strip_loop enable_security len mem i offset =
     (if i < len then
        (case read_at mem (i + offset) of
           Inl f \<Rightarrow> Inl f
         | Inr c \<Rightarrow>
             (let (mem, offset) =
                    (if c = CHR ''%'' \<and> i + offset < len - 2 then
                       (case escaped_byte enable_security (mem ! (i + offset + 1)) (mem ! (i + offset + 2)) of
                          None \<Rightarrow> (mem[i := CHR ''_''], offset)
                        | Some v \<Rightarrow> (mem[i := v], offset + 2))
                     else (mem, offset))
              in if offset \<noteq> 0 then
                   (case read_at mem (i + 1 + offset) of
                      Inl f \<Rightarrow> Inl f
                    | Inr c \<Rightarrow> strip_loop enable_security len (mem[i + 1 := c]) (i + 1) offset)
                 else strip_loop enable_security len mem (i + 1) offset))
      else Inr (mem, offset))"
  by pat_completeness auto
termination
  by (relation "measure (\<lambda>(enable_security, len, mem, i, offset). len - i)") auto

declare strip_loop.simps [simp del]

text \<open>In a name of one or two characters the \<open>%\<close> are muted; nothing else happens to it.\<close>

definition mute :: "string \<Rightarrow> nat \<Rightarrow> string" where
  "mute mem i = (if mem ! i = CHR ''%'' then mem[i := CHR ''_''] else mem)"

definition StripHTMLCharacters_Inplace :: "string \<Rightarrow> bool \<Rightarrow> string checked" where
  "StripHTMLCharacters_Inplace filename enable_security =
     (let len = strlen filename;
          filename = (if len = 1 then mute filename 0 else if len = 2 then mute (mute filename 0) 1 else filename)
      in if len \<le> 2 then Inr filename
         else
           (case strip_loop enable_security len filename 0 0 of
              Inl f \<Rightarrow> Inl f
            | Inr (mem, offset) \<Rightarrow> Inr (if offset \<noteq> 0 then mem[len := NUL] else mem)))"

definition MAX_RESOURCE_SLASHES :: nat where "MAX_RESOURCE_SLASHES = 15"

text \<open>From the last character down to the second one.  A \<open>char\<close> above 127 is negative.\<close>

fun stripper_loop :: "string \<Rightarrow> nat \<Rightarrow> nat \<Rightarrow> bool" where
  "stripper_loop filename 0 back_slashes_number = True"
| "stripper_loop filename (Suc i) back_slashes_number =
     (let c = filename ! Suc i
      in if schar_val c < 32 \<or> schar_val c > 126 then False
         else if c = SLASH then
           (if back_slashes_number + 1 > MAX_RESOURCE_SLASHES then False
            else stripper_loop filename i (back_slashes_number + 1))
         else if c = BACKSLASH then False
         else if c = CHR ''.'' \<and> filename ! i = CHR ''.'' then False
         else stripper_loop filename i back_slashes_number)"

definition FilenameStripperOk :: "string option \<Rightarrow> bool" where
  "FilenameStripperOk filename =
     (case filename of
        None \<Rightarrow> False
      | Some f \<Rightarrow> strlen f \<noteq> 0 \<and> stripper_loop f (strlen f - 1) 0)"

definition PATH_MAX :: nat where "PATH_MAX = 4096"

text \<open>
  \<open>realpath\<close> is the system's resolver, None when the path does not resolve; \<open>last_slash\<close> is
  \<open>strrchr(candidateDir,'/')\<close>.
\<close>

definition last_slash :: "string \<Rightarrow> nat option" where
  "last_slash s =
     (let e = scan_back (\<lambda>c. c \<noteq> SLASH) s 0 (length s) in if e = 0 then None else Some (e - 1))"

definition resolve_candidate :: "(string \<Rightarrow> string option) \<Rightarrow> string \<Rightarrow> string option" where
  "resolve_candidate realpath candidatePath =
     (case realpath candidatePath of
        Some r \<Rightarrow> Some r
      | None \<Rightarrow>
          (let candidateDir = take (PATH_MAX - 1) candidatePath
           in case last_slash candidateDir of
                None \<Rightarrow> None
              | Some k \<Rightarrow>
                  (let baseName = drop (k + 1) candidateDir
                   in if baseName = ''.'' \<or> baseName = ''..'' \<or> baseName = [] then None
                      else
                        (case realpath (take k candidateDir) of
                           None \<Rightarrow> None
                         | Some d \<Rightarrow>
                             if length d + 1 + length baseName \<ge> PATH_MAX then None
                             else Some (d @ SLASH # baseName)))))"

definition PathResolvesWithinDirectory ::
    "(string \<Rightarrow> string option) \<Rightarrow> string option \<Rightarrow> string option \<Rightarrow> bool" where
  "PathResolvesWithinDirectory realpath trustedRoot candidatePath =
     (case (trustedRoot, candidatePath) of
        (Some root, Some candidate) \<Rightarrow>
          if candidate = [] then False
          else
            (case realpath root of
               None \<Rightarrow> False
             | Some resolvedRoot \<Rightarrow>
                 (case resolve_candidate realpath candidate of
                    None \<Rightarrow> False
                  | Some resolved \<Rightarrow>
                      (let rootLen = length resolvedRoot
                       in if take rootLen resolved \<noteq> resolvedRoot then False
                          else c_at resolved rootLen = NUL \<or> c_at resolved rootLen = SLASH)))
      | _ \<Rightarrow> False)"

section \<open>C strings in memory\<close>

lemma cstring_append_NUL: "NUL \<notin> set s \<Longrightarrow> cstring (s @ NUL # rest) = s"
  unfolding cstring_def by (induction s) auto

lemma cstring_update: "k < length mem \<Longrightarrow> NUL \<notin> set (take k mem) \<Longrightarrow> cstring (mem[k := NUL]) = take k mem"
proof -
  assume "k < length mem" and "NUL \<notin> set (take k mem)"
  then show "cstring (mem[k := NUL]) = take k mem"
    by (subst upd_conv_take_nth_drop) (assumption, rule cstring_append_NUL)
qed

lemma strlen_le: "strlen mem \<le> length mem"
  by (simp add: cstring_def length_takeWhile_le)

lemma cstring_eq_take: "cstring mem = take (strlen mem) mem"
  unfolding cstring_def by (rule takeWhile_eq_take)

lemma NUL_notin_cstring [simp]: "NUL \<notin> set (cstring mem)"
  by (auto simp: cstring_def dest: set_takeWhileD)

section \<open>Slashes\<close>

text \<open>Every run of slashes reduced to one.\<close>

function squeeze :: "string \<Rightarrow> string" where
  "squeeze [] = []"
| "squeeze (c # s) = c # squeeze (if c = SLASH then dropWhile (\<lambda>c. c = SLASH) s else s)"
  by pat_completeness auto
termination
  by (relation "measure length") (auto simp: less_Suc_eq_le length_dropWhile_le)

lemma between_Cons: "i < k \<Longrightarrow> k \<le> length s \<Longrightarrow> between s i k = s ! i # between s (i + 1) k"
  using between_append [of i "Suc i" k s] by simp

lemma reduce_step:
  assumes "i + offset < len"
    and z: "z = (if mem ! (i + offset) = SLASH then scan_while (\<lambda>c. c = SLASH) mem len (i + offset + 1) else i + offset + 1)"
  shows "reduce_loop mem len i offset
       = reduce_loop (if z - (i + 1) > 0 \<and> z - 1 < len then mem[i := mem ! (z - 1)] else mem) len (i + 1) (z - (i + 1))"
proof -
  have "i + offset + 1 \<le> z" unfolding z using scan_while_ge by auto
  then have e: "offset + (z - (i + offset + 1)) = z - (i + 1)" "(z > z - 1 + 1) = False" "i + (z - (i + 1)) = z - 1"
    by auto
  show ?thesis
    by (subst reduce_loop.simps) (simp only: Let_def assms(1) if_True z [symmetric] e, simp only: if_False simp_thms e)
qed

lemma reduce_loop_spec:
  assumes "reduce_loop mem len i offset = (mem', offset')" and "i + offset \<le> len" and "len \<le> length mem"
  shows "length mem' = length mem \<and> offset \<le> offset' \<and> offset' + i \<le> len \<and> drop len mem' = drop len mem
    \<and> take (len - offset') mem' = take i mem @ squeeze (between mem (i + offset) len)
    \<and> (offset' = 0 \<longrightarrow> mem' = mem)"
  using assms
proof (induction "len - i" arbitrary: mem i offset rule: less_induct)
  case less
  show ?case
  proof (cases "i + offset < len")
    case False
    then show ?thesis using less.prems by (subst (asm) reduce_loop.simps) auto
  next
    case True
    define c where "c = mem ! (i + offset)"
    define z where "z = (if c = SLASH then scan_while (\<lambda>c. c = SLASH) mem len (i + offset + 1) else i + offset + 1)"
    define k where "k = z - (i + offset + 1)"
    have z: "i + offset + 1 \<le> z" "z \<le> len"
      using True scan_while_ge [of "i + offset + 1" _ mem len] scan_while_le [of "i + offset + 1" len _ mem]
      by (auto simp: z_def)
    then have zk: "z = i + (offset + k) + 1" by (simp add: k_def)
    define m where "m = (if offset + k > 0 \<and> i + (offset + k) < len then mem[i := mem ! (i + (offset + k))] else mem)"
    have same: "mem ! (i + (offset + k)) = c"
    proof (cases "k = 0")
      case False
      then have "c = SLASH" by (cases "c = SLASH") (simp_all add: k_def z_def)
      then show ?thesis
        using False zk scan_while_between [of "i + offset + 1" "i + (offset + k)" "\<lambda>c. c = SLASH" mem len]
        by (simp add: z_def)
    qed (simp add: c_def)
    have step: "reduce_loop m len (i + 1) (offset + k) = (mem', offset')"
    proof -
      have e: "z - (i + 1) = offset + k" "z - 1 = i + (offset + k)" using zk by auto
      show ?thesis
        using less.prems(1) by (simp only: reduce_step [OF True z_def [unfolded c_def]] m_def e)
    qed
    have IH: "length mem' = length m \<and> offset + k \<le> offset' \<and> offset' + (i + 1) \<le> len \<and> drop len mem' = drop len m
      \<and> take (len - offset') mem' = take (i + 1) m @ squeeze (between m (i + 1 + (offset + k)) len)
      \<and> (offset' = 0 \<longrightarrow> mem' = m)"
      by (rule less.hyps [OF _ step]) (use True less.prems(3) z zk in \<open>simp_all add: m_def\<close>)
    have m: "length m = length mem" "drop len m = drop len mem" "take (i + 1) m = take i mem @ [c]"
      "between m (i + 1 + (offset + k)) len = between mem z len"
      using True less.prems(3) same zk z(2)
      by (auto simp: m_def between_def take_Suc_conv_app_nth c_def)
    have "between mem (i + offset) len = c # between mem (i + offset + 1) len"
      using True less.prems(3) by (simp add: between_Cons c_def)
    moreover have "(if c = SLASH then dropWhile (\<lambda>c. c = SLASH) (between mem (i + offset + 1) len)
        else between mem (i + offset + 1) len) = between mem z len"
      using True less.prems(3) by (simp add: z_def between_dropWhile)
    ultimately have "squeeze (between mem (i + offset) len) = c # squeeze (between mem z len)"
      by (simp only: squeeze.simps)
    then show ?thesis using IH m by (auto simp: m_def)
  qed
qed

lemma squeeze_set: "set (squeeze s) \<subseteq> set s"
proof (induction s rule: squeeze.induct)
  case (2 c s)
  then show ?case using set_dropWhileD [of _ "\<lambda>c. c = SLASH" s] by (auto split: if_splits)
qed simp

lemma squeeze_length: "length (squeeze s) \<le> length s"
proof (induction s rule: squeeze.induct)
  case (2 c s)
  then show ?case using length_dropWhile_le [of "\<lambda>c. c = SLASH" s] by (auto split: if_splits)
qed simp

lemma squeeze_first: "squeeze s = d # r \<Longrightarrow> \<exists>r'. s = d # r'"
  by (cases s) auto

lemma squeeze_no_double: "\<not> sublist [SLASH, SLASH] (squeeze s)"
proof (induction s rule: squeeze.induct)
  case (2 c s)
  let ?s = "if c = SLASH then dropWhile (\<lambda>c. c = SLASH) s else s"
  have "\<not> prefix [SLASH, SLASH] (c # squeeze ?s)"
  proof
    assume "prefix [SLASH, SLASH] (c # squeeze ?s)"
    then obtain r where "c = SLASH" "squeeze ?s = SLASH # r" by (auto simp: prefix_def)
    then obtain r' where "dropWhile (\<lambda>c. c = SLASH) s = SLASH # r'" using squeeze_first [of "dropWhile (\<lambda>c. c = SLASH) s" SLASH r] by auto
    then show False using hd_dropWhile [of "\<lambda>c. c = SLASH" s] by simp
  qed
  then show ?case using 2 by (simp add: sublist_Cons_right)
qed simp

lemma ReducePathSlashes_spec:
  assumes "strlen mem < length mem"
  shows "cstring (fst (ReducePathSlashes_Inplace mem)) = squeeze (cstring mem)
    \<and> (snd (ReducePathSlashes_Inplace mem) \<longleftrightarrow> squeeze (cstring mem) \<noteq> cstring mem)
    \<and> length (fst (ReducePathSlashes_Inplace mem)) = length mem
    \<and> drop (strlen mem) (fst (ReducePathSlashes_Inplace mem)) = drop (strlen mem) mem"
proof -
  obtain m off where r: "reduce_loop mem (strlen mem) 0 0 = (m, off)" by fastforce
  have s: "between mem 0 (strlen mem) = cstring mem"
    using cstring_eq_take [of mem] by (simp add: between_def)
  note spec = reduce_loop_spec [OF r]
  have m: "length m = length mem" "off \<le> strlen mem" "drop (strlen mem) m = drop (strlen mem) mem"
    "take (strlen mem - off) m = squeeze (cstring mem)" "off = 0 \<longrightarrow> m = mem"
    using spec assms s by auto
  have len: "length (squeeze (cstring mem)) = strlen mem - off"
    using arg_cong [OF m(4), of length] m(1) assms by simp
  show ?thesis
  proof (cases "off = 0")
    case True
    then have "squeeze (cstring mem) = cstring mem" using m cstring_eq_take [of mem] by simp
    then show ?thesis using True m r by (simp add: ReducePathSlashes_Inplace_def)
  next
    case False
    then have ne: "squeeze (cstring mem) \<noteq> cstring mem" using len m(2) by auto
    have "NUL \<notin> set (take (strlen mem - off) m)"
      unfolding m(4) using squeeze_set [of "cstring mem"] by auto
    then have "cstring (m[strlen mem - off := NUL]) = squeeze (cstring mem)"
      using m assms by (simp add: cstring_update)
    then show ?thesis using False m r ne by (simp add: ReducePathSlashes_Inplace_def)
  qed
qed

section \<open>Escapes\<close>

text \<open>What a name of more than two characters is decoded to.\<close>

fun html_decode :: "bool \<Rightarrow> string \<Rightarrow> string" where
  "html_decode sec (c # a # b # r) =
     (if c = CHR ''%'' then
        (case escaped_byte sec a b of
           None \<Rightarrow> CHR ''_'' # html_decode sec (a # b # r)
         | Some v \<Rightarrow> v # html_decode sec r)
      else c # html_decode sec (a # b # r))"
| "html_decode sec s = s"

lemma html_decode_length: "length (html_decode sec s) \<le> length s"
  by (induction sec s rule: html_decode.induct) (auto split: option.split)

lemma drop_from_between: "drop k (between s i j) = between s (i + k) j"
  by (simp add: between_def drop_take add.commute)

text \<open>One round of the decoding: the byte written and the number of bytes read.\<close>

fun html_step :: "bool \<Rightarrow> string \<Rightarrow> char \<times> nat" where
  "html_step sec (c # a # b # r) =
     (if c = CHR ''%'' then (case escaped_byte sec a b of None \<Rightarrow> (CHR ''_'', 1) | Some v \<Rightarrow> (v, 3)) else (c, 1))"
| "html_step sec (c # s) = (c, 1)"
| "html_step sec [] = (NUL, 0)"

lemma html_decode_step:
  "s \<noteq> [] \<Longrightarrow> html_decode sec s = fst (html_step sec s) # html_decode sec (drop (snd (html_step sec s)) s)"
  by (cases "(sec, s)" rule: html_step.cases) (auto split: option.split)

lemma html_step_length: "s \<noteq> [] \<Longrightarrow> 0 < snd (html_step sec s) \<and> snd (html_step sec s) \<le> length s"
  by (cases "(sec, s)" rule: html_step.cases) (auto split: option.split)

lemma strip_step:
  assumes "i + offset < len" and "len < length mem" and "mem ! i = mem ! (i + offset)"
    and step: "html_step sec (between mem (i + offset) len) = (x, k)"
  shows "strip_loop sec len mem i offset
       = strip_loop sec len (if offset + (k - 1) \<noteq> 0 then mem[i := x, i + 1 := mem ! (i + offset + k)] else mem[i := x])
           (i + 1) (offset + (k - 1))"
proof -
  let ?s = "between mem (i + offset) len"
  have k: "0 < k" "k \<le> len - (i + offset)"
    using html_step_length [of ?s sec] step assms(1, 2) by (auto simp: length_between between_Cons)
  have read: "read_at mem (i + offset) = Inr (mem ! (i + offset))"
    and in_range: "i + offset + k < length mem" and next_read: "i + 1 + (offset + (k - 1)) = i + offset + k"
    using assms(1, 2) k by (auto simp: read_at_def)
  have round: "(if mem ! (i + offset) = CHR ''%'' \<and> i + offset < len - 2 then
       (case escaped_byte sec (mem ! (i + offset + 1)) (mem ! (i + offset + 2)) of
          None \<Rightarrow> (mem[i := CHR ''_''], offset) | Some v \<Rightarrow> (mem[i := v], offset + 2))
     else (mem, offset)) = (mem[i := x], offset + (k - 1))"
  proof (cases "i + offset < len - 2")
    case True
    then have "?s = mem ! (i + offset) # mem ! (i + offset + 1) # mem ! (i + offset + 2) # between mem (i + offset + 3) len"
      using assms(2) by (simp add: between_Cons numeral_3_eq_3)
    then show ?thesis using step assms(3) True by (auto split: option.splits)
  next
    case False
    then have "?s = [mem ! (i + offset)] \<or> (\<exists>c. ?s = [mem ! (i + offset), c])"
    proof (cases "i + offset + 1 = len")
      case True
      then show ?thesis using assms(1, 2) by (simp add: between_Cons)
    next
      case two: False
      then have "len = Suc (Suc (i + offset))" using False assms(1) by simp
      then show ?thesis using assms(2) by (simp add: between_Cons)
    qed
    then show ?thesis using step assms(3) False by (auto simp del: list_update_id) (metis list_update_id)+
  qed
  have beyond: "read_at (mem[i := x]) (i + 1 + (offset + (k - 1))) = Inr (mem ! (i + offset + k))"
    if "offset + (k - 1) \<noteq> 0"
    using that k in_range unfolding next_read by (simp add: read_at_def)
  have lt: "i < len" using assms(1) by simp
  show ?thesis
  proof (cases "offset + (k - 1) \<noteq> 0")
    case True
    show ?thesis
      by (subst strip_loop.simps)
        (simp only: lt if_True read sum.case Let_def round prod.case True not_False_eq_True beyond [OF True])
  next
    case False
    then show ?thesis
      by (subst strip_loop.simps) (simp only: lt if_True if_False read sum.case Let_def round prod.case)
  qed
qed

text \<open>Past the end of the string the loop only copies bytes down.\<close>

lemma strip_tail:
  assumes "len \<le> i + offset" and "offset \<noteq> 0" and "i \<le> len" and "len < length mem"
  shows "if len + offset \<ge> length mem \<and> i < len then strip_loop sec len mem i offset = Inl Out_of_bounds
    else (\<exists>mem'. strip_loop sec len mem i offset = Inr (mem', offset) \<and> length mem' = length mem
       \<and> take (i + 1) mem' = take (i + 1) mem \<and> drop (len + 1) mem' = drop (len + 1) mem)"
  using assms
proof (induction "len - i" arbitrary: mem i)
  case 0
  then show ?case by (subst strip_loop.simps, subst strip_loop.simps) simp
next
  case (Suc d)
  then have i: "i < len" by simp
  show ?case
  proof (cases "i + 1 + offset < length mem")
    case False
    then show ?thesis using Suc.prems i
      by (subst strip_loop.simps, subst strip_loop.simps) (auto simp: read_at_def)
  next
    case True
    let ?m = "mem[i + 1 := mem ! (i + 1 + offset)]"
    have step: "strip_loop sec len mem i offset = strip_loop sec len ?m (i + 1) offset"
    proof -
      have no: "(i + offset < len - 2) = False" using Suc.prems by simp
      show ?thesis
        using True i Suc.prems by (subst strip_loop.simps) (simp add: read_at_def no)
    qed
    have IH: "if len + offset \<ge> length ?m \<and> i + 1 < len then strip_loop sec len ?m (i + 1) offset = Inl Out_of_bounds
      else (\<exists>mem'. strip_loop sec len ?m (i + 1) offset = Inr (mem', offset) \<and> length mem' = length ?m
         \<and> take (i + 1 + 1) mem' = take (i + 1 + 1) ?m \<and> drop (len + 1) mem' = drop (len + 1) ?m)"
      using Suc.prems Suc.hyps(2) i by (intro Suc.hyps(1)) auto
    have cond: "(len + offset \<ge> length ?m \<and> i + 1 < len) = (len + offset \<ge> length mem \<and> i < len)"
      using True i by auto
    show ?thesis
    proof (cases "len + offset \<ge> length mem \<and> i < len")
      case True
      then show ?thesis using IH unfolding cond step by simp
    next
      case False
      then obtain m' where m': "strip_loop sec len ?m (i + 1) offset = Inr (m', offset)" "length m' = length ?m"
        "take (i + 1 + 1) m' = take (i + 1 + 1) ?m" "drop (len + 1) m' = drop (len + 1) ?m"
        using IH unfolding cond by auto
      have "take (i + 1) m' = take (i + 1) mem" using arg_cong [OF m'(3), of "take (i + 1)"] by simp
      moreover have "drop (len + 1) m' = drop (len + 1) mem" using m'(4) i by simp
      ultimately show ?thesis using False m'(1, 2) unfolding step by simp
    qed
  qed
qed

lemma strip_loop_spec:
  assumes "len < length mem" and "i + offset \<le> len" and "mem ! i = mem ! (i + offset)"
    and "off = offset + (length (between mem (i + offset) len) - length (html_decode sec (between mem (i + offset) len)))"
  shows "if off \<noteq> 0 \<and> len + off \<ge> length mem \<and> i < len then strip_loop sec len mem i offset = Inl Out_of_bounds
    else (\<exists>mem'. strip_loop sec len mem i offset = Inr (mem', off) \<and> length mem' = length mem
       \<and> take (len - off) mem' = take i mem @ html_decode sec (between mem (i + offset) len)
       \<and> drop (len + 1) mem' = drop (len + 1) mem
       \<and> (off \<noteq> 0 \<longrightarrow> mem' ! (len - off) = mem ! len) \<and> (off = 0 \<longrightarrow> drop len mem' = drop len mem))"
  using assms
proof (induction "len - (i + offset)" arbitrary: mem i offset rule: less_induct)
  case less
  let ?s = "between mem (i + offset) len"
  show ?case
  proof (cases "i + offset < len")
    case False
    then have io: "i + offset = len" "?s = []" using less.prems by auto
    show ?thesis
    proof (cases "offset = 0")
      case True
      then have "strip_loop sec len mem i offset = Inr (mem, 0)" and "off = 0" and "i = len"
        using io less.prems(4) by (simp_all add: strip_loop.simps [of sec len])
      then show ?thesis using io(2) by simp
    next
      case False
      have tail: "if len + offset \<ge> length mem \<and> i < len then strip_loop sec len mem i offset = Inl Out_of_bounds
        else (\<exists>mem'. strip_loop sec len mem i offset = Inr (mem', offset) \<and> length mem' = length mem
          \<and> take (i + 1) mem' = take (i + 1) mem \<and> drop (len + 1) mem' = drop (len + 1) mem)"
        using io False less.prems(1) by (intro strip_tail) auto
      have e: "len - offset = i" "mem ! i = mem ! len" "off = offset"
        using io less.prems(3, 4) by simp_all
      show ?thesis
      proof (cases "len + offset \<ge> length mem \<and> i < len")
        case True
        then show ?thesis using tail False e(3) by simp
      next
        case no_fault: False
        then obtain m' where m': "strip_loop sec len mem i offset = Inr (m', offset)" "length m' = length mem"
          "take (i + 1) m' = take (i + 1) mem" "drop (len + 1) m' = drop (len + 1) mem"
          using tail by auto
        have "take i m' = take i mem" "m' ! i = mem ! len"
          using arg_cong [OF m'(3), of "take i"] arg_cong [OF m'(3), of "\<lambda>x. x ! i"] e(2) by simp_all
        then show ?thesis using no_fault m' e(1, 3) io(2) False by auto
      qed
    qed
  next
    case True
    obtain x k where step: "html_step sec ?s = (x, k)" by fastforce
    have s: "?s \<noteq> []" "length ?s = len - (i + offset)"
      using True less.prems(1) by (auto simp: length_between between_Cons)
    then have k: "0 < k" "k \<le> len - (i + offset)" using html_step_length [of ?s sec] step by auto
    define offset' where "offset' = offset + (k - 1)"
    define m where "m = (if offset' \<noteq> 0 then mem[i := x, i + 1 := mem ! (i + offset + k)] else mem[i := x])"
    have io: "i + 1 + offset' = i + offset + k" using k by (simp add: offset'_def)
    have loop: "strip_loop sec len mem i offset = strip_loop sec len m (i + 1) offset'"
      using strip_step [OF True less.prems(1, 3) step] by (simp add: m_def offset'_def)
    have io': "i + offset + k = Suc (i + offset')" and oo: "Suc offset' = offset + k" using io by simp_all
    have m: "length m = length mem" "take (i + 1) m = take i mem @ [x]" "drop (len + 1) m = drop (len + 1) mem"
      "between m (i + 1 + offset') len = between mem (i + 1 + offset') len" "m ! (i + 1) = m ! (i + 1 + offset')"
      "m ! len = mem ! len" "offset' = 0 \<longrightarrow> drop len m = drop len mem"
      using True less.prems(1) k io oo
      by (auto simp: m_def io' take_Suc_conv_app_nth between_def nth_list_update)
    have rest: "drop k ?s = between mem (i + 1 + offset') len"
      by (simp only: drop_from_between add.assoc [symmetric] io' [unfolded Suc_eq_plus1]) (simp add: add.commute)
    have dec: "html_decode sec ?s = x # html_decode sec (between m (i + 1 + offset') len)"
      using html_decode_step [OF s(1), of sec] step rest m(4) by simp
    have len_rest: "length (between m (i + 1 + offset') len) = len - (i + 1 + offset')"
      using m(1) less.prems(1) by (simp add: length_between)
    have off: "off = offset' + (length (between m (i + 1 + offset') len)
        - length (html_decode sec (between m (i + 1 + offset') len)))"
      using less.prems(4) dec s(2) len_rest io k html_decode_length [of sec "between m (i + 1 + offset') len"]
      by (simp add: offset'_def)
    have IH: "if off \<noteq> 0 \<and> len + off \<ge> length m \<and> i + 1 < len then strip_loop sec len m (i + 1) offset' = Inl Out_of_bounds
      else (\<exists>mem'. strip_loop sec len m (i + 1) offset' = Inr (mem', off) \<and> length mem' = length m
         \<and> take (len - off) mem' = take (i + 1) m @ html_decode sec (between m (i + 1 + offset') len)
         \<and> drop (len + 1) mem' = drop (len + 1) m
         \<and> (off \<noteq> 0 \<longrightarrow> mem' ! (len - off) = m ! len) \<and> (off = 0 \<longrightarrow> drop len mem' = drop len m))"
      using True k io m(1, 5) less.prems(1) off by (intro less.hyps) auto
    have "offset' = 0" if "off = 0" using off that by simp
    moreover have "i + 1 < len" if "off \<noteq> 0"
    proof (rule ccontr)
      assume "\<not> i + 1 < len"
      then have "offset' = 0" "i + 1 = len" using True io k by auto
      then show False using off that by simp
    qed
    ultimately show ?thesis
      using IH m True unfolding loop dec by (auto split: if_splits)
  qed
qed

lemma escaped_byte_NUL: "escaped_byte True a b \<noteq> Some NUL"
proof -
  have "char_of n \<noteq> NUL" if "32 \<le> n" "n \<le> 126" for n :: nat
  proof
    assume "char_of n = NUL"
    moreover have "byte_val (char_of n) = n" using that by (intro byte_val_char_of) simp
    ultimately show False using that(1) by simp
  qed
  then show ?thesis by (auto simp: escaped_byte_def Let_def split: option.splits)
qed

lemma html_decode_NUL: "NUL \<notin> set s \<Longrightarrow> NUL \<notin> set (html_decode True s)"
  by (induction True s rule: html_decode.induct) (auto split: option.split simp: escaped_byte_NUL dest: escaped_byte_NUL [THEN notE])

text \<open>The whole routine, for a name of more than two characters.\<close>

lemma StripHTML_spec:
  assumes "2 < strlen mem" and "strlen mem < length mem"
    and off: "off = strlen mem - length (html_decode sec (cstring mem))"
  shows "if off \<noteq> 0 \<and> strlen mem + off \<ge> length mem then StripHTMLCharacters_Inplace mem sec = Inl Out_of_bounds
    else (\<exists>mem'. StripHTMLCharacters_Inplace mem sec = Inr mem' \<and> length mem' = length mem
       \<and> take (strlen mem - off) mem' = html_decode sec (cstring mem)
       \<and> mem' ! (strlen mem - off) = NUL \<and> drop (strlen mem + 1) mem' = drop (strlen mem + 1) mem)"
proof -
  let ?n = "strlen mem"
  have s: "between mem (0 + 0) ?n = cstring mem"
    by (simp add: between_def cstring_eq_take [symmetric])
  have nul: "mem ! ?n = NUL"
    using nth_length_takeWhile [of "\<lambda>c. c \<noteq> NUL" mem] assms(2) unfolding cstring_def by blast
  have len: "off \<le> ?n" using off by simp
  have loop: "if off \<noteq> 0 \<and> ?n + off \<ge> length mem \<and> 0 < ?n then strip_loop sec ?n mem 0 0 = Inl Out_of_bounds
    else (\<exists>mem'. strip_loop sec ?n mem 0 0 = Inr (mem', off) \<and> length mem' = length mem
       \<and> take (?n - off) mem' = take 0 mem @ html_decode sec (between mem (0 + 0) ?n)
       \<and> drop (?n + 1) mem' = drop (?n + 1) mem
       \<and> (off \<noteq> 0 \<longrightarrow> mem' ! (?n - off) = mem ! ?n) \<and> (off = 0 \<longrightarrow> drop ?n mem' = drop ?n mem))"
  proof (rule strip_loop_spec [of ?n mem 0 0 off sec])
    show "off = 0 + (length (between mem (0 + 0) ?n) - length (html_decode sec (between mem (0 + 0) ?n)))"
      unfolding s off by simp
  qed (use assms(2) in simp_all)
  show ?thesis
  proof (cases "off \<noteq> 0 \<and> ?n + off \<ge> length mem")
    case True
    moreover have "cstring mem \<noteq> []" using assms(1) by auto
    ultimately show ?thesis using loop assms(1) by (simp add: StripHTMLCharacters_Inplace_def)
  next
    case False
    then obtain m where m: "strip_loop sec ?n mem 0 0 = Inr (m, off)" "length m = length mem"
      "take (?n - off) m = html_decode sec (cstring mem)" "drop (?n + 1) m = drop (?n + 1) mem"
      "off \<noteq> 0 \<longrightarrow> m ! (?n - off) = NUL" "off = 0 \<longrightarrow> drop ?n m = drop ?n mem"
      using loop s nul by auto
    let ?m = "if off \<noteq> 0 then m[?n := NUL] else m"
    have "StripHTMLCharacters_Inplace mem sec = Inr ?m"
      using m(1) assms(1) by (simp add: StripHTMLCharacters_Inplace_def)
    moreover have "take (?n - off) ?m = html_decode sec (cstring mem)" using m(3) by (cases "off = 0") simp_all
    moreover have "?m ! (?n - off) = NUL"
    proof (cases "off = 0")
      case True
      then have "hd (drop ?n m) = hd (drop ?n mem)" using m(6) by simp
      then show ?thesis using True assms(2) m(2) nul by (simp add: hd_drop_conv_nth)
    next
      case False
      then show ?thesis using m(5) assms(1, 2) m(2) by (simp add: nth_list_update)
    qed
    moreover have "drop (?n + 1) ?m = drop (?n + 1) mem" using m(4) by simp
    ultimately show ?thesis using False m(2) by auto
  qed
qed

lemma StripHTML_cstring:
  assumes "2 < strlen mem" and "strlen mem < length mem"
    and "StripHTMLCharacters_Inplace mem sec = Inr mem'"
  shows "cstring mem' = cstring (html_decode sec (cstring mem) @ [NUL])"
    and "length mem' = length mem" and "drop (strlen mem + 1) mem' = drop (strlen mem + 1) mem"
proof -
  let ?d = "html_decode sec (cstring mem)"
  have m: "length mem' = length mem" "take (length ?d) mem' = ?d" "mem' ! length ?d = NUL"
    "drop (strlen mem + 1) mem' = drop (strlen mem + 1) mem"
    using StripHTML_spec [OF assms(1, 2) refl, of sec] assms(3) html_decode_length [of sec "cstring mem"]
    by (auto split: if_splits)
  have "length ?d < length mem'" using m(1) assms(2) html_decode_length [of sec "cstring mem"] by simp
  then have "mem' = ?d @ NUL # drop (length ?d + 1) mem'"
    using m(2, 3) by (metis Suc_eq_plus1 append_take_drop_id Cons_nth_drop_Suc)
  moreover have "cstring (a @ NUL # b) = cstring (a @ [NUL])" for a b
    by (induction a) (simp_all add: cstring_def)
  ultimately show "cstring mem' = cstring (?d @ [NUL])" by metis
  show "length mem' = length mem" "drop (strlen mem + 1) mem' = drop (strlen mem + 1) mem" by fact+
qed

section \<open>Safe names\<close>

abbreviation printable :: "char \<Rightarrow> bool" where
  "printable c \<equiv> 32 \<le> byte_val c \<and> byte_val c \<le> 126"

lemma schar_printable: "\<not> (schar_val c < 32 \<or> schar_val c > 126) \<longleftrightarrow> printable c"
proof -
  have "int (byte_val c) < 256" using byte_val_lt [of c] by linarith
  then show ?thesis
    by (cases "byte_val c < 128") (simp_all only: schar_val_def if_True if_False, linarith+)
qed

lemma stripper_loop_iff:
  assumes "i < length f"
  shows "stripper_loop f i n
    \<longleftrightarrow> (\<forall>j. 0 < j \<and> j \<le> i \<longrightarrow> printable (f ! j) \<and> f ! j \<noteq> BACKSLASH \<and> \<not> (f ! j = CHR ''.'' \<and> f ! (j - 1) = CHR ''.''))
      \<and> (count_list (between f 1 (i + 1)) SLASH = 0 \<or> n + count_list (between f 1 (i + 1)) SLASH \<le> MAX_RESOURCE_SLASHES)"
  using assms
proof (induction i arbitrary: n)
  case 0
  then show ?case by (simp add: between_def)
next
  case (Suc i)
  let ?c = "f ! Suc i" and ?k = "count_list (between f 1 (i + 1)) SLASH"
  have b: "between f 1 (Suc i + 1) = between f 1 (i + 1) @ [?c]"
    using Suc.prems between_snoc [of 1 "Suc i + 1" f] by simp
  have upto: "(\<forall>j. 0 < j \<and> j \<le> Suc i \<longrightarrow> P j) \<longleftrightarrow> P (Suc i) \<and> (\<forall>j. 0 < j \<and> j \<le> i \<longrightarrow> P j)" for P :: "nat \<Rightarrow> bool"
    by (auto simp: le_Suc_eq)
  have IH: "stripper_loop f i n
    \<longleftrightarrow> (\<forall>j. 0 < j \<and> j \<le> i \<longrightarrow> printable (f ! j) \<and> f ! j \<noteq> BACKSLASH \<and> \<not> (f ! j = CHR ''.'' \<and> f ! (j - 1) = CHR ''.''))
      \<and> (?k = 0 \<or> n + ?k \<le> MAX_RESOURCE_SLASHES)" for n
    using Suc.prems by (intro Suc.IH) simp
  have slash_ok: "(schar_val SLASH < 32 \<or> schar_val SLASH > 126) = False" by (simp add: schar_val_def)
  have slash: "printable SLASH" "SLASH \<noteq> BACKSLASH" "SLASH \<noteq> CHR ''.''" by simp_all
  show ?case
  proof (cases "printable ?c")
    case False
    then show ?thesis by (simp only: stripper_loop.simps Let_def schar_printable [symmetric] upto) auto
  next
    case True
    then have ok: "(schar_val ?c < 32 \<or> schar_val ?c > 126) = False" using schar_printable [of ?c] by simp
    show ?thesis
    proof (cases "?c = SLASH")
      case slash_c: True
      show ?thesis
        unfolding upto b count_list_append
        by (simp only: stripper_loop.simps Let_def slash_ok if_False slash_c if_True IH slash simp_thms) auto
    next
      case False
      then show ?thesis
        unfolding upto b count_list_append
        by (simp only: stripper_loop.simps Let_def ok if_False IH) (use True in auto)
    qed
  qed
qed

text \<open>The names that are accepted: the first character is not looked at.\<close>

definition safe_name :: "string \<Rightarrow> bool" where
  "safe_name s \<longleftrightarrow>
     s \<noteq> [] \<and> list_all printable (tl s) \<and> BACKSLASH \<notin> set (tl s) \<and> \<not> sublist ''..'' s
     \<and> count_list (tl s) SLASH \<le> MAX_RESOURCE_SLASHES"

lemma sublist_dots: "sublist ''..'' s \<longleftrightarrow> (\<exists>j. 0 < j \<and> j < length s \<and> s ! j = CHR ''.'' \<and> s ! (j - 1) = CHR ''.'')"
proof
  assume "sublist ''..'' s"
  then obtain a b where "s = a @ ''..'' @ b" by (auto simp: sublist_def)
  then show "\<exists>j. 0 < j \<and> j < length s \<and> s ! j = CHR ''.'' \<and> s ! (j - 1) = CHR ''.''"
    by (intro exI [of _ "length a + 1"]) (simp add: nth_append)
next
  assume "\<exists>j. 0 < j \<and> j < length s \<and> s ! j = CHR ''.'' \<and> s ! (j - 1) = CHR ''.''"
  then obtain j where j: "0 < j" "j < length s" "s ! j = CHR ''.''" "s ! (j - 1) = CHR ''.''" by blast
  have "s = take (j - 1) s @ s ! (j - 1) # s ! j # drop (j + 1) s"
    using j(1, 2) by (metis Cons_nth_drop_Suc One_nat_def Suc_eq_plus1 Suc_pred append_take_drop_id diff_le_self le_less_trans)
  then show "sublist ''..'' s" unfolding j(3, 4) sublist_def by (metis append_Cons append_Nil)
qed

lemma FilenameStripper_iff:
  assumes "strlen f < length f"
  shows "FilenameStripperOk (Some f) \<longleftrightarrow> safe_name (cstring f)"
proof (cases "cstring f = []")
  case True
  then show ?thesis by (simp add: FilenameStripperOk_def safe_name_def)
next
  case False
  let ?s = "cstring f" and ?n = "strlen f - 1"
  have n: "Suc ?n = strlen f" using False by simp
  have nth: "f ! j = ?s ! j" if "j < strlen f" for j
    using that by (metis cstring_eq_take nth_take)
  have tl: "between f 1 (?n + 1) = tl ?s"
  proof -
    have "tl ?s = drop 1 (take (strlen f) f)" using cstring_eq_take [of f] by (simp add: drop_Suc)
    then show ?thesis using n by (simp add: between_def drop_take)
  qed
  have all: "list_all P (tl ?s) \<longleftrightarrow> (\<forall>j. 0 < j \<and> j \<le> ?n \<longrightarrow> P (f ! j))" for P
  proof -
    have "list_all P (tl ?s) \<longleftrightarrow> (\<forall>k < ?n. P (?s ! (k + 1)))" by (simp add: list_all_length nth_tl)
    also have "\<dots> \<longleftrightarrow> (\<forall>j. 0 < j \<and> j \<le> ?n \<longrightarrow> P (?s ! j))"
      by (auto simp: Suc_le_eq gr0_conv_Suc)
    also have "\<dots> \<longleftrightarrow> (\<forall>j. 0 < j \<and> j \<le> ?n \<longrightarrow> P (f ! j))"
      using nth n by auto
    finally show ?thesis .
  qed
  have dots: "sublist ''..'' ?s \<longleftrightarrow> (\<exists>j. 0 < j \<and> j \<le> ?n \<and> f ! j = CHR ''.'' \<and> f ! (j - 1) = CHR ''.'')"
  proof -
    have "(0 < j \<and> j < strlen f \<and> ?s ! j = CHR ''.'' \<and> ?s ! (j - 1) = CHR ''.'')
      = (0 < j \<and> j \<le> ?n \<and> f ! j = CHR ''.'' \<and> f ! (j - 1) = CHR ''.'')" for j
      using nth [of j] nth [of "j - 1"] n by auto
    then show ?thesis unfolding sublist_dots by (simp only:)
  qed
  have "FilenameStripperOk (Some f) \<longleftrightarrow> stripper_loop f ?n 0"
    using False by (simp add: FilenameStripperOk_def)
  also have "\<dots> \<longleftrightarrow> list_all printable (tl ?s) \<and> list_all (\<lambda>c. c \<noteq> BACKSLASH) (tl ?s) \<and> \<not> sublist ''..'' ?s
      \<and> count_list (tl ?s) SLASH \<le> MAX_RESOURCE_SLASHES"
    unfolding all dots using assms n by (subst stripper_loop_iff) (linarith, simp only: tl, auto)
  also have "\<dots> \<longleftrightarrow> safe_name ?s"
    using False by (auto simp: safe_name_def list_all_iff)
  finally show ?thesis .
qed

section \<open>Directories\<close>

fun join_with :: "char \<Rightarrow> string list \<Rightarrow> string" where
  "join_with c [] = []"
| "join_with c [x] = x"
| "join_with c (x # y # xs) = x @ c # join_with c (y # xs)"

lemma join_with_append:
  "xs \<noteq> [] \<Longrightarrow> ys \<noteq> [] \<Longrightarrow> join_with c (xs @ ys) = join_with c xs @ c # join_with c ys"
  by (induction c xs rule: join_with.induct) (auto simp: neq_Nil_conv)

lemma split_on_cases:
  obtains "c \<notin> set s" "split_on c s = [s]"
  | a r where "s = a @ c # r" "c \<notin> set a" "split_on c s = a # split_on c r"
proof (cases "c \<in> set s")
  case False
  then show thesis using that(1) split_on_none by blast
next
  case True
  then obtain a r where "s = a @ c # r" "c \<notin> set a" using split_list_first by metis
  then show thesis using that(2) split_on_sep by blast
qed

lemma split_on_not_Nil: "split_on c s \<noteq> []"
  by (rule split_on_cases [of c s]) auto

lemma join_split: "join_with c (split_on c s) = s"
proof (induction "length s" arbitrary: s rule: less_induct)
  case less
  show ?case
  proof (rule split_on_cases [of c s])
    fix a r assume s: "s = a @ c # r" "split_on c s = a # split_on c r"
    have "join_with c (split_on c r) = r" using s by (intro less) simp
    then show ?thesis using s split_on_not_Nil [of c r] by (cases "split_on c r") auto
  qed auto
qed

lemma split_on_append: "split_on c (r @ c # t) = split_on c r @ split_on c t"
proof (induction "length r" arbitrary: r rule: less_induct)
  case less
  show ?case
  proof (rule split_on_cases [of c r])
    assume "c \<notin> set r" "split_on c r = [r]"
    then show ?thesis using split_on_sep by simp
  next
    fix a r' assume r: "r = a @ c # r'" "c \<notin> set a" "split_on c r = a # split_on c r'"
    have "split_on c (r' @ c # t) = split_on c r' @ split_on c t" using r by (intro less) simp
    then show ?thesis using r split_on_sep [OF r(2), of "r' @ c # t"] by simp
  qed
qed

lemma prefix_split_on:
  "prefix (split_on c r) (split_on c s) \<longleftrightarrow> (\<exists>t. s = r @ t \<and> (t = [] \<or> hd t = c))"
proof
  assume "prefix (split_on c r) (split_on c s)"
  then obtain rest where rest: "split_on c s = split_on c r @ rest" by (auto simp: prefix_def)
  show "\<exists>t. s = r @ t \<and> (t = [] \<or> hd t = c)"
  proof (cases "rest = []")
    case True
    then have "join_with c (split_on c s) = join_with c (split_on c r)" using rest by simp
    then have "s = r" by (simp only: join_split)
    then show ?thesis by simp
  next
    case False
    have "join_with c (split_on c s) = join_with c (split_on c r) @ c # join_with c rest"
      unfolding rest by (rule join_with_append [OF split_on_not_Nil False])
    then have "s = r @ c # join_with c rest" by (simp only: join_split)
    then show ?thesis by (intro exI [of _ "c # join_with c rest"]) simp
  qed
next
  assume "\<exists>t. s = r @ t \<and> (t = [] \<or> hd t = c)"
  then obtain t where t: "s = r @ t" "t = [] \<or> hd t = c" by blast
  then show "prefix (split_on c r) (split_on c s)" by (cases t) (auto simp: split_on_append)
qed

lemma within_iff:
  assumes "realpath root = Some r" and "candidate \<noteq> []"
    and "resolve_candidate realpath candidate = Some p" and "NUL \<notin> set p"
  shows "PathResolvesWithinDirectory realpath (Some root) (Some candidate)
    \<longleftrightarrow> prefix (split_on SLASH r) (split_on SLASH p)"
proof -
  have "(take (length r) p = r \<and> (c_at p (length r) = NUL \<or> c_at p (length r) = SLASH))
      \<longleftrightarrow> (\<exists>t. p = r @ t \<and> (t = [] \<or> hd t = SLASH))"
  proof
    assume l: "take (length r) p = r \<and> (c_at p (length r) = NUL \<or> c_at p (length r) = SLASH)"
    then have p: "p = r @ drop (length r) p" by (metis append_take_drop_id)
    show "\<exists>t. p = r @ t \<and> (t = [] \<or> hd t = SLASH)"
    proof (cases "length r < length p")
      case True
      then have "p ! length r \<noteq> NUL" using assms(4) nth_mem [of "length r" p] by metis
      then have "p ! length r = SLASH" using l assms(4) True by (auto simp: c_at_def)
      then show ?thesis using p True by (metis hd_drop_conv_nth)
    next
      case False
      then show ?thesis using p by auto
    qed
  next
    assume "\<exists>t. p = r @ t \<and> (t = [] \<or> hd t = SLASH)"
    then obtain t where "p = r @ t" "t = [] \<or> hd t = SLASH" by blast
    then show "take (length r) p = r \<and> (c_at p (length r) = NUL \<or> c_at p (length r) = SLASH)"
      by (cases t) (auto simp: c_at_def)
  qed
  then show ?thesis
    using assms(1-3) unfolding prefix_split_on
    by (cases "take (length r) p = r") (simp_all add: PathResolvesWithinDirectory_def Let_def)
qed

section \<open>Properties\<close>

text \<open>
  \<open>StripHTMLCharacters_Inplace\<close> decodes the escapes of a name of more than two
  characters: its C string becomes \<open>html_decode\<close> of the old one and nothing behind the old
  terminator is changed.  It reads as many bytes past the terminator as it has saved, so it
  leaves the memory exactly when something was decoded and there is no such room.
\<close>

lemma strip_html_decodes:
  assumes "2 < strlen mem" and "strlen mem < length mem"
  shows "case StripHTMLCharacters_Inplace mem True of
      Inr mem' \<Rightarrow> cstring mem' = html_decode True (cstring mem) \<and> length mem' = length mem
        \<and> drop (strlen mem + 1) mem' = drop (strlen mem + 1) mem
    | Inl f \<Rightarrow> f = Out_of_bounds \<and> length (html_decode True (cstring mem)) < strlen mem
        \<and> length mem \<le> 2 * strlen mem - length (html_decode True (cstring mem))"
proof -
  have nul: "cstring (html_decode True (cstring mem) @ [NUL]) = html_decode True (cstring mem)"
    by (rule cstring_append_NUL) (rule html_decode_NUL, simp)
  show ?thesis
  proof (cases "StripHTMLCharacters_Inplace mem True")
    case (Inl f)
    then show ?thesis
      using StripHTML_spec [OF assms refl, of True] by (auto split: if_splits)
  next
    case (Inr mem')
    then show ?thesis using StripHTML_cstring [OF assms Inr] nul by simp
  qed
qed

lemma strip_html_decodes_witness:
  "(case StripHTMLCharacters_Inplace (''/a%20b'' @ [NUL] @ ''xy'') True of
      Inr mem' \<Rightarrow> cstring mem' = ''/a b'' | Inl f \<Rightarrow> False)
   \<and> StripHTMLCharacters_Inplace (''/a%20b'' @ [NUL]) True = Inl Out_of_bounds"
proof
  have d: "html_decode True ''/a%20b'' = ''/a b''" by code_simp
  have s: "cstring (''/a%20b'' @ [NUL] @ r) = ''/a%20b''" for r by (simp add: cstring_def)
  have ok: "\<exists>m. StripHTMLCharacters_Inplace (''/a%20b'' @ [NUL] @ ''xy'') True = Inr m"
    by (rule exI [of _ "''/a b'' @ [NUL, CHR ''x'', NUL] @ ''xy''"]) code_simp
  then show "case StripHTMLCharacters_Inplace (''/a%20b'' @ [NUL] @ ''xy'') True of
      Inr mem' \<Rightarrow> cstring mem' = ''/a b'' | Inl f \<Rightarrow> False"
    using strip_html_decodes [of "''/a%20b'' @ [NUL] @ ''xy''", unfolded s d] by auto
  have "StripHTMLCharacters_Inplace (''/a%20b'' @ [NUL] @ []) True = Inl Out_of_bounds" by code_simp
  then show "StripHTMLCharacters_Inplace (''/a%20b'' @ [NUL]) True = Inl Out_of_bounds" by simp
qed



text \<open>
  \<open>ReducePathSlashes_Inplace\<close> reduces every run of slashes to one slash and says whether
  it changed anything; what it leaves has no two slashes in a row.
\<close>

lemma reduce_slashes_squeezes:
  assumes "strlen mem < length mem"
  shows "cstring (fst (ReducePathSlashes_Inplace mem)) = squeeze (cstring mem)
    \<and> (snd (ReducePathSlashes_Inplace mem) \<longleftrightarrow> squeeze (cstring mem) \<noteq> cstring mem)
    \<and> \<not> sublist [SLASH, SLASH] (cstring (fst (ReducePathSlashes_Inplace mem)))"
  using ReducePathSlashes_spec [OF assms] squeeze_no_double [of "cstring mem"] by simp

lemma reduce_slashes_squeezes_witness:
  "cstring (fst (ReducePathSlashes_Inplace (''www///a//b'' @ [NUL]))) = ''www/a/b''"
proof -
  have s: "cstring (''www///a//b'' @ [NUL]) = ''www///a//b''" by (simp add: cstring_def)
  have q: "squeeze ''www///a//b'' = ''www/a/b''" by simp
  show ?thesis using reduce_slashes_squeezes [of "''www///a//b'' @ [NUL]"] by (simp only: s q) simp
qed



text \<open>
  The root directory contains nothing: \<open>realpath\<close> gives \<open>/\<close> itself, and no resolved path
  has a second slash there.
\<close>

lemma root_contains_nothing:
  assumes "realpath root = Some ''/''" and "realpath candidate = Some (CHR ''/'' # c # p)"
    and "c \<noteq> CHR ''/''" and "c \<noteq> NUL"
  shows "\<not> PathResolvesWithinDirectory realpath (Some root) (Some candidate)"
  using assms by (simp add: PathResolvesWithinDirectory_def resolve_candidate_def c_at_def)

lemma root_contains_nothing_witness:
  "\<not> PathResolvesWithinDirectory (map_of [(''/'', ''/''), (''/etc'', ''/etc'')]) (Some ''/'') (Some ''/etc'')"
  by (rule root_contains_nothing [of _ _ _ "CHR ''e''" "''tc''"]) simp_all

end
