(* ===== verification/FormFields.thy ===== *)
theory FormFields
  imports HttpHeader PathTools
begin

text \<open>
  The fields of a query string and of a \<open>Cookie\<close> header
  (\<open>header_analysis/get_data.c\<close> and \<open>header_analysis/cookie_data.c\<close>).  Both parsers work in
  place: \<open>mem\<close> is the memory from the value on, \<open>a\<close> its address, and what they register are
  pointers into it.  \<open>target\<close> has room for 129 items; the one being filled is \<open>slot\<close>.
\<close>

definition MAX_HTTP_GET_VARIABLE_COUNT :: nat where "MAX_HTTP_GET_VARIABLE_COUNT = 128"

definition no_item :: get_item where
  "no_item = \<lparr>g_name = None, g_nameSize = 0, g_value = None, g_valueSize = 0, g_realloc = False\<rparr>"

text \<open>A write to \<open>target[n]\<close>.\<close>

definition in_target :: "get_item list \<Rightarrow> bool" where
  "in_target items \<longleftrightarrow> length items \<le> MAX_HTTP_GET_VARIABLE_COUNT"

section \<open>The query string\<close>

datatype get_state = FOUND_NOTHING | SEEKING_NAME | SEEKING_VALUE

record get_scan =
  gs_mem :: string
  gs_pos :: nat
  gs_state :: get_state
  gs_start :: nat
  gs_items :: "get_item list"
  gs_slot :: get_item

definition found_name :: "nat \<Rightarrow> get_scan \<Rightarrow> get_scan checked" where
  "found_name a g =
     (if in_target (gs_items g)
      then Inr (g\<lparr>gs_slot := (gs_slot g)\<lparr>g_name := Some (a + gs_start g), g_value := None\<rparr>\<rparr>) else Inl Out_of_bounds)"

definition found_value :: "nat \<Rightarrow> get_scan \<Rightarrow> get_scan checked" where
  "found_value a g =
     (if in_target (gs_items g)
      then Inr (g\<lparr>gs_slot := (gs_slot g)\<lparr>g_value := Some (a + gs_start g)\<rparr>\<rparr>) else Inl Out_of_bounds)"

text \<open>\<open>*targetNumber+=1\<close>, and the NUL at the current position.\<close>

definition next_item :: "get_scan \<Rightarrow> get_scan" where
  "next_item g = g\<lparr>gs_items := gs_items g @ [gs_slot g], gs_slot := no_item\<rparr>"

definition end_text :: "get_scan \<Rightarrow> get_scan checked" where
  "end_text g = map_sum id (\<lambda>m. g\<lparr>gs_mem := m\<rparr>) (write_at (gs_mem g) (gs_pos g) NUL)"

definition attempt :: "'a checked \<Rightarrow> ('a \<Rightarrow> 'b checked) \<Rightarrow> 'b checked" where
  "attempt r f = (case r of Inl e \<Rightarrow> Inl e | Inr x \<Rightarrow> f x)"

definition seek :: "get_state \<Rightarrow> get_scan \<Rightarrow> get_scan" where
  "seek s g = g\<lparr>gs_state := s, gs_start := gs_pos g + 1\<rparr>"

text \<open>A character that ends the whole value, and any other character.\<close>

definition get_end :: "nat \<Rightarrow> get_scan \<Rightarrow> get_scan checked" where
  "get_end a g =
     (case gs_state g of
        FOUND_NOTHING \<Rightarrow> Inr g
      | SEEKING_NAME \<Rightarrow> attempt (found_name a g) (\<lambda>g. attempt (end_text g) (\<lambda>g. Inr (next_item g)))
      | SEEKING_VALUE \<Rightarrow> attempt (found_value a g) (\<lambda>g. attempt (end_text g) (\<lambda>g. Inr (next_item g))))"

definition get_char :: "nat \<Rightarrow> char \<Rightarrow> get_scan \<Rightarrow> get_scan checked" where
  "get_char a c g =
     (let g = (if gs_state g = FOUND_NOTHING then g\<lparr>gs_state := SEEKING_NAME\<rparr> else g)
      in if c = CHR ''='' then
           (if gs_state g = SEEKING_NAME
            then attempt (found_name a g) (\<lambda>g. attempt (end_text g) (\<lambda>g. Inr (seek SEEKING_VALUE g)))
            else Inr g)
         else if c = CHR ''&'' then
           (if gs_state g = SEEKING_NAME
            then attempt (found_name a g) (\<lambda>g. attempt (end_text (next_item g)) (\<lambda>g. Inr (seek SEEKING_NAME g)))
            else attempt (found_value a g) (\<lambda>g. attempt (end_text (next_item g)) (\<lambda>g. Inr (seek SEEKING_NAME g))))
         else Inr g)"

definition terminator :: "char \<Rightarrow> bool" where
  "terminator c \<longleftrightarrow> c = LF \<or> c = CR \<or> c = NUL"

text \<open>The loop does as many rounds as there are bytes left.\<close>

fun get_loop :: "nat \<Rightarrow> nat \<Rightarrow> get_scan \<Rightarrow> get_scan checked" where
  "get_loop a 0 g = Inr g"
| "get_loop a (Suc n) g =
     (case read_at (gs_mem g) (gs_pos g) of
        Inl f \<Rightarrow> Inl f
      | Inr c \<Rightarrow>
          if terminator c then get_end a g
          else attempt (get_char a c g) (\<lambda>g. get_loop a n (g\<lparr>gs_pos := gs_pos g + 1\<rparr>)))"

text \<open>The lengths are taken with \<open>strlen\<close>; a name or value that is NULL faults.\<close>

fun measure_items :: "nat \<Rightarrow> string \<Rightarrow> get_item list \<Rightarrow> get_item list checked" where
  "measure_items a mem [] = Inr []"
| "measure_items a mem (it # items) =
     (case (g_name it, g_value it) of
        (Some n, Some v) \<Rightarrow>
          map_sum id (Cons (it\<lparr>g_realloc := True, g_nameSize := strlen (drop (n - a) mem),
              g_valueSize := strlen (drop (v - a) mem)\<rparr>))
            (measure_items a mem items)
      | _ \<Rightarrow> Inl Null_deref)"

text \<open>The value that the end of the query leaves open.\<close>

definition get_final :: "nat \<Rightarrow> get_scan \<Rightarrow> get_scan checked" where
  "get_final a g =
     (if gs_state g = SEEKING_VALUE
      then attempt (found_value a g) (\<lambda>g. attempt (end_text g) (\<lambda>g. Inr (next_item g))) else Inr g)"

definition finalizeGenericGETField :: "nat \<Rightarrow> string \<Rightarrow> nat \<Rightarrow> (string \<times> get_item list \<times> bool) checked" where
  "finalizeGenericGETField a mem valueLength =
     (if valueLength = 0 then Inr (mem, [], False)
      else
        attempt (get_loop a valueLength
               \<lparr>gs_mem = mem, gs_pos = 0, gs_state = FOUND_NOTHING, gs_start = 0, gs_items = [], gs_slot = no_item\<rparr>)
          (\<lambda>g. attempt (get_final a g)
             (\<lambda>g. attempt (measure_items a (gs_mem g) (gs_items g))
                (\<lambda>items. Inr (gs_mem g, items, True)))))"

definition wipeGETData :: "http_header \<Rightarrow> http_header" where
  "wipeGETData h = h\<lparr>GETItem := []\<rparr>"

definition finalizeGETData :: "http_header \<Rightarrow> (http_header \<times> bool) checked" where
  "finalizeGETData h =
     (let h = wipeGETData h
      in case fst (GETrequest h) of
           None \<Rightarrow> Inr (h, False)
         | Some a \<Rightarrow>
             (let offset = a - the (headerRAW h); mem = drop offset (headerBytes h);
                  size = min (strlen mem) (snd (GETrequest h))
              in attempt (finalizeGenericGETField a mem size)
                   (\<lambda>(mem, items, ok). Inr (h\<lparr>headerBytes := take offset (headerBytes h) @ mem, GETItem := items\<rparr>, ok))))"

text \<open>Looking a field up; \<open>text_from\<close> is the C string behind a pointer.\<close>

definition text_from :: "http_header \<Rightarrow> nat \<Rightarrow> string" where
  "text_from h p = cstring (drop (p - the (headerRAW h)) (headerBytes h))"

definition getGETItemFromName :: "http_header \<Rightarrow> string \<Rightarrow> get_item option" where
  "getGETItemFromName h nameToLookFor =
     find (\<lambda>it. case g_name it of None \<Rightarrow> False | Some p \<Rightarrow> text_from h p = nameToLookFor)
       (take MAX_HTTP_GET_VARIABLE_COUNT (GETItem h))"

definition getPointerToGETItemValue :: "http_header \<Rightarrow> string \<Rightarrow> ptr \<times> nat" where
  "getPointerToGETItemValue h nameToLookFor =
     (case getGETItemFromName h nameToLookFor of None \<Rightarrow> (None, 0) | Some it \<Rightarrow> (g_value it, g_valueSize it))"

section \<open>The cookies\<close>

text \<open>
  One round of the loop of \<open>finalizeGenericCookieField\<close>: blanks and semicolons, a name, and
  perhaps a value.  The positions are bounded by \<open>e\<close>, the end of the line, behind which nothing
  is written.
\<close>

definition cookie_stop :: "string \<Rightarrow> nat \<Rightarrow> nat \<Rightarrow> bool" where
  "cookie_stop mem e p \<longleftrightarrow> p \<ge> e \<or> terminator (mem ! p)"

function cookie_loop :: "nat \<Rightarrow> nat \<Rightarrow> string \<Rightarrow> nat \<Rightarrow> get_item list \<Rightarrow> string \<times> get_item list" where
  "cookie_loop a e mem p items =
     (if p < e then
        (let p = scan_while (\<lambda>c. c = SPC \<or> c = CHR '';'') mem e p
         in if cookie_stop mem e p \<or> length items \<ge> MAX_HTTP_GET_VARIABLE_COUNT then (mem, items)
            else
              (let q = scan_while (\<lambda>c. c \<noteq> CHR ''='' \<and> c \<noteq> CHR '';'' \<and> \<not> terminator c) mem e p;
                   named = no_item\<lparr>g_name := Some (a + p), g_nameSize := q - p\<rparr>
               in if q \<ge> e \<or> mem ! q \<noteq> CHR ''='' then
                    (let mem' = (if q < e then mem[q := NUL] else mem)
                     in if cookie_stop mem e q then (mem', items @ [named])
                        else cookie_loop a e mem' (q + 1) (items @ [named]))
                  else
                    (let r = scan_while (\<lambda>c. c \<noteq> CHR '';'' \<and> \<not> terminator c) mem e (q + 1);
                         item = named\<lparr>g_value := Some (a + (q + 1)), g_valueSize := r - (q + 1)\<rparr>;
                         mem' = (if r < e then mem[q := NUL, r := NUL] else mem[q := NUL])
                     in if cookie_stop mem e r then (mem', items @ [item])
                        else cookie_loop a e mem' (r + 1) (items @ [item]))))
      else (mem, items))"
  by pat_completeness auto
termination
proof (relation "measure (\<lambda>(a, e, mem, p, items). e - p)", goal_cases)
  case (2 a e mem p items p' q)
  have "p \<le> p'" unfolding 2(2) by (rule scan_while_ge)
  moreover have "p' \<le> q" unfolding 2(4) by (rule scan_while_ge)
  ultimately show ?case using 2(1) by simp
next
  case (3 a e mem p items p' q _ r)
  have "p \<le> p'" unfolding 3(2) by (rule scan_while_ge)
  moreover have "p' \<le> q" unfolding 3(4) by (rule scan_while_ge)
  moreover have "q + 1 \<le> r" unfolding 3(7) by (rule scan_while_ge)
  ultimately show ?case using 3(1) by simp
qed simp

declare cookie_loop.simps [simp del]

definition finalizeCOOKIEData :: "http_header \<Rightarrow> ptr \<Rightarrow> nat \<Rightarrow> http_header \<times> bool" where
  "finalizeCOOKIEData h v valueLength =
     (let h = h\<lparr>COOKIEItem := []\<rparr>
      in case v of
           None \<Rightarrow> (h, False)
         | Some a \<Rightarrow>
             if valueLength = 0 then (h, False)
             else
               (let offset = a - the (headerRAW h);
                    (mem, items) = cookie_loop a valueLength (drop offset (headerBytes h)) 0 []
                in (h\<lparr>headerBytes := take offset (headerBytes h) @ mem,
                      COOKIEItem := map (\<lambda>it. it\<lparr>g_realloc := True\<rparr>) items\<rparr>, True)))"

definition getCOOKIEItemFromName :: "http_header \<Rightarrow> string \<Rightarrow> get_item option" where
  "getCOOKIEItemFromName h nameToLookFor =
     find (\<lambda>it. case g_name it of
             None \<Rightarrow> False
           | Some p \<Rightarrow>
               g_nameSize it = length nameToLookFor
               \<and> slice (headerBytes h) (p - the (headerRAW h)) (length nameToLookFor) = nameToLookFor)
       (take MAX_HTTP_GET_VARIABLE_COUNT (COOKIEItem h))"

definition getPointerToCOOKIEItemValue :: "http_header \<Rightarrow> string \<Rightarrow> ptr \<times> nat" where
  "getPointerToCOOKIEItemValue h nameToLookFor =
     (case getCOOKIEItemFromName h nameToLookFor of None \<Rightarrow> (None, 0) | Some it \<Rightarrow> (g_value it, g_valueSize it))"

section \<open>Reading a query\<close>

text \<open>The text of a list of fields, the characters they may have, and the text between separators.\<close>

definition query_text :: "(string \<times> string) list \<Rightarrow> string" where
  "query_text kvs = join_with (CHR ''&'') (map (\<lambda>(n, v). n @ CHR ''='' # v) kvs)"

definition query_field :: "string \<times> string \<Rightarrow> bool" where
  "query_field kv \<longleftrightarrow>
     list_all (\<lambda>c. \<not> terminator c \<and> c \<noteq> CHR ''&'' \<and> c \<noteq> CHR ''='') (fst kv)
     \<and> list_all (\<lambda>c. \<not> terminator c \<and> c \<noteq> CHR ''&'') (snd kv)"

text \<open>What the parser makes of it: the memory and the items.\<close>

fun laid :: "(string \<times> string) list \<Rightarrow> string" where
  "laid [] = []"
| "laid ((n, v) # kvs) = n @ NUL # v @ NUL # laid kvs"

fun raw_items :: "nat \<Rightarrow> (string \<times> string) list \<Rightarrow> get_item list" where
  "raw_items p [] = []"
| "raw_items p ((n, v) # kvs) =
     no_item\<lparr>g_name := Some p, g_value := Some (p + length n + 1)\<rparr> # raw_items (p + length n + length v + 2) kvs"

fun get_items :: "nat \<Rightarrow> (string \<times> string) list \<Rightarrow> get_item list" where
  "get_items p [] = []"
| "get_items p ((n, v) # kvs) =
     \<lparr>g_name = Some p, g_nameSize = length n, g_value = Some (p + length n + 1), g_valueSize = length v, g_realloc = True\<rparr>
     # get_items (p + length n + length v + 2) kvs"

lemma raw_items_length [simp]: "length (raw_items p kvs) = length kvs"
  by (induction p kvs rule: raw_items.induct) auto

lemma get_items_length [simp]: "length (get_items p kvs) = length kvs"
  by (induction p kvs rule: get_items.induct) auto

lemma attempt_Inr [simp]: "attempt (Inr x) f = f x" and attempt_Inl [simp]: "attempt (Inl e) f = Inl e"
  by (simp_all add: attempt_def)

lemma attempt_attempt: "attempt (attempt x f) k = attempt x (\<lambda>y. attempt (f y) k)"
  by (cases x) simp_all

text \<open>A run of characters of a name or of a value.\<close>

lemma get_loop_run:
  assumes "list_all (\<lambda>c. \<not> terminator c \<and> c \<noteq> CHR ''&'' \<and> (s = SEEKING_NAME \<longrightarrow> c \<noteq> CHR ''='')) run"
    and "s \<noteq> FOUND_NOTHING"
  shows "get_loop a (length run + m) \<lparr>gs_mem = pre @ run @ post, gs_pos = length pre, gs_state = s, gs_start = b,
             gs_items = items, gs_slot = slot\<rparr>
       = get_loop a m \<lparr>gs_mem = pre @ run @ post, gs_pos = length pre + length run, gs_state = s, gs_start = b,
             gs_items = items, gs_slot = slot\<rparr>"
  using assms(1)
proof (induction run arbitrary: pre)
  case (Cons c run)
  have "s = SEEKING_NAME \<or> s = SEEKING_VALUE" using assms(2) by (cases s) auto
  then have "get_loop a (length (c # run) + m) \<lparr>gs_mem = pre @ (c # run) @ post, gs_pos = length pre, gs_state = s,
        gs_start = b, gs_items = items, gs_slot = slot\<rparr>
      = get_loop a (length run + m) \<lparr>gs_mem = (pre @ [c]) @ run @ post, gs_pos = length (pre @ [c]), gs_state = s,
        gs_start = b, gs_items = items, gs_slot = slot\<rparr>"
    using Cons.prems by (auto simp: read_at_def get_char_def Let_def)
  then show ?case using Cons.IH [of "pre @ [c]"] Cons.prems by simp
qed simp

text \<open>A name with its \<open>=\<close>, and a value with its \<open>&\<close>.\<close>

lemma get_loop_name:
  assumes "query_field (n, v)" and "length items \<le> MAX_HTTP_GET_VARIABLE_COUNT"
  shows "get_loop a (length n + Suc m) \<lparr>gs_mem = pre @ n @ CHR ''='' # post, gs_pos = length pre,
             gs_state = SEEKING_NAME, gs_start = length pre, gs_items = items, gs_slot = no_item\<rparr>
       = get_loop a m \<lparr>gs_mem = pre @ n @ NUL # post, gs_pos = length pre + length n + 1,
             gs_state = SEEKING_VALUE, gs_start = length pre + length n + 1, gs_items = items,
             gs_slot = no_item\<lparr>g_name := Some (a + length pre), g_value := None\<rparr>\<rparr>"
  using assms get_loop_run [of SEEKING_NAME n a "Suc m" pre "CHR ''='' # post" "length pre" items no_item]
  by (simp add: query_field_def read_at_def nth_append get_char_def found_name_def in_target_def end_text_def
      write_at_def seek_def terminator_def list_update_append)

lemma get_loop_value:
  assumes "query_field (n, v)" and "length items \<le> MAX_HTTP_GET_VARIABLE_COUNT"
  shows "get_loop a (length v + Suc m) \<lparr>gs_mem = pre @ v @ CHR ''&'' # post, gs_pos = length pre,
             gs_state = SEEKING_VALUE, gs_start = length pre, gs_items = items, gs_slot = slot\<rparr>
       = get_loop a m \<lparr>gs_mem = pre @ v @ NUL # post, gs_pos = length pre + length v + 1,
             gs_state = SEEKING_NAME, gs_start = length pre + length v + 1,
             gs_items = items @ [slot\<lparr>g_value := Some (a + length pre)\<rparr>], gs_slot = no_item\<rparr>"
  using assms get_loop_run [of SEEKING_VALUE v a "Suc m" pre "CHR ''&'' # post" "length pre" items slot]
  by (simp add: query_field_def read_at_def nth_append get_char_def found_value_def in_target_def end_text_def
      write_at_def seek_def terminator_def list_update_append next_item_def)

lemma get_run:
  assumes "kvs \<noteq> []" and "list_all query_field kvs" and "length items + length kvs \<le> MAX_HTTP_GET_VARIABLE_COUNT"
  shows "\<exists>g. attempt (get_loop a (length (query_text kvs))
        \<lparr>gs_mem = pre @ query_text kvs @ NUL # rest, gs_pos = length pre, gs_state = SEEKING_NAME,
         gs_start = length pre, gs_items = items, gs_slot = no_item\<rparr>) (get_final a) = Inr g
      \<and> gs_mem g = pre @ laid kvs @ rest \<and> gs_items g = items @ raw_items (a + length pre) kvs"
  using assms
proof (induction kvs arbitrary: pre items)
  case (Cons kv kvs)
  note IH = Cons.IH
  obtain n v where kv: "kv = (n, v)" by fastforce
  have room: "length items \<le> MAX_HTTP_GET_VARIABLE_COUNT" and field: "query_field (n, v)"
    using Cons.prems kv by auto
  let ?slot = "no_item\<lparr>g_name := Some (a + length pre), g_value := None\<rparr>"
  show ?case
  proof (cases kvs)
    case Nil
    have shape: "query_text [(n, v)] = n @ CHR ''='' # v" by (simp add: query_text_def)
    have "get_loop a (length v + 0) \<lparr>gs_mem = (pre @ n @ [NUL]) @ v @ NUL # rest, gs_pos = length (pre @ n @ [NUL]),
          gs_state = SEEKING_VALUE, gs_start = length (pre @ n @ [NUL]), gs_items = items, gs_slot = ?slot\<rparr>
        = Inr \<lparr>gs_mem = (pre @ n @ [NUL]) @ v @ NUL # rest, gs_pos = length (pre @ n @ [NUL]) + length v,
          gs_state = SEEKING_VALUE, gs_start = length (pre @ n @ [NUL]), gs_items = items, gs_slot = ?slot\<rparr>"
      using get_loop_run [of SEEKING_VALUE v a 0 "pre @ n @ [NUL]" "NUL # rest" "length (pre @ n @ [NUL])" items ?slot]
        field
      by (simp add: query_field_def)
    then show ?thesis
      using get_loop_name [OF field room, of a "length v" pre "v @ NUL # rest"] room
      by (simp del: get_loop.simps add: shape kv Nil get_final_def found_value_def in_target_def end_text_def write_at_def next_item_def
          list_update_append)
  next
    case (Cons kv' kvs')
    have shape: "query_text ((n, v) # kvs) = n @ CHR ''='' # v @ CHR ''&'' # query_text kvs"
      by (simp add: query_text_def Cons)
    let ?pre = "pre @ n @ NUL # v @ [NUL]" and ?items = "items @ [?slot\<lparr>g_value := Some (a + length (pre @ n @ [NUL]))\<rparr>]"
    have "get_loop a (length (query_text ((n, v) # kvs))) \<lparr>gs_mem = pre @ query_text ((n, v) # kvs) @ NUL # rest,
          gs_pos = length pre, gs_state = SEEKING_NAME, gs_start = length pre, gs_items = items, gs_slot = no_item\<rparr>
        = get_loop a (length (query_text kvs)) \<lparr>gs_mem = ?pre @ query_text kvs @ NUL # rest,
          gs_pos = length ?pre, gs_state = SEEKING_NAME, gs_start = length ?pre, gs_items = ?items, gs_slot = no_item\<rparr>"
      using get_loop_name [OF field room, of a "length v + Suc (length (query_text kvs))" pre
          "v @ CHR ''&'' # query_text kvs @ NUL # rest"]
        get_loop_value [OF field room, of a "length (query_text kvs)" "pre @ n @ [NUL]" "query_text kvs @ NUL # rest" ?slot]
      by (simp del: get_loop.simps add: shape add.assoc)
    moreover have "kvs \<noteq> []" "list_all query_field kvs" "length ?items + length kvs \<le> MAX_HTTP_GET_VARIABLE_COUNT"
      using Cons Cons.prems by auto
    ultimately show ?thesis using IH [of ?items ?pre] by (simp add: kv add.assoc)
  qed
qed simp

lemma query_field_NUL: "query_field (n, v) \<Longrightarrow> NUL \<notin> set n \<and> NUL \<notin> set v"
  by (auto simp: query_field_def terminator_def list_all_iff)

lemma measure_laid:
  "list_all query_field kvs \<Longrightarrow>
     measure_items a (pre @ laid kvs @ rest) (raw_items (a + length pre) kvs) = Inr (get_items (a + length pre) kvs)"
proof (induction kvs arbitrary: pre)
  case (Cons kv kvs)
  obtain n v where kv: "kv = (n, v)" by fastforce
  have nul: "NUL \<notin> set n" "NUL \<notin> set v" using Cons.prems kv query_field_NUL by auto
  have "measure_items a ((pre @ n @ NUL # v @ [NUL]) @ laid kvs @ rest)
      (raw_items (a + length (pre @ n @ NUL # v @ [NUL])) kvs)
    = Inr (get_items (a + length (pre @ n @ NUL # v @ [NUL])) kvs)"
    using Cons by (intro Cons.IH) simp
  moreover have "drop (Suc (length pre + length n)) (pre @ n @ NUL # v @ NUL # r) = v @ NUL # r"
    "drop (length pre) (pre @ r) = r" for r by simp_all
  ultimately show ?case
    using cstring_append_NUL [OF nul(1)] cstring_append_NUL [OF nul(2)]
    by (simp add: kv no_item_def add.assoc del: drop_append)
qed simp

text \<open>The text of a pointer and a length.\<close>

definition fetched :: "http_header \<Rightarrow> ptr \<times> nat \<Rightarrow> string option" where
  "fetched h pn = map_option (\<lambda>p. slice (headerBytes h) (p - the (headerRAW h)) (snd pn)) (fst pn)"

lemma find_laid:
  assumes "headerRAW h = Some base" and "headerBytes h = pre @ laid kvs @ rest" and "list_all query_field kvs"
  shows "case find (\<lambda>it. case g_name it of None \<Rightarrow> False | Some p \<Rightarrow> text_from h p = name) (get_items (base + length pre) kvs) of
      None \<Rightarrow> map_of kvs name = None
    | Some it \<Rightarrow> map_of kvs name \<noteq> None \<and> fetched h (g_value it, g_valueSize it) = map_of kvs name"
  using assms(2,3)
proof (induction kvs arbitrary: pre)
  case (Cons kv kvs)
  obtain n v where kv: "kv = (n, v)" by fastforce
  have nul: "NUL \<notin> set n" using Cons.prems kv query_field_NUL by auto
  have name: "text_from h (base + length pre) = n"
    using cstring_append_NUL [OF nul] assms(1) Cons.prems(1) by (simp add: text_from_def kv)
  have "fetched h (Some (base + length pre + length n + 1), length v) = Some v"
    using assms(1) Cons.prems(1) by (simp add: fetched_def kv slice_def)
  moreover have m: "map_of (kv # kvs) name = (if n = name then Some v else map_of kvs name)" by (simp add: kv)
  ultimately show ?case
    unfolding m using Cons.IH [of "pre @ n @ NUL # v @ [NUL]"] Cons.prems
    by (cases "n = name") (simp_all add: kv name add.assoc)
qed simp

lemma set_join_with: "set (join_with c xs) \<subseteq> insert c (\<Union> (set ` set xs))"
  by (induction c xs rule: join_with.induct) auto

lemma query_text_chars: "list_all query_field kvs \<Longrightarrow> c \<in> set (query_text kvs) \<Longrightarrow> \<not> terminator c"
  using set_join_with [of "CHR ''&''" "map (\<lambda>(n, v). n @ CHR ''='' # v) kvs"]
  by (fastforce simp: query_text_def query_field_def list_all_iff terminator_def)

lemma query_text_not_Nil: "kvs \<noteq> [] \<Longrightarrow> query_text kvs \<noteq> []"
  by (cases kvs rule: list.exhaust [case_names Nil Cons]; cases "tl kvs") (auto simp: query_text_def)

lemma get_loop_start:
  assumes "read_at (gs_mem g) (gs_pos g) = Inr c" and "\<not> terminator c" and "gs_state g = FOUND_NOTHING"
  shows "get_loop a (Suc m) g = get_loop a (Suc m) (g\<lparr>gs_state := SEEKING_NAME\<rparr>)"
  using assms by (simp add: get_char_def)

text \<open>What is parsed from a query in a header.\<close>

lemma finalizeGETData_query:
  assumes "headerRAW h = Some base" and "drop i (headerBytes h) = query_text kvs @ NUL # rest"
    and "GETrequest h = (Some (base + i), length (query_text kvs))"
    and "kvs \<noteq> []" and "list_all query_field kvs" and "length kvs \<le> MAX_HTTP_GET_VARIABLE_COUNT"
  shows "finalizeGETData h
    = Inr (h\<lparr>headerBytes := take i (headerBytes h) @ laid kvs @ rest, GETItem := get_items (base + i) kvs\<rparr>, True)"
proof -
  let ?q = "query_text kvs" and ?a = "base + i"
  let ?g = "\<lparr>gs_mem = ?q @ NUL # rest, gs_pos = 0, gs_state = FOUND_NOTHING, gs_start = 0, gs_items = [],
      gs_slot = no_item\<rparr>"
  have chars: "\<not> terminator c" if "c \<in> set ?q" for c using query_text_chars [OF assms(5) that] .
  then have "NUL \<notin> set ?q" by (auto simp: terminator_def)
  then have len: "strlen (?q @ NUL # rest) = length ?q" using cstring_append_NUL by simp
  obtain c q where q: "?q = c # q" using query_text_not_Nil [OF assms(4)] by (cases ?q) auto
  then have "get_loop ?a (length ?q) ?g = get_loop ?a (length ?q) (?g\<lparr>gs_state := SEEKING_NAME\<rparr>)"
    using get_loop_start [of ?g c ?a "length q"] chars [of c] by (simp add: read_at_def del: get_loop.simps)
  moreover obtain g where run: "attempt (get_loop ?a (length ?q) (?g\<lparr>gs_state := SEEKING_NAME\<rparr>)) (get_final ?a) = Inr g"
    and g: "gs_mem g = laid kvs @ rest" "gs_items g = raw_items ?a kvs"
    using get_run [OF assms(4,5), of "[]" ?a "[]" rest] assms(6) by auto
  moreover have "finalizeGenericGETField ?a (?q @ NUL # rest) (length ?q)
      = attempt (attempt (get_loop ?a (length ?q) ?g) (get_final ?a))
          (\<lambda>g. attempt (measure_items ?a (gs_mem g) (gs_items g)) (\<lambda>items. Inr (gs_mem g, items, True)))"
    using q unfolding finalizeGenericGETField_def attempt_attempt by simp
  ultimately have "finalizeGenericGETField ?a (?q @ NUL # rest) (length ?q)
      = attempt (measure_items ?a (gs_mem g) (gs_items g)) (\<lambda>items. Inr (gs_mem g, items, True))" by simp
  then have "finalizeGenericGETField ?a (?q @ NUL # rest) (length ?q) = Inr (laid kvs @ rest, get_items ?a kvs, True)"
    using measure_laid [OF assms(5), of ?a "[]" rest] by (simp add: g)
  then show ?thesis using assms(1-3) len by (simp add: finalizeGETData_def wipeGETData_def Let_def)
qed

lemma query_found:
  assumes "headerRAW h = Some base" and "i \<le> length (headerBytes h)" and "headerBytes h' = take i (headerBytes h) @ laid kvs @ rest"
    and "headerRAW h' = Some base" and "GETItem h' = get_items (base + i) kvs" and "list_all query_field kvs"
    and "length kvs \<le> MAX_HTTP_GET_VARIABLE_COUNT"
  shows "fetched h' (getPointerToGETItemValue h' name) = map_of kvs name"
proof -
  have "length (take i (headerBytes h)) = i" using assms(2) by simp
  from find_laid [OF assms(4,3,6), of name, unfolded this] assms(5,7)
  show ?thesis
    by (auto simp: getPointerToGETItemValue_def getGETItemFromName_def fetched_def split: option.splits)
qed

section \<open>Reading cookies\<close>

fun cookie_text :: "(string \<times> string) list \<Rightarrow> string" where
  "cookie_text [] = []"
| "cookie_text [(n, v)] = n @ CHR ''='' # v"
| "cookie_text ((n, v) # kv # kvs) = n @ CHR ''='' # v @ CHR '';'' # SPC # cookie_text (kv # kvs)"

definition cookie_field :: "string \<times> string \<Rightarrow> bool" where
  "cookie_field kv \<longleftrightarrow>
     fst kv \<noteq> [] \<and> list_all (\<lambda>c. \<not> terminator c \<and> c \<noteq> CHR '';'' \<and> c \<noteq> CHR ''='' \<and> c \<noteq> SPC) (fst kv)
     \<and> list_all (\<lambda>c. \<not> terminator c \<and> c \<noteq> CHR '';'') (snd kv)"

fun cookie_laid :: "(string \<times> string) list \<Rightarrow> string" where
  "cookie_laid [] = []"
| "cookie_laid [(n, v)] = n @ NUL # v"
| "cookie_laid ((n, v) # kv # kvs) = n @ NUL # v @ NUL # SPC # cookie_laid (kv # kvs)"

fun cookie_items :: "nat \<Rightarrow> (string \<times> string) list \<Rightarrow> get_item list" where
  "cookie_items p [] = []"
| "cookie_items p ((n, v) # kvs) =
     \<lparr>g_name = Some p, g_nameSize = length n, g_value = Some (p + length n + 1), g_valueSize = length v, g_realloc = False\<rparr>
     # cookie_items (p + length n + length v + 3) kvs"

lemma cookie_items_length [simp]: "length (cookie_items p kvs) = length kvs"
  by (induction p kvs rule: cookie_items.induct) auto

lemma cookie_loop_blank:
  assumes "p + 1 < e" and "mem ! p = SPC"
  shows "cookie_loop a e mem p items = cookie_loop a e mem (p + 1) items"
proof -
  have "scan_while (\<lambda>c. c = SPC \<or> c = CHR '';'') mem e p = scan_while (\<lambda>c. c = SPC \<or> c = CHR '';'') mem e (p + 1)"
    using assms by (subst scan_while.simps) simp
  then show ?thesis using assms(1) by (subst (1 2) cookie_loop.simps) simp
qed

text \<open>One field: up to the end of the line, or up to its semicolon.\<close>

lemma cookie_scans:
  assumes "cookie_field (n, v)" and "mem = pre @ n @ CHR ''='' # v @ post" and "length pre + length n + 1 + length v \<le> e"
    and "e \<le> length mem" and "post = [] \<or> e = length pre + length n + 1 + length v \<or> hd post = CHR '';''"
  shows "scan_while (\<lambda>c. c = SPC \<or> c = CHR '';'') mem e (length pre) = length pre
    \<and> scan_while (\<lambda>c. c \<noteq> CHR ''='' \<and> c \<noteq> CHR '';'' \<and> \<not> terminator c) mem e (length pre) = length pre + length n
    \<and> scan_while (\<lambda>c. c \<noteq> CHR '';'' \<and> \<not> terminator c) mem e (length pre + length n + 1)
      = length pre + length n + 1 + length v
    \<and> \<not> terminator (mem ! length pre)"
proof -
  obtain c n' where n: "n = c # n'" "c \<noteq> SPC" "c \<noteq> CHR '';''" "\<not> terminator c"
    using assms(1) by (cases n) (auto simp: cookie_field_def)
  have "mem ! length pre = c" by (simp add: assms(2) n(1))
  moreover from this have "scan_while (\<lambda>c. c = SPC \<or> c = CHR '';'') mem e (length pre) = length pre"
    using n assms(3) by (intro scan_while_at) auto
  moreover have "scan_while (\<lambda>c. c \<noteq> CHR ''='' \<and> c \<noteq> CHR '';'' \<and> \<not> terminator c) mem e (length pre) = length pre + length n"
    unfolding assms(2)
    by (rule scan_run_to) (use assms in \<open>auto simp: cookie_field_def list_all_iff\<close>)
  moreover have "scan_while (\<lambda>c. c \<noteq> CHR '';'' \<and> \<not> terminator c) mem e (length (pre @ n @ [CHR ''='']))
      = length (pre @ n @ [CHR ''='']) + length v"
  proof (cases "e = length pre + length n + 1 + length v")
    case True
    then have line: "drop (length (pre @ n @ [CHR ''=''])) (take e mem) = v" by (simp add: assms(2))
    have "takeWhile (\<lambda>c. c \<noteq> CHR '';'' \<and> \<not> terminator c) v = v"
      using assms(1) by (auto simp: cookie_field_def list_all_iff takeWhile_eq_all_conv)
    then have "length (takeWhile (\<lambda>c. c \<noteq> CHR '';'' \<and> \<not> terminator c) v) = length v" by (rule arg_cong)
    then show ?thesis
      using scan_while_takeWhile [of "length (pre @ n @ [CHR ''=''])" e mem] True assms(4) unfolding line by simp
  next
    case False
    then have "post \<noteq> []" using assms(2,3,4) by auto
    then obtain post' where "post = CHR '';'' # post'" using assms(5) False by (cases post) auto
    then have mem: "mem = (pre @ n @ [CHR ''='']) @ v @ CHR '';'' # post'" by (simp add: assms(2))
    show ?thesis unfolding mem
      by (rule scan_run_to) (use assms False mem in \<open>auto simp: cookie_field_def list_all_iff\<close>)
  qed
  ultimately show ?thesis using n(4) by simp
qed

lemma cookie_round:
  assumes "scan_while (\<lambda>c. c = SPC \<or> c = CHR '';'') mem e p = p
      \<and> scan_while (\<lambda>c. c \<noteq> CHR ''='' \<and> c \<noteq> CHR '';'' \<and> \<not> terminator c) mem e p = q
      \<and> scan_while (\<lambda>c. c \<noteq> CHR '';'' \<and> \<not> terminator c) mem e (q + 1) = r \<and> \<not> terminator (mem ! p)"
    and "p \<le> q" and "q < e" and "mem ! q = CHR ''=''" and "length items < MAX_HTTP_GET_VARIABLE_COUNT"
  shows "cookie_loop a e mem p items =
    (let item = \<lparr>g_name = Some (a + p), g_nameSize = q - p, g_value = Some (a + (q + 1)), g_valueSize = r - (q + 1),
           g_realloc = False\<rparr>
     in if r < e \<and> \<not> terminator (mem ! r) then cookie_loop a e (mem[q := NUL, r := NUL]) (r + 1) (items @ [item])
        else if r < e then (mem[q := NUL, r := NUL], items @ [item]) else (mem[q := NUL], items @ [item]))"
  using assms by (subst cookie_loop.simps) (simp add: cookie_stop_def Let_def no_item_def)

lemma cookie_run:
  assumes "kvs \<noteq> []" and "list_all cookie_field kvs" and "length items + length kvs \<le> MAX_HTTP_GET_VARIABLE_COUNT"
  shows "cookie_loop a (length pre + length (cookie_text kvs)) (pre @ cookie_text kvs @ post) (length pre) items
       = (pre @ cookie_laid kvs @ post, items @ cookie_items (a + length pre) kvs)"
  using assms
proof (induction kvs arbitrary: pre items)
  case (Cons kv kvs)
  note IH = Cons.IH
  obtain n v where kv: "kv = (n, v)" by fastforce
  have field: "cookie_field (n, v)" and room: "length items < MAX_HTTP_GET_VARIABLE_COUNT" using Cons.prems kv by auto
  have nz: "0 < length n" using field by (simp add: cookie_field_def)
  show ?case
  proof (cases kvs)
    case Nil
    let ?mem = "pre @ n @ CHR ''='' # v @ post" and ?e = "length pre + length n + 1 + length v"
    have "scan_while (\<lambda>c. c = SPC \<or> c = CHR '';'') ?mem ?e (length pre) = length pre
      \<and> scan_while (\<lambda>c. c \<noteq> CHR ''='' \<and> c \<noteq> CHR '';'' \<and> \<not> terminator c) ?mem ?e (length pre) = length pre + length n
      \<and> scan_while (\<lambda>c. c \<noteq> CHR '';'' \<and> \<not> terminator c) ?mem ?e (length pre + length n + 1) = ?e
      \<and> \<not> terminator (?mem ! length pre)"
      by (rule cookie_scans [OF field refl]) simp_all
    from cookie_round [OF this, of items a] show ?thesis
      using room by (simp add: kv Nil Let_def list_update_append nth_append add.assoc)
  next
    case (Cons kv' kvs')
    then have shape: "cookie_text ((n, v) # kvs) = n @ CHR ''='' # v @ CHR '';'' # SPC # cookie_text kvs"
      "cookie_laid ((n, v) # kvs) = n @ NUL # v @ NUL # SPC # cookie_laid kvs" by simp_all
    have ne: "cookie_text kvs \<noteq> []"
      using Cons by (cases kv'; cases kvs') auto
    let ?rest = "CHR '';'' # SPC # cookie_text kvs @ post"
    let ?e = "length pre + length (cookie_text ((n, v) # kvs))" and ?pre = "pre @ n @ NUL # v @ [NUL, SPC]"
    let ?it = "no_item\<lparr>g_name := Some (a + length pre), g_nameSize := length n,
        g_value := Some (a + (length pre + length n + 1)), g_valueSize := length v\<rparr>"
    let ?mem = "pre @ n @ CHR ''='' # v @ ?rest"
    have "scan_while (\<lambda>c. c = SPC \<or> c = CHR '';'') ?mem ?e (length pre) = length pre
      \<and> scan_while (\<lambda>c. c \<noteq> CHR ''='' \<and> c \<noteq> CHR '';'' \<and> \<not> terminator c) ?mem ?e (length pre) = length pre + length n
      \<and> scan_while (\<lambda>c. c \<noteq> CHR '';'' \<and> \<not> terminator c) ?mem ?e (length pre + length n + 1)
        = length pre + length n + 1 + length v
      \<and> \<not> terminator (?mem ! length pre)"
      by (rule cookie_scans [OF field refl]) (simp_all add: shape)
    from cookie_round [OF this, of items a]
    have "cookie_loop a ?e ?mem (length pre) items
        = cookie_loop a ?e (pre @ n @ NUL # v @ NUL # SPC # cookie_text kvs @ post) (length pre + length n + 1 + length v + 1)
            (items @ [?it])"
      using room by (simp add: shape Let_def list_update_append nth_append terminator_def no_item_def add.assoc)
    also have "\<dots> = cookie_loop a (length ?pre + length (cookie_text kvs)) (?pre @ cookie_text kvs @ post) (length ?pre)
            (items @ [?it])"
      using ne by (subst cookie_loop_blank) (simp_all add: shape nth_append add.assoc)
    also have "\<dots> = (?pre @ cookie_laid kvs @ post, (items @ [?it]) @ cookie_items (a + length ?pre) kvs)"
      by (rule IH) (use Cons Cons.prems in auto)
    finally show ?thesis by (simp add: kv shape no_item_def add.assoc numeral_3_eq_3)
  qed
qed simp

lemma find_cookie:
  assumes "headerRAW h = Some base" and "headerBytes h = pre @ cookie_laid kvs @ post"
  shows "case find (\<lambda>it. case g_name it of
               None \<Rightarrow> False
             | Some p \<Rightarrow> g_nameSize it = length name \<and> slice (headerBytes h) (p - the (headerRAW h)) (length name) = name)
           (map (\<lambda>it. it\<lparr>g_realloc := True\<rparr>) (cookie_items (base + length pre) kvs)) of
      None \<Rightarrow> map_of kvs name = None
    | Some it \<Rightarrow> map_of kvs name \<noteq> None \<and> fetched h (g_value it, g_valueSize it) = map_of kvs name"
  using assms(2)
proof (induction kvs arbitrary: pre)
  case (Cons kv kvs)
  obtain n v where kv: "kv = (n, v)" by fastforce
  obtain r where bytes: "headerBytes h = pre @ n @ NUL # v @ r"
    and next_pre: "kvs \<noteq> [] \<Longrightarrow> r = NUL # SPC # cookie_laid kvs @ post"
    using Cons.prems kv by (cases kvs) auto
  have name: "length n = length name \<and> slice (headerBytes h) (base + length pre - base) (length name) = name \<longleftrightarrow> n = name"
    by (auto simp: bytes slice_def)
  have val: "fetched h (Some (base + length pre + length n + 1), length v) = Some v"
    using assms(1) by (simp add: fetched_def bytes slice_def)
  have m: "map_of (kv # kvs) name = (if n = name then Some v else map_of kvs name)" by (simp add: kv)
  show ?case
  proof (cases "n = name")
    case True
    then show ?thesis using name val assms(1) unfolding m by (simp add: kv)
  next
    case False
    have rest: "case find (\<lambda>it. case g_name it of
               None \<Rightarrow> False
             | Some p \<Rightarrow> g_nameSize it = length name \<and> slice (headerBytes h) (p - the (headerRAW h)) (length name) = name)
           (map (\<lambda>it. it\<lparr>g_realloc := True\<rparr>) (cookie_items (base + length pre + length n + length v + 3) kvs)) of
        None \<Rightarrow> map_of kvs name = None
      | Some it \<Rightarrow> map_of kvs name \<noteq> None \<and> fetched h (g_value it, g_valueSize it) = map_of kvs name"
    proof (cases "kvs = []")
      case False
      then show ?thesis
        using Cons.IH [of "pre @ n @ NUL # v @ [NUL, SPC]"] bytes next_pre by (simp add: add.assoc numeral_3_eq_3)
    qed simp
    then show ?thesis using name False assms(1) unfolding m by (auto simp: kv)
  qed
qed simp

text \<open>Names that are looked up in a text: what the two tables have in common.\<close>

locale field_table =
  fixes ok :: "(string \<times> string) list \<Rightarrow> bool"
    and text_of :: "(string \<times> string) list \<Rightarrow> string"
    and fetch :: "string \<Rightarrow> string \<Rightarrow> string option"
  assumes fetch_text: "ok kvs \<Longrightarrow> fetch (text_of kvs) name = map_of kvs name"
begin

lemma fetch_first: "ok ((n, v) # kvs) \<Longrightarrow> fetch (text_of ((n, v) # kvs)) n = Some v"
  by (simp add: fetch_text)

lemma fetch_absent: "ok kvs \<Longrightarrow> name \<notin> fst ` set kvs \<Longrightarrow> fetch (text_of kvs) name = None"
  by (simp add: fetch_text map_of_eq_None_iff)

lemma same_text: "ok kvs \<Longrightarrow> ok kvs' \<Longrightarrow> text_of kvs = text_of kvs' \<Longrightarrow> map_of kvs = map_of kvs'"
  by (metis ext fetch_text)

end

definition fetch_query :: "string \<Rightarrow> string \<Rightarrow> string option" where
  "fetch_query query name =
     (case finalizeGETData (clearHeader\<lparr>headerRAW := Some 1, headerBytes := query @ [NUL],
             GETrequest := (Some 1, length query)\<rparr>) of
        Inl _ \<Rightarrow> None
      | Inr (h, _) \<Rightarrow> fetched h (getPointerToGETItemValue h name))"

definition fetch_cookie :: "string \<Rightarrow> string \<Rightarrow> string option" where
  "fetch_cookie line name =
     (case finalizeCOOKIEData (clearHeader\<lparr>headerRAW := Some 1, headerBytes := line @ [LF]\<rparr>) (Some 1) (length line) of
        (h, _) \<Rightarrow> fetched h (getPointerToCOOKIEItemValue h name))"

lemma query_parsed:
  assumes "headerRAW h = Some base" and "drop i (headerBytes h) = query_text kvs @ NUL # rest"
    and "GETrequest h = (Some (base + i), length (query_text kvs))"
    and "kvs \<noteq> []" and "list_all query_field kvs" and "length kvs \<le> MAX_HTTP_GET_VARIABLE_COUNT"
  shows "\<exists>h'. finalizeGETData h = Inr (h', True)
    \<and> (\<forall>name. fetched h' (getPointerToGETItemValue h' name) = map_of kvs name)"
proof -
  have "i \<le> length (headerBytes h)"
  proof (rule ccontr)
    assume "\<not> ?thesis"
    then show False using assms(2) by simp
  qed
  then show ?thesis
    using finalizeGETData_query [OF assms] query_found [OF assms(1)] assms(1,5,6) by auto
qed

lemma cookies_parsed:
  assumes "headerRAW h = Some base" and "drop i (headerBytes h) = cookie_text kvs @ post" and "i \<le> length (headerBytes h)"
    and "kvs \<noteq> []" and "list_all cookie_field kvs" and "length kvs \<le> MAX_HTTP_GET_VARIABLE_COUNT"
  shows "\<exists>h'. finalizeCOOKIEData h (Some (base + i)) (length (cookie_text kvs)) = (h', True)
    \<and> (\<forall>name. fetched h' (getPointerToCOOKIEItemValue h' name) = map_of kvs name)
    \<and> drop (i + length (cookie_text kvs)) (headerBytes h') = post"
proof -
  define h' where "h' = h\<lparr>headerBytes := take i (headerBytes h) @ cookie_laid kvs @ post,
      COOKIEItem := map (\<lambda>it. it\<lparr>g_realloc := True\<rparr>) (cookie_items (base + i) kvs)\<rparr>"
  have "cookie_text kvs \<noteq> []" using assms(4) by (cases kvs rule: cookie_text.cases) auto
  then have run: "finalizeCOOKIEData h (Some (base + i)) (length (cookie_text kvs)) = (h', True)"
    using cookie_run [OF assms(4,5), of "[]" "base + i" "[]" post] assms(1,2,6)
    by (simp add: finalizeCOOKIEData_def h'_def Let_def)
  have "length (cookie_laid kvs) = length (cookie_text kvs)" by (induction kvs rule: cookie_text.induct) auto
  then have keep: "drop (i + length (cookie_text kvs)) (headerBytes h') = post" using assms(3) by (simp add: h'_def)
  have "fetched h' (getPointerToCOOKIEItemValue h' name) = map_of kvs name" for name
  proof -
    have bytes: "headerRAW h' = Some base" "headerBytes h' = take i (headerBytes h) @ cookie_laid kvs @ post"
      using assms(1) by (simp_all add: h'_def)
    have len: "length (take i (headerBytes h)) = i" using assms(3) by simp
    have items: "take MAX_HTTP_GET_VARIABLE_COUNT (COOKIEItem h') = map (\<lambda>it. it\<lparr>g_realloc := True\<rparr>) (cookie_items (base + i) kvs)"
      using assms(6) by (simp add: h'_def)
    show ?thesis
      using find_cookie [OF bytes, of name] unfolding len getPointerToCOOKIEItemValue_def getCOOKIEItemFromName_def items
      by (auto simp: fetched_def split: option.splits)
  qed
  then show ?thesis using run keep by blast
qed

interpretation query: field_table "\<lambda>kvs. kvs \<noteq> [] \<and> list_all query_field kvs \<and> length kvs \<le> MAX_HTTP_GET_VARIABLE_COUNT"
  query_text fetch_query
proof
  fix kvs name
  assume "kvs \<noteq> [] \<and> list_all query_field kvs \<and> length kvs \<le> MAX_HTTP_GET_VARIABLE_COUNT"
  then show "fetch_query (query_text kvs) name = map_of kvs name"
    using query_parsed [of "clearHeader\<lparr>headerRAW := Some 1, headerBytes := query_text kvs @ [NUL],
        GETrequest := (Some 1, length (query_text kvs))\<rparr>" 1 0 kvs "[]"]
    by (auto simp: fetch_query_def)
qed

interpretation cookies: field_table "\<lambda>kvs. kvs \<noteq> [] \<and> list_all cookie_field kvs \<and> length kvs \<le> MAX_HTTP_GET_VARIABLE_COUNT"
  cookie_text fetch_cookie
proof
  fix kvs name
  assume "kvs \<noteq> [] \<and> list_all cookie_field kvs \<and> length kvs \<le> MAX_HTTP_GET_VARIABLE_COUNT"
  then show "fetch_cookie (cookie_text kvs) name = map_of kvs name"
    using cookies_parsed [of "clearHeader\<lparr>headerRAW := Some 1, headerBytes := cookie_text kvs @ [LF]\<rparr>" 1 0 kvs "[LF]"]
    by (auto simp: fetch_cookie_def)
qed

section \<open>Properties\<close>

text \<open>
  C38: The query \<open>n1=v1&n2=v2...\<close> of a request is parsed without a fault, and what is then looked
  up under a name is the value of the first field with that name, or nothing when there is none.
\<close>

theorem query_lookup:
  assumes "headerRAW h = Some base" and "drop i (headerBytes h) = query_text kvs @ NUL # rest"
    and "GETrequest h = (Some (base + i), length (query_text kvs))"
    and "kvs \<noteq> []" and "list_all query_field kvs" and "length kvs \<le> MAX_HTTP_GET_VARIABLE_COUNT"
  shows "\<exists>h'. finalizeGETData h = Inr (h', True)
    \<and> (\<forall>name. fetched h' (getPointerToGETItemValue h' name) = map_of kvs name)"
  by (rule query_parsed [OF assms])

theorem query_lookup_witness:
  "\<exists>h'. finalizeGETData (clearHeader\<lparr>headerRAW := Some 50, headerBytes := ''id=7&q=a=b'' @ [NUL], GETrequest := (Some 50, 10)\<rparr>)
     = Inr (h', True) \<and> fetched h' (getPointerToGETItemValue h' ''q'') = Some ''a=b''"
proof -
  let ?kvs = "[(''id'', ''7''), (''q'', ''a=b'')]"
  let ?h = "clearHeader\<lparr>headerRAW := Some 50, headerBytes := ''id=7&q=a=b'' @ [NUL], GETrequest := (Some 50, 10)\<rparr>"
  have t: "query_text ?kvs = ''id=7&q=a=b''" by (simp add: query_text_def)
  have "list_all query_field ?kvs" by (simp add: query_field_def terminator_def)
  then have "\<exists>h'. finalizeGETData ?h = Inr (h', True)
      \<and> (\<forall>name. fetched h' (getPointerToGETItemValue h' name) = map_of ?kvs name)"
    by (intro query_lookup [of ?h 50 0 ?kvs "[]"]) (simp_all add: t MAX_HTTP_GET_VARIABLE_COUNT_def)
  then obtain h' where "finalizeGETData ?h = Inr (h', True)"
    "fetched h' (getPointerToGETItemValue h' ''q'') = map_of ?kvs ''q''" by blast
  then show ?thesis by auto
qed

lemma next_item_fields [simp]: "gs_items (next_item g) = gs_items g @ [gs_slot g]"
  by (simp add: next_item_def)

lemma end_text_items: "end_text g = Inr g' \<Longrightarrow> gs_items g' = gs_items g"
  by (auto simp: end_text_def write_at_def split: if_splits)

lemma found_name_items: "found_name a g = Inr g' \<Longrightarrow> gs_items g' = gs_items g"
  by (auto simp: found_name_def split: if_splits)

lemma found_value_items: "found_value a g = Inr g' \<Longrightarrow> gs_items g' = gs_items g"
  by (auto simp: found_value_def split: if_splits)

lemmas found_items = found_name_items found_value_items

lemma attempt_eq_Inr: "attempt x f = Inr y \<longleftrightarrow> (\<exists>z. x = Inr z \<and> f z = Inr y)"
  by (cases x) auto

lemma get_char_items: "get_char a c g = Inr g' \<Longrightarrow> prefix (gs_items g) (gs_items g')"
  by (auto simp: get_char_def attempt_eq_Inr Let_def seek_def split: if_splits dest!: end_text_items found_items)

lemma get_end_items: "get_end a g = Inr g' \<Longrightarrow> prefix (gs_items g) (gs_items g')"
  by (auto simp: get_end_def attempt_eq_Inr split: get_state.splits dest!: end_text_items found_items)

lemma get_loop_items: "get_loop a n g = Inr g' \<Longrightarrow> prefix (gs_items g) (gs_items g')"
proof (induction a n g rule: get_loop.induct)
  case (2 a n g)
  from "2.prems" obtain c where c: "read_at (gs_mem g) (gs_pos g) = Inr c" by (auto split: sum.splits)
  show ?case
  proof (cases "terminator c")
    case True
    then show ?thesis using "2.prems" c get_end_items by simp
  next
    case False
    then obtain g2 where g2: "get_char a c g = Inr g2" "get_loop a n (g2\<lparr>gs_pos := gs_pos g2 + 1\<rparr>) = Inr g'"
      using "2.prems" c by (auto simp: attempt_eq_Inr)
    then show ?thesis using "2.IH" [OF c False] get_char_items [OF g2(1)] by (force intro: prefix_order.trans)
  qed
qed simp

lemma get_final_items: "get_final a g = Inr g' \<Longrightarrow> prefix (gs_items g) (gs_items g')"
  by (auto simp: get_final_def attempt_eq_Inr split: if_splits dest!: end_text_items found_items)

text \<open>
  A name without a value in front of a \<open>&\<close> is registered with a NULL value, whose length is
  then taken: every query that starts like that faults.
\<close>

lemma query_flag_faults:
  assumes "headerRAW h = Some base" and "drop i (headerBytes h) = (n @ CHR ''&'' # m) @ NUL # rest"
    and "GETrequest h = (Some (base + i), length (n @ CHR ''&'' # m))" and "NUL \<notin> set m"
    and "list_all (\<lambda>c. \<not> terminator c \<and> c \<noteq> CHR ''&'' \<and> c \<noteq> CHR ''='') n"
  shows "\<exists>fault. finalizeGETData h = Inl fault"
proof -
  let ?a = "base + i" and ?q = "n @ CHR ''&'' # m"
  let ?g = "\<lparr>gs_mem = ?q @ NUL # rest, gs_pos = 0, gs_state = FOUND_NOTHING, gs_start = 0, gs_items = [],
      gs_slot = no_item\<rparr>"
  have "NUL \<notin> set ?q" using assms(4,5) by (auto simp: list_all_iff terminator_def)
  then have len: "strlen (?q @ NUL # rest) = length ?q" using cstring_append_NUL [of ?q] by simp
  obtain c q where q: "?q @ NUL # rest = c # q" "\<not> terminator c"
    using assms(5) by (cases n) (auto simp: terminator_def)
  then have "get_loop ?a (length ?q) ?g = get_loop ?a (length ?q) (?g\<lparr>gs_state := SEEKING_NAME\<rparr>)"
    using get_loop_start [of ?g c ?a "length n + length m"] by (simp add: read_at_def del: get_loop.simps)
  also have "\<dots> = get_loop ?a (Suc (length m)) (?g\<lparr>gs_state := SEEKING_NAME, gs_pos := length n\<rparr>)"
    using get_loop_run [of SEEKING_NAME n ?a "Suc (length m)" "[]" "CHR ''&'' # m @ NUL # rest" 0 "[]" no_item] assms(5)
    by (simp del: get_loop.simps)
  also have "\<dots> = get_loop ?a (length m) \<lparr>gs_mem = n @ NUL # m @ NUL # rest, gs_pos = length n + 1,
      gs_state = SEEKING_NAME, gs_start = length n + 1,
      gs_items = [no_item\<lparr>g_name := Some ?a, g_value := None\<rparr>], gs_slot = no_item\<rparr>"
    by (simp add: read_at_def terminator_def get_char_def found_name_def in_target_def end_text_def next_item_def
        write_at_def seek_def list_update_append)
  finally have loop: "get_loop ?a (length ?q) ?g = \<dots>" .
  have "\<exists>it items. gs_items g' = it # items \<and> g_value it = None"
    if "attempt (get_loop ?a (length ?q) ?g) (get_final ?a) = Inr g'" for g'
  proof -
    from that obtain g1 where "get_loop ?a (length ?q) ?g = Inr g1" "get_final ?a g1 = Inr g'"
      by (auto simp: attempt_eq_Inr)
    then have "prefix [no_item\<lparr>g_name := Some ?a, g_value := None\<rparr>] (gs_items g')"
      using get_loop_items [of ?a "length m"] get_final_items unfolding loop
      by (metis (no_types, lifting) get_scan.select_convs(5) prefix_order.trans)
    then show ?thesis by (auto simp: prefix_def)
  qed
  then have "\<exists>fault. attempt (attempt (get_loop ?a (length ?q) ?g) (get_final ?a))
      (\<lambda>g. attempt (measure_items ?a (gs_mem g) (gs_items g)) (\<lambda>items. Inr (gs_mem g, items, True))) = Inl fault"
    by (cases "attempt (get_loop ?a (length ?q) ?g) (get_final ?a)") (auto split: option.splits)
  then have "\<exists>fault. finalizeGenericGETField ?a (?q @ NUL # rest) (length ?q) = Inl fault"
    unfolding finalizeGenericGETField_def attempt_attempt by simp
  then show ?thesis using assms(1-3) len by (auto simp: finalizeGETData_def wipeGETData_def Let_def)
qed

lemma query_flag_faults_witness:
  "\<exists>fault. finalizeGETData (clearHeader\<lparr>headerRAW := Some 50, headerBytes := ''a&b=1'' @ [NUL], GETrequest := (Some 50, 5)\<rparr>)
     = Inl fault"
  by (rule query_flag_faults [where n = "''a''" and m = "''b=1''" and i = 0 and rest = "[]"])
    (simp_all add: terminator_def)

text \<open>
  C39: The cookies \<open>n1=v1; n2=v2...\<close> of a header line are found under their names, the first one
  of a name that occurs twice, and the bytes behind the line are not touched.
\<close>

theorem cookie_lookup:
  assumes "headerRAW h = Some base" and "drop i (headerBytes h) = cookie_text kvs @ post" and "i \<le> length (headerBytes h)"
    and "kvs \<noteq> []" and "list_all cookie_field kvs" and "length kvs \<le> MAX_HTTP_GET_VARIABLE_COUNT"
  shows "\<exists>h'. finalizeCOOKIEData h (Some (base + i)) (length (cookie_text kvs)) = (h', True)
    \<and> (\<forall>name. fetched h' (getPointerToCOOKIEItemValue h' name) = map_of kvs name)
    \<and> drop (i + length (cookie_text kvs)) (headerBytes h') = post"
  by (rule cookies_parsed [OF assms])

theorem cookie_lookup_witness:
  "\<exists>h'. finalizeCOOKIEData (clearHeader\<lparr>headerRAW := Some 50, headerBytes := ''a=1; b=2'' @ [CR, LF, NUL]\<rparr>) (Some 50) 8
     = (h', True) \<and> fetched h' (getPointerToCOOKIEItemValue h' ''b'') = Some ''2''
     \<and> drop 8 (headerBytes h') = [CR, LF, NUL]"
proof -
  let ?kvs = "[(''a'', ''1''), (''b'', ''2'')]" and ?post = "[CR, LF, NUL]"
  let ?h = "clearHeader\<lparr>headerRAW := Some 50, headerBytes := ''a=1; b=2'' @ ?post\<rparr>"
  have "list_all cookie_field ?kvs" by (simp add: cookie_field_def terminator_def)
  then have "\<exists>h'. finalizeCOOKIEData ?h (Some (50 + 0)) (length (cookie_text ?kvs)) = (h', True)
      \<and> (\<forall>name. fetched h' (getPointerToCOOKIEItemValue h' name) = map_of ?kvs name)
      \<and> drop (0 + length (cookie_text ?kvs)) (headerBytes h') = ?post"
    by (intro cookie_lookup) (simp_all add: MAX_HTTP_GET_VARIABLE_COUNT_def)
  then obtain h' where h': "finalizeCOOKIEData ?h (Some (50 + 0)) (length (cookie_text ?kvs)) = (h', True)"
    "fetched h' (getPointerToCOOKIEItemValue h' ''b'') = map_of ?kvs ''b''"
    "drop (0 + length (cookie_text ?kvs)) (headerBytes h') = ?post"
    by blast
  have "length (cookie_text ?kvs) = 8" by simp
  note h' [unfolded this]
  then show ?thesis by (intro exI [of _ h']) auto
qed

end
