(* ===== verification/PostLines.thy ===== *)
theory PostLines
  imports FormFields StringScanners TimeProvider
begin

text \<open>
  The header lines of a POST request and the boundaries of its body
  (\<open>header_analysis/post_header_analysis.c\<close> and the registration of parts in
  \<open>header_analysis/post_data.c\<close>).  A line is an offset in the receive buffer and a length; the
  searches with \<open>strstr\<close> run to the next NUL of the buffer, over the ends of lines.
\<close>

section \<open>Searching\<close>

fun find_sub :: "string \<Rightarrow> string \<Rightarrow> nat option" where
  "find_sub pat s =
     (if prefix pat s then Some 0 else (case s of [] \<Rightarrow> None | _ # r \<Rightarrow> map_option Suc (find_sub pat r)))"

declare find_sub.simps [simp del]

definition strstr :: "string \<Rightarrow> string \<Rightarrow> nat option" where
  "strstr mem pat = find_sub pat (cstring mem)"

definition foundNewLineBeforePosition :: "string \<Rightarrow> nat \<Rightarrow> nat \<Rightarrow> bool" where
  "foundNewLineBeforePosition bytes request position \<longleftrightarrow> list_ex terminator (between bytes request position)"

text \<open>The length up to the next line end, which becomes a NUL; 0 when there is none.\<close>

definition countStringUntilNewLine :: "string \<Rightarrow> nat \<Rightarrow> nat \<Rightarrow> (string \<times> nat) checked" where
  "countStringUntilNewLine bytes request requestLength =
     (let k = length (takeWhile (\<lambda>c. \<not> terminator c) (take requestLength (drop request bytes)))
      in if k = requestLength then Inr (bytes, 0)
         else map_sum id (\<lambda>b. (b, k)) (write_at bytes (request + k) NUL))"

section \<open>Content-Length\<close>

definition is_blank :: "char \<Rightarrow> bool" where
  "is_blank c \<longleftrightarrow> c = SPC \<or> c = TAB"

text \<open>Decimal digits into an \<open>unsigned long\<close>; None for another character or an overflow.\<close>

fun ulong_digits :: "nat \<Rightarrow> string \<Rightarrow> nat option" where
  "ulong_digits result [] = Some result"
| "ulong_digits result (c # cs) =
     (if \<not> is_digit c then None
      else if result > (2 ^ 64 - 1 - digit_val c) div 10 then None
      else ulong_digits (result * 10 + digit_val c) cs)"

definition ParseContentLengthValue :: "string \<Rightarrow> nat \<Rightarrow> nat option" where
  "ParseContentLengthValue value_ptr len =
     (let i = scan_while is_blank value_ptr len 0
      in if i \<ge> len then None
         else
           (let j = scan_while (\<lambda>c. \<not> is_blank c) value_ptr len i
            in case ulong_digits 0 (between value_ptr i j) of
                 None \<Rightarrow> None
               | Some result \<Rightarrow>
                   if scan_while is_blank value_ptr len j \<noteq> len \<or> j = i then None else Some result))"

section \<open>The parts of a body\<close>

definition MAX_HTTP_POST_BOUNDARY_COUNT :: nat where "MAX_HTTP_POST_BOUNDARY_COUNT = 32"

definition wipePOSTData :: "http_header \<Rightarrow> http_header" where
  "wipePOSTData h = h\<lparr>POSTItem := []\<rparr>"

definition createPOSTData :: "http_header \<Rightarrow> http_header" where
  "createPOSTData h = wipePOSTData h"

definition skip_char :: "string \<Rightarrow> char \<Rightarrow> nat \<Rightarrow> nat checked" where
  "skip_char bytes c p = map_sum id (\<lambda>d. if d = c then p + 1 else p) (read_at bytes p)"

definition new_part :: "nat \<Rightarrow> post_item" where
  "new_part a =
     \<lparr>pointerStart = Some a, pointerEnd = Some a, p_contentSize = 0, p_name = None, p_nameSize = 0, p_value = None,
      p_valueSize = 0, p_filename = None, p_filenameSize = 0, p_contentDisposition = None,
      p_contentDispositionSize = 0, p_contentType = None, p_contentTypeSize = 0, p_realloc = True\<rparr>"

definition addPOSTDataBoundary :: "http_header \<Rightarrow> nat \<Rightarrow> (http_header \<times> bool) checked" where
  "addPOSTDataBoundary h p =
     (if length (POSTItem h) \<ge> MAX_HTTP_POST_BOUNDARY_COUNT then Inr (h, False)
      else
        attempt (skip_char (headerBytes h) CR p) (\<lambda>p.
          attempt (skip_char (headerBytes h) LF p) (\<lambda>p.
            attempt (skip_char (headerBytes h) CR p) (\<lambda>p.
              attempt (skip_char (headerBytes h) LF p) (\<lambda>p.
                Inr (h\<lparr>POSTItem := POSTItem h @ [new_part (the (headerRAW h) + p)]\<rparr>, True))))))"

definition POSTLineIsBody :: "http_header \<Rightarrow> nat \<Rightarrow> bool" where
  "POSTLineIsBody h offset \<longleftrightarrow>
     headerRAW h \<noteq> None \<and> headerRAWHeadSize h \<noteq> 0 \<and> offset \<ge> headerRAWHeadSize h + 1"

section \<open>A line\<close>

definition content_type_line :: "http_header \<Rightarrow> nat \<Rightarrow> nat \<Rightarrow> (http_header \<times> bool) checked" where
  "content_type_line h offset request_length =
     (let base = the (headerRAW h); payload_start = 13;
          h = h\<lparr>h_contentType := (Some (base + offset + payload_start), request_length - payload_start)\<rparr>
      in case strstr (drop (offset + payload_start) (headerBytes h)) ''boundary='' of
           None \<Rightarrow> Inr (h, False)
         | Some k \<Rightarrow>
             (let b = offset + payload_start + k + 9
              in attempt (countStringUntilNewLine (headerBytes h) b request_length) (\<lambda>(bytes, n).
                   if n > 64 then Inr (h\<lparr>headerBytes := bytes, h_boundary := (None, 0)\<rparr>, False)
                   else
                     attempt (write_at bytes (b + n) NUL) (\<lambda>bytes.
                       Inr (createPOSTData (h\<lparr>headerBytes := bytes, h_boundary := (Some (base + b), n)\<rparr>), True)))))"

definition content_length_line :: "http_header \<Rightarrow> nat \<Rightarrow> nat \<Rightarrow> http_header \<times> bool" where
  "content_length_line h offset request_length =
     (case ParseContentLengthValue (drop (offset + 15) (headerBytes h)) (request_length - 15) of
        None \<Rightarrow> (h\<lparr>contentLengthInvalid := True, ContentLength := 0\<rparr>, False)
      | Some n \<Rightarrow>
          if hasContentLength h then (h\<lparr>contentLengthInvalid := True, ContentLength := 0\<rparr>, False)
          else (h\<lparr>ContentLength := n, hasContentLength := True\<rparr>, n \<noteq> 0))"

definition boundary_line :: "http_header \<Rightarrow> nat \<Rightarrow> (http_header \<times> bool) checked" where
  "boundary_line h offset =
     (case fst (h_boundary h) of
        None \<Rightarrow> Inr (h, False)
      | Some b \<Rightarrow>
          (case strstr (drop offset (headerBytes h)) (cstring (drop (b - the (headerRAW h)) (headerBytes h))) of
             None \<Rightarrow> Inr (h, False)
           | Some k \<Rightarrow>
               if foundNewLineBeforePosition (headerBytes h) offset (offset + k) then Inr (h, False)
               else addPOSTDataBoundary h (offset + k + snd (h_boundary h))))"

definition AnalyzePOSTLineRequest :: "http_header \<Rightarrow> nat \<Rightarrow> nat \<Rightarrow> (http_header \<times> bool) checked" where
  "AnalyzePOSTLineRequest h offset request_length =
     (case scanFor_postHeader (Some (drop offset (headerBytes h))) request_length of
        POSTHEADER_CONTENT_TYPE \<Rightarrow>
          if POSTLineIsBody h offset then Inr (h, False) else content_type_line h offset request_length
      | POSTHEADER_CONTENT_DISPOSITION \<Rightarrow>
          if POSTLineIsBody h offset then Inr (h, False)
          else Inr (h\<lparr>h_contentDisposition := (Some (the (headerRAW h) + offset + 20), request_length - 20)\<rparr>, True)
      | POSTHEADER_CONTENT_LENGTH \<Rightarrow>
          if POSTLineIsBody h offset then Inr (h, False) else Inr (content_length_line h offset request_length)
      | _ \<Rightarrow> boundary_line h offset)"

text \<open>The lines of a body that has been decoded.\<close>

function body_lines :: "http_header \<Rightarrow> nat \<Rightarrow> nat \<Rightarrow> nat \<Rightarrow> nat \<Rightarrow> http_header checked" where
  "body_lines h body bodyLength lineStart i =
     (if i < bodyLength then
        (case read_at (headerBytes h) (body + i) of
           Inl f \<Rightarrow> Inl f
         | Inr c \<Rightarrow>
             if c = CR \<or> c = LF then
               attempt (if i > lineStart then AnalyzePOSTLineRequest h (body + lineStart) (i - lineStart) else Inr (h, False))
                 (\<lambda>(h, _).
                   let next = i + 1;
                       next = (if next < bodyLength \<and> headerBytes h ! (body + next) \<in> {CR, LF}
                                  \<and> headerBytes h ! (body + next) \<noteq> headerBytes h ! (body + i) then next + 1 else next)
                   in body_lines h body bodyLength next next)
             else body_lines h body bodyLength lineStart (i + 1))
      else if lineStart < bodyLength
      then map_sum id fst (AnalyzePOSTLineRequest h (body + lineStart) (bodyLength - lineStart))
      else Inr h)"
  by pat_completeness auto
termination
  by (relation "measure (\<lambda>(h, body, bodyLength, lineStart, i). bodyLength - i)") auto

declare body_lines.simps [simp del]

definition AnalyzePOSTBodyLines :: "http_header \<Rightarrow> nat \<Rightarrow> nat \<Rightarrow> http_header checked" where
  "AnalyzePOSTBodyLines h body bodyLength = body_lines h body bodyLength 0 0"

section \<open>Properties\<close>

lemma over_limit:
  fixes M :: nat
  assumes "d < 10" and "10 \<le> M"
  shows "result > (M - 1 - d) div 10 \<longleftrightarrow> \<not> 10 * result + d < M"
proof -
  have "(M - 1 - d) div 10 < result \<longleftrightarrow> M - 1 - d < result * 10" by (rule div_less_iff_less_mult) simp
  then show ?thesis using assms by linarith
qed

lemma ulong_digits_iff:
  "result < 2 ^ 64 \<Longrightarrow> ulong_digits result ds = Some n
     \<longleftrightarrow> list_all is_digit ds \<and> foldl (\<lambda>v c. 10 * v + digit_val c) result ds = n \<and> n < 2 ^ 64"
proof (induction ds arbitrary: result)
  case (Cons c ds)
  have digit: "is_digit c \<Longrightarrow> digit_val c < 10" by (auto simp: is_digit_def digit_val_def)
  have grows: "r \<le> foldl (\<lambda>v c. 10 * v + digit_val c) r ds" for r
  proof (induction ds arbitrary: r)
    case (Cons d ds)
    from Cons.IH [of "10 * r + digit_val d"] show ?case by simp
  qed simp
  show ?case
  proof (cases "is_digit c")
    case True
    let ?r = "10 * result + digit_val c"
    have cut: "result > (2 ^ 64 - 1 - digit_val c) div 10 \<longleftrightarrow> \<not> ?r < 2 ^ 64"
      using digit [OF True] by (intro over_limit) auto
    show ?thesis
    proof (cases "?r < 2 ^ 64")
      case small: True
      then show ?thesis using True cut Cons.IH [of ?r] by (simp add: mult.commute)
    next
      case False
      then show ?thesis using True cut grows [of ?r] by (auto simp: not_less)
    qed
  next
    case False
    then show ?thesis by simp
  qed
qed auto

lemma trim_right_append:
  "trim_right P (x @ y) = (if list_all P y then trim_right P x else x @ trim_right P y)"
proof -
  have "list_all P y \<longleftrightarrow> (\<forall>c \<in> set (rev y). P c)" by (simp add: list_all_iff)
  then show ?thesis by (simp add: trim_right_def dropWhile_append)
qed

text \<open>A word between blanks.\<close>

lemma trim_right_word:
  assumes "x \<noteq> []" and "list_all (\<lambda>c. \<not> P c) x" and "y = [] \<or> P (hd y)" and "\<And>c. P c \<Longrightarrow> \<not> D c"
  shows "list_all D (trim_right P (x @ y)) \<longleftrightarrow> list_all P y \<and> list_all D x"
    and "list_all P y \<Longrightarrow> trim_right P (x @ y) = x"
proof -
  have x: "trim_right P x = x"
    using assms(1,2) by (cases x rule: rev_cases) (simp_all add: trim_right_def)
  then show "list_all P y \<Longrightarrow> trim_right P (x @ y) = x" by (simp add: trim_right_append)
  show "list_all D (trim_right P (x @ y)) \<longleftrightarrow> list_all P y \<and> list_all D x"
  proof (cases "list_all P y")
    case True
    then show ?thesis using x by (simp add: trim_right_append)
  next
    case False
    then obtain c y' where y: "y = c # y'" "P c" using assms(3) by (cases y) auto
    then have "\<not> list_all P y'" using False by simp
    then have "trim_right P y = c # trim_right P y'" using trim_right_append [of P "[c]" y'] y(1) by simp
    then show ?thesis using False y assms(4) by (simp add: trim_right_append)
  qed
qed

text \<open>
  A \<open>Content-Length\<close> is accepted exactly when, without the blanks around it, it is a
  non-empty string of decimal digits whose value fits 64 bits, and then the value is read.
\<close>

lemma content_length_accepted:
  assumes "len \<le> length v"
  shows "ParseContentLengthValue v len = Some n
    \<longleftrightarrow> (let ds = trim_right is_blank (dropWhile is_blank (take len v))
         in ds \<noteq> [] \<and> list_all is_digit ds \<and> dec_val ds = n \<and> n < 2 ^ 64)"
proof -
  define t where "t = dropWhile is_blank (take len v)"
  define x y where "x = takeWhile (\<lambda>c. \<not> is_blank c) t" and "y = dropWhile (\<lambda>c. \<not> is_blank c) t"
  define i where "i = scan_while is_blank v len 0"
  define j where "j = scan_while (\<lambda>c. \<not> is_blank c) v len i"
  have xy: "t = x @ y" by (simp add: x_def y_def)
  have i: "i = length (takeWhile is_blank (take len v))" "i \<le> len"
    using scan_while_takeWhile [of 0 len v is_blank] scan_while_le [of 0 len is_blank v] assms by (simp_all add: i_def)
  then have it: "drop i (take len v) = t" by (simp add: t_def dropWhile_eq_drop)
  have j: "j = i + length x" "j \<le> len"
    using scan_while_takeWhile [of i len v] scan_while_le [of i len _ v] i(2) assms by (simp_all add: j_def x_def it)
  have jt: "drop j (take len v) = y"
  proof -
    have "drop j (take len v) = drop (length x) (drop i (take len v))" by (simp add: j(1) add.commute)
    then show ?thesis by (simp only: it xy) simp
  qed
  have run: "between v i j = x"
  proof -
    have "between v i j = take (j - i) (drop i (take len v))" using j i(2) by (simp add: between_def drop_take)
    then show ?thesis by (simp only: it xy j(1)) simp
  qed
  have "scan_while is_blank v len j = j + length (takeWhile is_blank y)"
    using scan_while_takeWhile [of j len v is_blank] j(2) assms jt by simp
  moreover have "len = j + length y" using arg_cong [OF jt, of length] j(2) assms by simp
  ultimately have k: "scan_while is_blank v len j = len \<longleftrightarrow> list_all is_blank y"
    by (metis add_left_cancel append_Nil2 length_append list.pred_set takeWhile_dropWhile_id takeWhile_eq_all_conv length_0_conv self_append_conv)
  have none: "i \<ge> len \<longleftrightarrow> t = []" using arg_cong [OF it, of length] assms by auto
  have dv: "foldl (\<lambda>v c. 10 * v + digit_val c) 0 x = dec_val x" by (simp add: dec_val_def)
  show ?thesis
  proof (cases "t = []")
    case True
    then show ?thesis using none by (simp add: ParseContentLengthValue_def i_def [symmetric] t_def [symmetric] trim_right_def)
  next
    case False
    have "x \<noteq> []"
      using False hd_dropWhile [of is_blank "take len v"] by (cases t) (auto simp: x_def t_def)
    moreover have "list_all (\<lambda>c. \<not> is_blank c) x" by (auto simp: x_def list_all_iff dest: set_takeWhileD)
    moreover have "y = [] \<or> is_blank (hd y)"
      using hd_dropWhile [of "\<lambda>c. \<not> is_blank c" t] by (auto simp: y_def)
    moreover have "is_blank c \<Longrightarrow> \<not> is_digit c" for c by (auto simp: is_blank_def is_digit_def)
    ultimately have "list_all is_digit (trim_right is_blank (x @ y)) \<longleftrightarrow> list_all is_blank y \<and> list_all is_digit x"
      and "list_all is_blank y \<Longrightarrow> trim_right is_blank (x @ y) = x"
      using trim_right_word [of x is_blank y is_digit] by blast+
    then have w: "list_all is_digit (trim_right is_blank t) \<longleftrightarrow> list_all is_blank y \<and> list_all is_digit x"
      "list_all is_blank y \<Longrightarrow> trim_right is_blank t = x"
      by (simp_all only: xy)
    have "ParseContentLengthValue v len = Some n \<longleftrightarrow> ulong_digits 0 x = Some n \<and> list_all is_blank y"
      using False none \<open>x \<noteq> []\<close> k j(1) run
      by (auto simp: ParseContentLengthValue_def Let_def i_def [symmetric] j_def [symmetric] split: option.splits)
    also have "... \<longleftrightarrow> list_all is_digit x \<and> dec_val x = n \<and> n < 2 ^ 64 \<and> list_all is_blank y"
      using ulong_digits_iff [of 0 x n] dv by simp
    also have "... \<longleftrightarrow> (let ds = trim_right is_blank t in ds \<noteq> [] \<and> list_all is_digit ds \<and> dec_val ds = n \<and> n < 2 ^ 64)"
      using w \<open>x \<noteq> []\<close> by (auto simp: Let_def)
    finally show ?thesis by (simp only: t_def)
  qed
qed

lemma content_length_accepted_witness:
  "ParseContentLengthValue '' 0018446744073709551615  ,'' 25 = Some 18446744073709551615"
  using content_length_accepted [of 25 "'' 0018446744073709551615  ,''" 18446744073709551615]
  by (simp add: Let_def trim_right_def is_blank_def is_digit_def dec_val_def digit_val_def)

end
