(* ===== verification/FirstLine.thy ===== *)
theory FirstLine
  imports HttpHeader PathTools StringScanners
begin

text \<open>
  The request line (\<open>ProcessFirstHTTPLine\<close> of
  \<open>src/AmmServerlib/header_analysis/http_header_analysis.c\<close>): the method, the version and
  its default for keeping the connection, the target in origin or absolute form, the query,
  and the file the target stands for.  A line is given by its offset in the receive buffer
  and its length; the bytes behind it are in reach of the routines that work in place.
\<close>

section \<open>The code\<close>

definition MAX_QUERY :: nat where "MAX_QUERY = 2048"
definition MAX_RESOURCE :: nat where "MAX_RESOURCE = 2048"
definition MAX_FILE_PATH :: nat where "MAX_FILE_PATH = 1024"

text \<open>The method of a line and the first position looked at behind it; an unknown one leaves \<open>requestType\<close>.\<close>

definition line_method :: "request_type \<Rightarrow> firstLines \<Rightarrow> request_type \<times> nat" where
  "line_method present kind =
     (case kind of
        FIRSTLINES_GET \<Rightarrow> (GET, 3)
      | FIRSTLINES_HEAD \<Rightarrow> (HEAD, 4)
      | FIRSTLINES_POST \<Rightarrow> (POST, 4)
      | FIRSTLINES_PUT \<Rightarrow> (PUT, 3)
      | FIRSTLINES_DELETE \<Rightarrow> (DELETE, 6)
      | FIRSTLINES_TRACE \<Rightarrow> (TRACE, 5)
      | FIRSTLINES_OPTIONS \<Rightarrow> (OPTIONS, 7)
      | FIRSTLINES_CONNECT \<Rightarrow> (CONNECT, 7)
      | FIRSTLINES_PATCH \<Rightarrow> (PATCH, 5)
      | FIRSTLINES_EMPTY \<Rightarrow> (present, 3))"

text \<open>The version behind the target that ends at \<open>e\<close>, None when there is no recognisable one.\<close>

definition line_version :: "string \<Rightarrow> nat \<Rightarrow> nat \<Rightarrow> (nat \<times> nat) option" where
  "line_version request request_length e =
     (let versionStart = scan_while (\<lambda>c. c = SPC) request request_length (e + 1);
          versionAvailable = (if versionStart < request_length then request_length - versionStart else 0);
          digits = drop (versionStart + 5) request
      in if versionAvailable \<ge> 8 \<and> strncaseeq (drop versionStart request) ''HTTP/'' 5
            \<and> is_digit (digits ! 0) \<and> digits ! 1 = CHR ''.'' \<and> is_digit (digits ! 2)
         then Some (digit_val (digits ! 0), digit_val (digits ! 2)) else None)"

definition default_keepalive :: "http_settings \<Rightarrow> (nat \<times> nat) option \<Rightarrow> bool" where
  "default_keepalive s version \<longleftrightarrow>
     KEEPALIVE_ENABLED s
     \<and> (case version of None \<Rightarrow> True | Some (major, minor) \<Rightarrow> major > 1 \<or> major = 1 \<and> minor \<ge> 1)"

text \<open>
  The target in origin form.  \<open>r\<close> is the memory from the target on; the result is how far the
  pointer moves, the memory from the old pointer on, and whether the form was absolute.
\<close>

definition origin_form :: "string \<Rightarrow> nat \<times> string \<times> bool" where
  "origin_form r =
     (if strncaseeq r ''http://'' 7 \<or> strncaseeq r ''https://'' 8 then
        (let schemeLength = (if strncaseeq r ''https://'' 8 then 8 else 7);
             split = schemeLength
               + length (takeWhile (\<lambda>c. c \<notin> {NUL, CHR ''/'', CHR ''?'', CHR ''#''}) (drop schemeLength r))
         in if c_at r split = CHR ''/'' then (split, r, True)
            else if c_at r split \<in> {CHR ''?'', CHR ''#''} then
              (let rest = cstring (drop split r)
               in (0, CHR ''/'' # rest @ NUL # drop (length rest + 2) r, True))
            else (0, CHR ''/'' # NUL # drop 2 r, True))
      else (0, r, False))"

text \<open>The buffer of \<open>verified_local_resource\<close> after \<open>strncpy\<close> and \<open>strncat\<close>, and its C string at the end.\<close>

definition local_path :: "string \<Rightarrow> string \<Rightarrow> string" where
  "local_path root stripped =
     (let path = take MAX_FILE_PATH root @ take (MAX_FILE_PATH - length root - 1) stripped
      in cstring (fst (ReducePathSlashes_Inplace (path @ replicate (MAX_FILE_PATH + 1 - length path) NUL))))"

text \<open>\<open>a\<close> is the address of the target in the receive buffer and \<open>mem\<close> the memory from there on.\<close>

definition process_target ::
    "http_settings \<Rightarrow> http_header \<Rightarrow> nat \<Rightarrow> string \<Rightarrow> (http_header \<times> string \<times> bool) checked" where
  "process_target s h a mem =
     (if strlen mem \<ge> MAX_RESOURCE - 2 then Inr (h\<lparr>requestType := BAD\<rparr>, mem, False)
      else
        (case StripGETRequestQueryAndFragment (Some mem) MAX_QUERY of
           (None, _) \<Rightarrow> Inl Null_deref
         | (Some mem, hasQuery) \<Rightarrow>
             (let query = (if hasQuery then (Some (a + strlen mem + 1), strlen (drop (strlen mem + 1) mem)) else (None, 0));
                  h = h\<lparr>GETrequest := query\<rparr>
              in case StripHTMLCharacters_Inplace mem True of
                   Inl f \<Rightarrow> Inl f
                 | Inr mem \<Rightarrow>
                     if \<not> FilenameStripperOk (Some mem) then Inr (h\<lparr>requestType := BAD\<rparr>, mem, False)
                     else
                       (let root = webserver_root s; rootLength = length root
                        in if rootLength \<ge> MAX_FILE_PATH \<or> strlen mem \<ge> MAX_FILE_PATH - rootLength
                           then Inr (h\<lparr>requestType := BAD\<rparr>, mem, False)
                           else Inr (h\<lparr>h_resource := take MAX_RESOURCE (cstring mem),
                                       verified_local_resource := local_path root (cstring mem)\<rparr>, mem, True)))))"

definition ProcessFirstHTTPLine ::
    "http_settings \<Rightarrow> http_header \<Rightarrow> nat \<Rightarrow> nat \<Rightarrow> (http_header \<times> bool) checked" where
  "ProcessFirstHTTPLine s h offset request_length =
     (if request_length < 3 then Inr (h, False)
      else
        (let request = drop offset (headerBytes h);
             (meth, n) = line_method (requestType h) (scanFor_firstLines (Some request) request_length);
             h = h\<lparr>requestType := meth\<rparr>
         in if meth \<notin> {GET, HEAD, POST} then Inr (h, False)
            else
              (let b = scan_while (\<lambda>c. c = SPC) request request_length n
               in if b \<ge> request_length then Inr (h, False)
                  else
                    (let e = scan_while (\<lambda>c. c \<noteq> SPC) request request_length b
                     in if e \<ge> request_length then Inr (h, False)
                        else
                          (let request = request[e := NUL];
                               version = line_version request request_length e;
                               (moved, mem, absolute) = origin_form (drop b request);
                               h = h\<lparr>httpVersion := (case version of None \<Rightarrow> (0, 9) | Some v \<Rightarrow> v),
                                     keepalive := default_keepalive s version,
                                     requestTargetWasAbsolute := requestTargetWasAbsolute h \<or> absolute\<rparr>;
                               start = offset + b + moved
                           in case process_target s h (the (headerRAW h) + start) (drop moved mem) of
                                Inl f \<Rightarrow> Inl f
                              | Inr (h, mem', ok) \<Rightarrow>
                                  Inr (h\<lparr>headerBytes := take offset (headerBytes h) @ take b request @ take moved mem
                                          @ mem'\<rparr>, ok))))))"

section \<open>Strings that end inside their memory\<close>

lemma strlen_lt: "strlen mem < length mem \<longleftrightarrow> NUL \<in> set mem"
proof -
  have "cstring mem = mem \<longleftrightarrow> NUL \<notin> set mem" by (auto simp: cstring_def takeWhile_eq_all_conv)
  moreover have "cstring mem = mem \<longleftrightarrow> strlen mem = length mem"
    using cstring_eq_take [of mem] by (metis take_all_iff order_refl)
  ultimately show ?thesis using strlen_le [of mem] by linarith
qed

lemma NUL_update: "NUL \<in> set r \<Longrightarrow> NUL \<in> set (r[k := NUL])"
  by (metis list_update_beyond not_le set_update_memI)

lemma StripGET_ends:
  assumes "StripGETRequestQueryAndFragment (Some r) q = (Some r', b)" and "NUL \<in> set r"
  shows "NUL \<in> set r' \<and> length r' = length r"
  using assms by (auto simp: StripGETRequestQueryAndFragment_def Let_def NUL_update split: if_splits prod.splits)

lemma StripHTML_ends:
  assumes "StripHTMLCharacters_Inplace mem True = Inr mem'" and "NUL \<in> set mem"
  shows "NUL \<in> set mem' \<and> length mem' = length mem"
proof (cases "2 < strlen mem")
  case True
  let ?off = "strlen mem - length (html_decode True (cstring mem))"
  have len: "strlen mem < length mem" using assms(2) by (simp add: strlen_lt)
  have "length mem' = length mem \<and> mem' ! (strlen mem - ?off) = NUL"
    using StripHTML_spec [OF True len refl, of True] assms(1) by (auto split: if_splits)
  then show ?thesis using len by (metis diff_le_self nth_mem order_le_less_trans)
next
  case False
  have "NUL \<in> set (mute m i) \<and> length (mute m i) = length m" if nul: "NUL \<in> set m" for m i
  proof -
    obtain k where k: "k < length m" "m ! k = NUL" using nul unfolding in_set_conv_nth by blast
    have "mute m i ! k = NUL" using k by (cases "i = k") (simp_all add: mute_def)
    then show ?thesis using k nth_mem [of k "mute m i"] by (simp add: mute_def split: if_splits)
  qed
  then show ?thesis using assms False by (auto simp: StripHTMLCharacters_Inplace_def Let_def split: if_splits)
qed

section \<open>Paths\<close>

lemma squeeze_prefix: "prefix (squeeze xs) (squeeze (xs @ ys))"
proof (induction xs rule: squeeze.induct)
  case (2 c s)
  show ?case
  proof (cases "c = SLASH \<and> dropWhile (\<lambda>c. c = SLASH) s = []")
    case True
    then show ?thesis by (simp del: dropWhile_eq_Nil_conv)
  next
    case False
    then have "dropWhile (\<lambda>c. c = SLASH) (s @ ys) = dropWhile (\<lambda>c. c = SLASH) s @ ys" if "c = SLASH"
      using that by (metis dropWhile_append1 dropWhile_eq_Nil_conv)
    then show ?thesis using "2.IH" by (auto split: if_splits)
  qed
qed simp

lemma squeeze_dots: "sublist ''..'' (squeeze s) \<Longrightarrow> sublist ''..'' s"
proof (induction s rule: squeeze.induct)
  case (2 c s)
  let ?r = "if c = SLASH then dropWhile (\<lambda>c. c = SLASH) s else s"
  have "sublist ''..'' (dropWhile (\<lambda>c. c = SLASH) s) \<Longrightarrow> sublist ''..'' s"
    unfolding sublist_def by (metis append.assoc takeWhile_dropWhile_id)
  then have sub: "sublist ''..'' ?r \<Longrightarrow> sublist ''..'' (c # s)" by (auto simp: sublist_Cons_right split: if_splits)
  from "2.prems" consider "prefix ''..'' (c # squeeze ?r)" | "sublist ''..'' (squeeze ?r)"
    by (auto simp: sublist_Cons_right)
  then show ?case
  proof cases
    case 1
    then obtain q where c: "c = CHR ''.''" and q: "squeeze s = CHR ''.'' # q"
      by (auto simp: prefix_def)
    then obtain q' where "s = CHR ''.'' # q'" using squeeze_first by blast
    then show ?thesis using c by (simp add: sublist_Cons_right)
  next
    case 2
    then show ?thesis using "2.IH" sub by simp
  qed
qed simp

lemma sublist_dots_append:
  assumes "sublist ''..'' (r @ s)" and "r \<noteq> [] \<longrightarrow> last r \<noteq> CHR ''.''"
  shows "sublist ''..'' r \<or> sublist ''..'' s"
proof -
  obtain j where j: "0 < j" "j < length (r @ s)" "(r @ s) ! j = CHR ''.''" "(r @ s) ! (j - 1) = CHR ''.''"
    using assms(1) unfolding sublist_dots by blast
  consider "j < length r" | "j = length r" | "length r < j" by linarith
  then show ?thesis
  proof cases
    case 1
    then have "r ! j = CHR ''.''" "r ! (j - 1) = CHR ''.''" using j by (simp_all add: nth_append split: if_splits)
    then show ?thesis using 1 j(1) sublist_dots by blast
  next
    case 2
    then show ?thesis using j assms(2) by (auto simp: nth_append last_conv_nth)
  next
    case 3
    then have "s ! (j - length r) = CHR ''.''" "s ! (j - length r - 1) = CHR ''.''"
      using j by (simp_all add: nth_append diff_commute split: if_splits)
    moreover have "0 < j - length r" "j - length r < length s" using 3 j(2) by auto
    ultimately show ?thesis using sublist_dots by blast
  qed
qed

lemma dots_component: "''..'' \<in> set (split_on SLASH s) \<Longrightarrow> sublist ''..'' s"
proof (induction "length s" arbitrary: s rule: less_induct)
  case less
  show ?case
  proof (cases rule: split_on_cases [of SLASH s])
    case 1
    then show ?thesis using less.prems by simp
  next
    case (2 a r)
    then show ?thesis
      using less.hyps [of r] less.prems by (auto simp: sublist_append sublist_Cons_right)
  qed
qed

lemma local_path_squeeze:
  assumes "NUL \<notin> set root" and "NUL \<notin> set t" and "length t < MAX_FILE_PATH - length root"
  shows "local_path root t = squeeze (root @ t)"
proof -
  let ?k = "MAX_FILE_PATH + 1 - (length root + length t)"
  have "take MAX_FILE_PATH root = root" "take (MAX_FILE_PATH - length root - 1) t = t" using assms(3) by simp_all
  moreover have pad: "replicate ?k NUL = NUL # replicate (?k - 1) NUL"
    using assms(3) by (cases ?k) auto
  ultimately have p: "local_path root t = cstring (fst (ReducePathSlashes_Inplace (root @ t @ NUL # replicate (?k - 1) NUL)))"
    by (simp add: local_path_def Let_def)
  have c: "cstring (root @ t @ NUL # x) = root @ t" for x
    using cstring_append_NUL [of "root @ t"] assms(1,2) by simp
  show ?thesis unfolding p using ReducePathSlashes_spec [of "root @ t @ NUL # replicate (?k - 1) NUL"] by (simp add: c)
qed

lemma process_target_ok:
  assumes "process_target s h a mem = Inr (h', mem', True)" and "NUL \<in> set mem" and "NUL \<notin> set (webserver_root s)"
  shows "safe_name (h_resource h') \<and> h_resource h' = cstring mem' \<and> length mem' = length mem
    \<and> verified_local_resource h' = squeeze (webserver_root s @ h_resource h')
    \<and> length (webserver_root s @ h_resource h') < MAX_FILE_PATH \<and> headerBytes h' = headerBytes h"
proof -
  from assms(1) obtain m1 q m2 where m1: "StripGETRequestQueryAndFragment (Some mem) MAX_QUERY = (Some m1, q)"
    and m2: "StripHTMLCharacters_Inplace m1 True = Inr mem'" and ok: "FilenameStripperOk (Some mem')"
    and fits: "strlen mem' < MAX_FILE_PATH - length (webserver_root s)"
    and res: "h_resource h' = take MAX_RESOURCE (cstring mem')"
    and loc: "verified_local_resource h' = local_path (webserver_root s) (cstring mem')"
    and bytes: "headerBytes h' = headerBytes h"
    by (auto simp: process_target_def Let_def split: if_splits prod.splits option.splits sum.splits)
  have e1: "NUL \<in> set m1 \<and> length m1 = length mem" using StripGET_ends [OF m1 assms(2)] .
  have e2: "NUL \<in> set mem' \<and> length mem' = length m1" using StripHTML_ends [OF m2] e1 by blast
  have "take MAX_RESOURCE (cstring mem') = cstring mem'" using fits by (simp add: MAX_RESOURCE_def MAX_FILE_PATH_def)
  moreover have "safe_name (cstring mem')" using FilenameStripper_iff [of mem'] e2 ok strlen_lt [of mem'] by blast
  moreover have "local_path (webserver_root s) (cstring mem') = squeeze (webserver_root s @ cstring mem')"
    using fits by (intro local_path_squeeze assms(3)) simp_all
  ultimately show ?thesis using res loc e1 e2 fits bytes by simp
qed

section \<open>Targets\<close>

lemma scheme_prefix:
  assumes "strncaseeq r t n" and "n = length t" and "NUL \<notin> set t"
  shows "n \<le> length r \<and> NUL \<notin> set (take n r)"
proof -
  have "length t \<le> length r" and m: "map tolower (take (length t) r) = map tolower t"
    using assms strncaseeq_iff by blast+
  have "NUL \<notin> tolower ` set t" using assms(3) by (metis imageE tolower_NUL)
  then have "NUL \<notin> tolower ` set (take (length t) r)" using arg_cong [OF m, of set] by simp
  moreover have "tolower NUL = NUL" by simp
  ultimately have "NUL \<notin> set (take (length t) r)" by (metis imageI)
  then show ?thesis using \<open>length t \<le> length r\<close> assms(2) by blast
qed

text \<open>An absolute target: \<open>k\<close> is where the authority ends.\<close>

lemma origin_form_absolute:
  assumes "strncaseeq r ''http://'' 7 \<or> strncaseeq r ''https://'' 8"
  obtains k where "7 \<le> k" and "k \<le> length r" and "NUL \<notin> set (take k r)"
    and "origin_form r =
      (if c_at r k = CHR ''/'' then (k, r, True)
       else if c_at r k \<in> {CHR ''?'', CHR ''#''}
       then (0, CHR ''/'' # cstring (drop k r) @ NUL # drop (strlen (drop k r) + 2) r, True)
       else (0, CHR ''/'' # NUL # drop 2 r, True))"
proof -
  define n where "n = (if strncaseeq r ''https://'' 8 then 8 else 7 :: nat)"
  define run where "run = takeWhile (\<lambda>c. c \<notin> {NUL, CHR ''/'', CHR ''?'', CHR ''#''}) (drop n r)"
  have "strncaseeq r ''http://'' 7 \<Longrightarrow> 7 \<le> length r \<and> NUL \<notin> set (take 7 r)"
    by (erule scheme_prefix) simp_all
  moreover have "strncaseeq r ''https://'' 8 \<Longrightarrow> 8 \<le> length r \<and> NUL \<notin> set (take 8 r)"
    by (erule scheme_prefix) simp_all
  ultimately have n: "7 \<le> n" "n \<le> length r" "NUL \<notin> set (take n r)" using assms by (auto simp: n_def)
  have "length run \<le> length (drop n r)" unfolding run_def by (rule length_takeWhile_le)
  then have split: "n + length run \<le> length r" using n(2) by simp
  have "take (n + length run) r = take n r @ run"
    unfolding take_add run_def by (simp only: takeWhile_eq_take [symmetric])
  moreover have "NUL \<notin> set run" unfolding run_def by (auto dest: set_takeWhileD)
  ultimately have "NUL \<notin> set (take (n + length run) r)" using n(3) by simp
  moreover have "origin_form r =
      (if c_at r (n + length run) = CHR ''/'' then (n + length run, r, True)
       else if c_at r (n + length run) \<in> {CHR ''?'', CHR ''#''}
       then (0, CHR ''/'' # cstring (drop (n + length run) r) @ NUL
           # drop (strlen (drop (n + length run) r) + 2) r, True)
       else (0, CHR ''/'' # NUL # drop 2 r, True))"
    using assms by (simp only: origin_form_def Let_def n_def [symmetric] run_def [symmetric] if_True)
  ultimately show ?thesis using that [of "n + length run"] n(1) split by simp
qed

lemma origin_form_ends:
  assumes "origin_form r = (moved, mem, absolute)" and "NUL \<in> set r"
  shows "NUL \<in> set (drop moved mem) \<and> length mem = length r \<and> moved \<le> length r"
proof (cases "strncaseeq r ''http://'' 7 \<or> strncaseeq r ''https://'' 8")
  case False
  then show ?thesis using assms by (simp add: origin_form_def)
next
  case True
  then obtain k where k: "7 \<le> k" "k \<le> length r" "NUL \<notin> set (take k r)"
    and form: "origin_form r =
      (if c_at r k = CHR ''/'' then (k, r, True)
       else if c_at r k \<in> {CHR ''?'', CHR ''#''}
       then (0, CHR ''/'' # cstring (drop k r) @ NUL # drop (strlen (drop k r) + 2) r, True)
       else (0, CHR ''/'' # NUL # drop 2 r, True))"
    by (rule origin_form_absolute)
  have "NUL \<in> set (drop k r)" using k(3) assms(2) by (metis Un_iff append_take_drop_id set_append)
  moreover have "strlen (drop k r) \<le> length r - k" using strlen_le [of "drop k r"] by simp
  ultimately show ?thesis using assms(1) form k by (auto split: if_splits)
qed

text \<open>What a line that is accepted comes to.\<close>

lemma first_line_accepted:
  assumes "ProcessFirstHTTPLine s h offset n = Inr (h', True)"
    and request: "request = drop offset (headerBytes h)"
    and b: "b = scan_while (\<lambda>c. c = SPC) request n
      (snd (line_method (requestType h) (scanFor_firstLines (Some request) n)))"
    and e: "e = scan_while (\<lambda>c. c \<noteq> SPC) request n b"
  obtains g moved mem absolute h2 mem' where "b < n" and "e < n"
    and "origin_form (drop b (request[e := NUL])) = (moved, mem, absolute)"
    and "process_target s g (the (headerRAW h) + (offset + b + moved)) (drop moved mem) = Inr (h2, mem', True)"
    and "headerBytes g = headerBytes h"
    and "h' = h2\<lparr>headerBytes := take offset (headerBytes h2) @ take b (request[e := NUL]) @ take moved mem @ mem'\<rparr>"
proof -
  obtain meth k where lm: "line_method (requestType h) (scanFor_firstLines (Some request) n) = (meth, k)"
    by fastforce
  obtain moved mem absolute where o: "origin_form (drop b (request[e := NUL])) = (moved, mem, absolute)"
    using prod_cases3 by blast
  have k: "scan_while (\<lambda>c. c = SPC) request n k = b" using b lm by simp
  note run = assms(1) [unfolded ProcessFirstHTTPLine_def Let_def request [symmetric] lm prod.case k e [symmetric] o]
  have bn: "b < n" and en: "e < n" using run by (auto split: if_splits)
  define g where "g = h\<lparr>requestType := meth,
      httpVersion := (case line_version (request[e := NUL]) n e of None \<Rightarrow> (0, 9) | Some v \<Rightarrow> v),
      keepalive := default_keepalive s (line_version (request[e := NUL]) n e),
      requestTargetWasAbsolute := requestTargetWasAbsolute h \<or> absolute\<rparr>"
  obtain h2 mem' where t: "process_target s g (the (headerRAW h) + (offset + b + moved)) (drop moved mem) = Inr (h2, mem', True)"
    and h': "h' = h2\<lparr>headerBytes := take offset (headerBytes h2) @ take b (request[e := NUL]) @ take moved mem @ mem'\<rparr>"
    using run bn en by (auto simp: g_def split: if_splits sum.splits prod.splits)
  show thesis by (rule that [OF bn en o t _ h']) (simp add: g_def)
qed

section \<open>Properties\<close>


text \<open>The request \<open>GET /a%20b?x=1 HTTP/1.1\<close>, as it arrives.\<close>

definition sample_request :: string where
  "sample_request = ''GET /a%20b?x=1 HTTP/1.1'' @ [CR, LF, CR, LF, NUL]"

definition sample_header :: http_header where
  "sample_header = clearHeader\<lparr>headerRAW := Some 1000, headerBytes := sample_request\<rparr>"

lemma sample_accepted: "\<exists>h'. ProcessFirstHTTPLine (initial_settings ''www/'') sample_header 0 23 = Inr (h', True)"
proof -
  define target where "target = ''/a%20b?x=1'' @ NUL # ''HTTP/1.1'' @ [CR, LF, CR, LF, NUL]"
  define result where "result = ''/a b'' @ [NUL, CHR ''x'', NUL] @ drop 7 target"
  have bytes: "drop 0 (headerBytes sample_header) = sample_request" by (simp add: sample_header_def)
  have scanned: "scanFor_firstLines (Some sample_request) 23 = FIRSTLINES_GET" by code_simp
  have scans: "scan_while (\<lambda>c. c = SPC) sample_request 23 3 = 4" "scan_while (\<lambda>c. c \<noteq> SPC) sample_request 23 4 = 14"
    by code_simp+
  have form: "origin_form (drop 4 (sample_request[14 := NUL])) = (0, target, False)"
    unfolding target_def by code_simp
  have query: "StripGETRequestQueryAndFragment (Some target) MAX_QUERY = (Some (target[6 := NUL]), True)"
    unfolding target_def by code_simp
  have decoded: "StripHTMLCharacters_Inplace (target[6 := NUL]) True = Inr result"
    unfolding result_def target_def by code_simp
  have ok: "FilenameStripperOk (Some result)" unfolding result_def target_def by code_simp
  have lens: "strlen target = 10" "strlen result = 4" unfolding result_def target_def by code_simp+
  show ?thesis
    by (simp add: ProcessFirstHTTPLine_def Let_def bytes [simplified] scanned line_method_def scans form
        process_target_def lens query decoded ok MAX_RESOURCE_def MAX_FILE_PATH_def initial_settings_def)
qed


section \<open>The parts of a target\<close>

lemma query_loop_scan:
  "CHR ''#'' \<notin> set (between r i len) \<Longrightarrow> i \<le> len \<Longrightarrow> len \<le> length r \<Longrightarrow>
     query_loop r len i f = (scan_while (\<lambda>c. c \<noteq> CHR ''?'') r len i, f)"
proof (induction r len i f rule: query_loop.induct)
  case (1 r len i f)
  show ?case
  proof (cases "i < len \<and> r ! i \<noteq> CHR ''?''")
    case True
    then have "between r i len = r ! i # between r (i + 1) len" using "1.prems" by (intro between_Cons) auto
    then have "CHR ''#'' \<notin> set (between r (i + 1) len)" "r ! i \<noteq> CHR ''#''" using "1.prems" by auto
    then show ?thesis using "1.IH" [OF True] True "1.prems"
      by (subst query_loop.simps, subst scan_while.simps) simp
  next
    case False
    then show ?thesis by (subst query_loop.simps, subst scan_while.simps) auto
  qed
qed

text \<open>A path, with or without a query behind it.\<close>

lemma strip_query:
  assumes "NUL \<notin> set (p @ qs)" "CHR ''#'' \<notin> set (p @ qs)" "CHR ''?'' \<notin> set p" "p \<noteq> []"
    and "qs = [] \<or> (\<exists>q. qs = CHR ''?'' # q \<and> q \<noteq> [])" and "length (p @ qs) \<le> MAX_QUERY"
  shows "StripGETRequestQueryAndFragment (Some (p @ qs @ NUL # rest)) MAX_QUERY
    = (Some (if qs = [] then p @ NUL # rest else p @ NUL # tl qs @ NUL # rest), qs \<noteq> [])"
proof -
  let ?r = "p @ qs @ NUL # rest" and ?n = "length (p @ qs)"
  have len: "strlen ?r = ?n" using cstring_append_NUL [of "p @ qs" rest] assms(1) by simp
  have "between ?r 0 ?n = p @ qs" by (simp add: between_def)
  then have loop: "query_loop ?r ?n 0 ?n = (scan_while (\<lambda>c. c \<noteq> CHR ''?'') ?r ?n 0, ?n)"
    using assms(2) by (intro query_loop_scan) simp_all
  have line: "drop 0 (take ?n ?r) = p @ qs" by simp
  have "takeWhile (\<lambda>c. c \<noteq> CHR ''?'') qs = []" using assms(5) by auto
  moreover have "takeWhile (\<lambda>c. c \<noteq> CHR ''?'') (p @ qs) = p @ takeWhile (\<lambda>c. c \<noteq> CHR ''?'') qs"
    by (rule takeWhile_append2) (use assms(3) in blast)
  ultimately have scan: "scan_while (\<lambda>c. c \<noteq> CHR ''?'') ?r ?n 0 = length p"
    using scan_while_takeWhile [of 0 ?n ?r "\<lambda>c. c \<noteq> CHR ''?''"] unfolding line by simp
  show ?thesis
  proof (cases qs)
    case Nil
    then show ?thesis using loop scan len assms(4,6)
      by (simp add: StripGETRequestQueryAndFragment_def Let_def)
  next
    case (Cons c q)
    then have "c = CHR ''?''" "q \<noteq> []" using assms(5) by auto
    then show ?thesis using loop scan len assms(4,6) Cons
      by (auto simp: StripGETRequestQueryAndFragment_def Let_def)
  qed
qed

lemma line_method_word:
  assumes "m \<in> {''GET'', ''HEAD'', ''POST''}" and "length m \<le> n"
  shows "snd (line_method present (scanFor_firstLines (Some (m @ SPC # r)) n)) = length m"
proof -
  have up: "toupper CHR ''G'' = CHR ''G''" "toupper CHR ''H'' = CHR ''H''" "toupper CHR ''P'' = CHR ''P''"
    "toupper CHR ''O'' = CHR ''O''" by code_simp+
  consider "m = ''GET''" | "m = ''HEAD''" | "m = ''POST''" using assms(1) by blast
  then show ?thesis
    by cases (use assms(2) in \<open>simp_all add: scanFor_firstLines_def scanner_def switch_def word_def c_at_def up
        line_method_def\<close>)
qed

text \<open>
  C37: The parts of a request line: the resource is the path of the target with its escapes
  decoded, and the query is kept in the buffer as it was sent, behind the path; without one
  \<open>GETrequest\<close> is NULL.
\<close>

theorem first_line_target:
  assumes "ProcessFirstHTTPLine s h offset n = Inr (h', True)" and "offset + n \<le> length (headerBytes h)"
    and line: "drop offset (headerBytes h) = m @ SPC # p @ qs @ SPC # rest" and "length (m @ SPC # p @ qs) < n"
    and m: "m \<in> {''GET'', ''HEAD'', ''POST''}" and p: "p = CHR ''/'' # p'" "2 < length p" "CHR ''?'' \<notin> set p"
    and chars: "{NUL, SPC, CHR ''#''} \<inter> set (p @ qs) = {}"
    and qs: "qs = [] \<or> (\<exists>q. qs = CHR ''?'' # q \<and> q \<noteq> [])"
  shows "h_resource h' = html_decode True p
    \<and> (if qs = [] then GETrequest h' = (None, 0)
       else let a = offset + length m + 1 + length p + 1
            in GETrequest h' = (Some (the (headerRAW h) + a), length (tl qs))
               \<and> between (headerBytes h') a (a + length (tl qs)) = tl qs)"
proof -
  define request where "request = drop offset (headerBytes h)"
  define b where "b = scan_while (\<lambda>c. c = SPC) request n
      (snd (line_method (requestType h) (scanFor_firstLines (Some request) n)))"
  define e where "e = scan_while (\<lambda>c. c \<noteq> SPC) request n b"
  have req: "request = m @ SPC # p @ qs @ SPC # rest" using line by (simp add: request_def)
  have n: "n \<le> length request" using assms(2) by (simp add: request_def)
  have "snd (line_method (requestType h) (scanFor_firstLines (Some request) n)) = length m"
    using line_method_word [OF m, of n] assms(4) by (simp add: req)
  then have b: "b = length m + 1"
    using scan_run_to [of "[SPC]" "\<lambda>c. c = SPC" "CHR ''/''" m n "p' @ qs @ SPC # rest"] assms(4) p n
    by (simp add: b_def req)
  have "\<forall>c\<in>set (p @ qs). c \<noteq> SPC" using chars by auto
  then have e: "e = length m + 1 + length (p @ qs)"
    using scan_run_to [of "p @ qs" "\<lambda>c. c \<noteq> SPC" SPC "m @ [SPC]" n rest] assms(4) n
    by (simp add: e_def b req)
  have target: "drop b (request[e := NUL]) = p @ qs @ NUL # rest" "take b (request[e := NUL]) = m @ [SPC]"
    by (simp_all add: b e req list_update_append)
  have form: "origin_form (p @ qs @ NUL # rest) = (0, p @ qs @ NUL # rest, False)"
    by (simp add: origin_form_def p(1) tolower_def numeral_eq_Suc)
  obtain g moved mem absolute h2 mem' where o: "origin_form (drop b (request[e := NUL])) = (moved, mem, absolute)"
    and t: "process_target s g (the (headerRAW h) + (offset + b + moved)) (drop moved mem) = Inr (h2, mem', True)"
    and g: "headerBytes g = headerBytes h"
    and h': "h' = h2\<lparr>headerBytes := take offset (headerBytes h2) @ take b (request[e := NUL]) @ take moved mem @ mem'\<rparr>"
    by (rule first_line_accepted [OF assms(1) request_def b_def e_def]) blast
  have chars': "NUL \<notin> set (p @ qs)" "CHR ''#'' \<notin> set (p @ qs)" using chars by auto
  have mem: "moved = 0" "mem = p @ qs @ NUL # rest" using o target form by simp_all
  have strlen: "strlen mem = length (p @ qs)"
    using cstring_append_NUL [of "p @ qs" rest] chars'(1) by (simp add: mem)
  have short: "length (p @ qs) \<le> MAX_QUERY"
    using t strlen by (auto simp: process_target_def mem(1) MAX_RESOURCE_def MAX_QUERY_def split: if_splits)
  define tail where "tail = (if qs = [] then rest else tl qs @ NUL # rest)"
  have strip: "StripGETRequestQueryAndFragment (Some mem) MAX_QUERY = (Some (p @ NUL # tail), qs \<noteq> [])"
    using strip_query [OF chars' p(3) _ qs short, of rest] p(1) by (simp add: mem tail_def)
  have np: "NUL \<notin> set p" using chars' by simp
  have sp: "cstring (p @ NUL # tail) = p" using cstring_append_NUL [OF np] .
  from t have html: "StripHTMLCharacters_Inplace (p @ NUL # tail) True = Inr mem'"
    and res: "h_resource h2 = take MAX_RESOURCE (cstring mem')"
    and get: "GETrequest h2 = (if qs \<noteq> [] then (Some (the (headerRAW h) + (offset + b) + length p + 1), strlen tail)
        else (None, 0))"
    and bytes: "headerBytes h2 = headerBytes g"
    by (auto simp: process_target_def Let_def strip mem(1) sp split: if_splits sum.splits)
  have "2 < strlen (p @ NUL # tail)" "strlen (p @ NUL # tail) < length (p @ NUL # tail)"
    using p(2) by (simp_all add: sp)
  note decoded = StripHTML_cstring [OF this html, unfolded sp]
  have "cstring mem' = html_decode True p"
    using decoded(1) cstring_append_NUL [OF html_decode_NUL [OF np]] by simp
  moreover have "length (html_decode True p) \<le> MAX_RESOURCE"
    using html_decode_length [of True p] short by (simp add: MAX_QUERY_def MAX_RESOURCE_def)
  moreover have "strlen tail = length (tl qs) \<and>
      between (headerBytes h') (offset + b + length p + 1) (offset + b + length p + 1 + length (tl qs)) = tl qs"
    if "qs \<noteq> []"
  proof -
    have "NUL \<notin> set (tl qs)" using chars'(1) that by (cases qs) auto
    from cstring_append_NUL [OF this] have c: "strlen tail = length (tl qs)" using that by (simp add: tail_def)
    have "length (take offset (headerBytes h2)) = offset" using bytes g assms(2) by simp
    then have "drop (offset + b + length p + 1) (headerBytes h') = drop (length p + 1) mem'"
      using target(2) b by (simp add: h' mem(1))
    also have "\<dots> = tail" using decoded(3) by simp
    finally show ?thesis using c that by (simp add: between_def tail_def)
  qed
  ultimately show ?thesis using res get b by (simp add: h' Let_def add.assoc)
qed

theorem first_line_target_witness:
  "\<exists>h'. ProcessFirstHTTPLine (initial_settings ''www/'') sample_header 0 23 = Inr (h', True)
    \<and> h_resource h' = ''/a b'' \<and> GETrequest h' = (Some 1011, 3)"
proof -
  obtain h' where h': "ProcessFirstHTTPLine (initial_settings ''www/'') sample_header 0 23 = Inr (h', True)"
    using sample_accepted by blast
  have bytes: "0 + 23 \<le> length (headerBytes sample_header)"
    "drop 0 (headerBytes sample_header)
     = ''GET'' @ SPC # ''/a%20b'' @ ''?x=1'' @ SPC # ''HTTP/1.1'' @ [CR, LF, CR, LF, NUL]"
    by (simp_all add: sample_header_def sample_request_def)
  have "html_decode True ''/a%20b'' = ''/a b''" by code_simp
  then have "h_resource h' = ''/a b'' \<and> GETrequest h' = (Some 1011, 3)"
    using first_line_target [OF h' bytes, of "''a%20b''"] by (simp add: sample_header_def)
  then show ?thesis using h' by blast
qed

end
