(* ===== verification/HeaderLines.thy ===== *)
theory HeaderLines
  imports PostLines FirstLine
begin

text \<open>
  The lines of a request header (the second half of
  \<open>src/AmmServerlib/header_analysis/http_header_analysis.c\<close> with the searches of
  \<open>src/AmmServerlib/tools/http_tools.c\<close> it uses).  A line is an offset in the receive buffer
  and a length; a scanner that recognises a header has checked that the line is at least as
  long as the name, so the unsigned differences below do not wrap.
\<close>

section \<open>Searching a line\<close>

text \<open>The search does not go back after a mismatch: \<open>k\<close> characters of the word have matched.\<close>

function caps_loop :: "string \<Rightarrow> nat \<Rightarrow> string \<Rightarrow> nat \<Rightarrow> nat \<Rightarrow> nat option" where
  "caps_loop str1 str1_length str2CAPS i k =
     (if i < str1_length then
        (let k = (if toupper (str1 ! i) = c_at str2CAPS k then k + 1 else 0)
         in if k = length str2CAPS then Some i else caps_loop str1 str1_length str2CAPS (i + 1) k)
      else None)"
  by pat_completeness auto
termination
  by (relation "measure (\<lambda>(str1, n, str2, i, k). n - i)") auto

declare caps_loop.simps [simp del]

definition stristr2Caps :: "string \<Rightarrow> nat \<Rightarrow> string \<Rightarrow> nat option" where
  "stristr2Caps str1 str1_length str2CAPS =
     (if str1_length < length str2CAPS then None else caps_loop str1 str1_length str2CAPS 0 0)"

definition CheckHTTPHeaderCategory :: "string \<Rightarrow> nat \<Rightarrow> string \<Rightarrow> bool" where
  "CheckHTTPHeaderCategory line line_length potential_strCAPS \<longleftrightarrow>
     stristr2Caps line line_length potential_strCAPS \<noteq> None"

text \<open>Every character below \<open>!\<close> becomes a NUL, also those above 127: \<open>char\<close> is signed.\<close>

definition trim_last_empty_chars :: "string \<Rightarrow> nat \<Rightarrow> string" where
  "trim_last_empty_chars inp input_length =
     map (\<lambda>c. if schar_val c < 33 then NUL else c) (take input_length inp) @ drop input_length inp"

section \<open>Credentials\<close>

definition ProcessAuthorizationHTTPLine ::
    "http_settings \<Rightarrow> http_header \<Rightarrow> nat \<Rightarrow> nat \<Rightarrow> nat \<Rightarrow> (http_header \<times> bool) checked" where
  "ProcessAuthorizationHTTPLine s h offset request_length payload_start =
     (let request = drop offset (headerBytes h);
          p = scan_while (\<lambda>c. c = SPC) request request_length (payload_start + 1);
          p = scan_while (\<lambda>c. c = SPC) request request_length (p + length ''Basic'')
      in if p < request_length then
           (let request = trim_last_empty_chars request request_length;
                payload = takeWhile (\<lambda>c. \<not> terminator c) (drop p request)
            in map_sum id
                 (\<lambda>request. (h\<lparr>headerBytes := take offset (headerBytes h) @ request,
                               authorized := BASE64PASSWORD s = Some payload\<rparr>, True))
                 (write_at request (p + length payload) NUL))
         else Inr (h, True))"

section \<open>Ranges\<close>

definition ParseRangeNumber :: "string \<Rightarrow> nat \<Rightarrow> nat option" where
  "ParseRangeNumber v len = (if len = 0 then None else ulong_digits 0 (take len v))"

definition no_range :: "http_header \<Rightarrow> http_header" where
  "no_range h = h\<lparr>rangeRequested := False, rangeKind := HTTP_RANGE_NONE, range_start := 0, range_end := 0\<rparr>"

definition a_range :: "range_kind \<Rightarrow> nat \<Rightarrow> nat \<Rightarrow> http_header \<Rightarrow> http_header" where
  "a_range kind lower upper h = h\<lparr>rangeRequested := True, rangeKind := kind, range_start := lower, range_end := upper\<rparr>"

text \<open>The specification between \<open>bytes=\<close> and the end of the line, its blanks trimmed.\<close>

definition range_spec :: "http_header \<Rightarrow> string \<Rightarrow> nat \<Rightarrow> nat \<Rightarrow> http_header \<times> bool" where
  "range_spec h v specStart specEnd =
     (let dash = scan_while (\<lambda>c. c \<noteq> CHR ''-'') v specEnd specStart;
          startLength = dash - specStart; endLength = specEnd - dash - 1
      in if dash \<ge> specEnd then (h, False)
         else if startLength = 0 then
           (case ParseRangeNumber (drop (dash + 1) v) endLength of
              None \<Rightarrow> (h, False)
            | Some n \<Rightarrow> (a_range HTTP_RANGE_SUFFIX n 0 h, True))
         else
           (case ParseRangeNumber (drop specStart v) startLength of
              None \<Rightarrow> (h, False)
            | Some start \<Rightarrow>
                if endLength = 0 then (a_range HTTP_RANGE_OPEN_ENDED start 0 h, True)
                else
                  (case ParseRangeNumber (drop (dash + 1) v) endLength of
                     None \<Rightarrow> (h, False)
                   | Some e \<Rightarrow> if start > e then (h, False) else (a_range HTTP_RANGE_CLOSED start e h, True))))"

definition ParseRangeHTTPLine :: "http_header \<Rightarrow> string \<Rightarrow> nat \<Rightarrow> http_header \<times> bool" where
  "ParseRangeHTTPLine h v len =
     (let h = no_range h; i = scan_while is_blank v len 0
      in if len - i < 6 \<or> \<not> strncaseeq (drop i v) ''bytes='' 6 then (h, False)
         else
           (let specStart = scan_while is_blank v len (i + 6);
                i = scan_while (\<lambda>c. c \<noteq> CHR '','') v len specStart;
                specEnd = scan_back is_blank v specStart i
            in if i < len \<or> specEnd \<le> specStart then (h, False) else range_spec h v specStart specEnd))"

section \<open>Transfer codings\<close>

lemma scan_progress:
  assumes "i < n" and "\<And>c. \<not> P c \<Longrightarrow> Q c"
  shows "i < scan_while Q r n (scan_while P r n i)"
proof (cases "P (r ! i)")
  case True
  then have "scan_while P r n i = scan_while P r n (Suc i)" using assms(1) by (subst scan_while.simps) simp
  then show ?thesis using scan_while_ge [of "Suc i" P r n] scan_while_ge [of "scan_while P r n i" Q r n] by linarith
next
  case False
  then have "scan_while P r n i = i" by (subst scan_while.simps) simp
  moreover have "scan_while Q r n i = scan_while Q r n (Suc i)"
    using False assms by (subst scan_while.simps) simp
  ultimately show ?thesis using scan_while_ge [of "Suc i" Q r n] by simp
qed

text \<open>The codings of the line: whether one was seen, \<open>chunked\<close> and \<open>transferEncodingUnsupported\<close>.\<close>

function coding_loop :: "string \<Rightarrow> nat \<Rightarrow> nat \<Rightarrow> bool \<Rightarrow> bool \<Rightarrow> bool \<Rightarrow> bool \<times> bool \<times> bool" where
  "coding_loop request request_length i sawCoding chunk unsupported =
     (if i < request_length then
        (let start = scan_while (\<lambda>c. is_blank c \<or> c = CHR '','') request request_length i;
             i' = scan_while (\<lambda>c. c \<noteq> CHR '','') request request_length start;
             e = scan_back is_blank request start i'
         in if e > start then
              (if e - start = 7 \<and> strncaseeq (drop start request) ''chunked'' 7
               then coding_loop request request_length i' True True unsupported
               else if e - start = 8 \<and> strncaseeq (drop start request) ''identity'' 8
               then coding_loop request request_length i' True chunk unsupported
               else coding_loop request request_length i' True chunk True)
            else coding_loop request request_length i' sawCoding chunk unsupported)
      else (sawCoding, chunk, unsupported))"
  by pat_completeness auto
termination
proof (relation "measure (\<lambda>(request, n, i, _). n - i)", goal_cases)
  case 1
  show ?case by simp
qed (auto intro!: diff_less_mono2 scan_progress)

declare coding_loop.simps [simp del]

text \<open>An empty header is malformed.\<close>

definition transfer_encoding_line :: "http_header \<Rightarrow> string \<Rightarrow> nat \<Rightarrow> http_header" where
  "transfer_encoding_line h request request_length =
     (let (sawCoding, chunk, unsupported) =
            coding_loop request request_length (length ''TRANSFER-ENCODING:'') False (chunked h)
              (transferEncodingUnsupported h)
      in h\<lparr>chunked := chunk, transferEncodingUnsupported := unsupported \<or> \<not> sawCoding\<rparr>)"

section \<open>The other headers\<close>

definition expect_line :: "http_header \<Rightarrow> string \<Rightarrow> nat \<Rightarrow> http_header" where
  "expect_line h request request_length =
     (let start = scan_while is_blank request request_length (length ''EXPECT:'');
          e = scan_back is_blank request start request_length
      in if e - start = 12 \<and> strncaseeq (drop start request) ''100-continue'' 12
         then h\<lparr>expectContinue := True\<rparr> else h\<lparr>expectUnsupported := True\<rparr>)"

text \<open>The entity tag without the blanks before it and the quotes around it.\<close>

definition if_none_match_line :: "http_header \<Rightarrow> nat \<Rightarrow> string \<Rightarrow> nat \<Rightarrow> http_header" where
  "if_none_match_line h a request request_length =
     (let b = scan_while is_blank request request_length (length ''IF-NONE-MATCH:'');
          b = (if b < request_length \<and> request ! b = QUOTE then b + 1 else b);
          e = (if b < request_length \<and> request ! (request_length - 1) = QUOTE then request_length - 1
               else request_length)
      in h\<lparr>h_eTag := (Some (a + b), e - b)\<rparr>)"

definition connection_line :: "http_settings \<Rightarrow> http_header \<Rightarrow> string \<Rightarrow> nat \<Rightarrow> http_header option" where
  "connection_line s h request request_length =
     (if CheckHTTPHeaderCategory request request_length ''KEEP-ALIVE''
      then Some (h\<lparr>keepalive := KEEPALIVE_ENABLED s\<rparr>)
      else if CheckHTTPHeaderCategory request request_length ''CLOSE'' then Some (h\<lparr>keepalive := False\<rparr>)
      else None)"

definition header_span :: "nat \<Rightarrow> string \<Rightarrow> nat \<Rightarrow> span" where
  "header_span a name request_length = (Some (a + length name), request_length - length name)"

text \<open>A header that only a POST looks at further.\<close>

definition post_possibility :: "http_header \<Rightarrow> nat \<Rightarrow> nat \<Rightarrow> (http_header \<times> bool) checked" where
  "post_possibility h offset request_length =
     (if MASTER_ENABLE_POST \<and> requestType h = POST then AnalyzePOSTLineRequest h offset request_length
      else Inr (h, False))"

definition AnalyzeHTTPLineRequest ::
    "http_settings \<Rightarrow> http_header \<Rightarrow> nat \<Rightarrow> nat \<Rightarrow> nat \<Rightarrow> (http_header \<times> bool) checked" where
  "AnalyzeHTTPLineRequest s h offset request_length lines_gathered =
     (if lines_gathered = 1 then ProcessFirstHTTPLine s h offset request_length
      else
        (let a = the (headerRAW h) + offset;
             request = drop offset (headerBytes h);
             from = (\<lambda>name. slice request (length name) (request_length - length name))
         in case scanFor_httpHeader (Some request) request_length of
              HTTPHEADER_AUTHORIZATION \<Rightarrow>
                if PASSWORD_PROTECTION s \<and> BASE64PASSWORD s \<noteq> None
                then ProcessAuthorizationHTTPLine s h offset request_length (length ''AUTHORIZATION:'')
                else post_possibility h offset request_length
            | HTTPHEADER_ACCEPT_ENCODING \<Rightarrow>
                post_possibility
                  (h\<lparr>supports_compression := CheckHTTPHeaderCategory request request_length ''DEFLATE''\<rparr>)
                  offset request_length
            | HTTPHEADER_COOKIE \<Rightarrow>
                (let v = header_span a ''COOKIE:'' request_length
                 in Inr (fst (finalizeCOOKIEData (h\<lparr>h_cookie := v\<rparr>) (fst v) (snd v)), True))
            | HTTPHEADER_CONNECTION \<Rightarrow>
                (case connection_line s h request request_length of
                   Some h \<Rightarrow> Inr (h, True)
                 | None \<Rightarrow> post_possibility h offset request_length)
            | HTTPHEADER_HOST \<Rightarrow>
                Inr (h\<lparr>hostHeaderCount := hostHeaderCount h + 1, h_host := header_span a ''HOST:'' request_length\<rparr>, True)
            | HTTPHEADER_IF_NONE_MATCH \<Rightarrow> Inr (if_none_match_line h a request request_length, True)
            | HTTPHEADER_IF_MODIFIED_SINCE \<Rightarrow>
                (case ParseHTTPDate (Some (from ''IF-MODIFIED-SINCE:'')) of
                   None \<Rightarrow> Inr (h, False)
                 | Some t \<Rightarrow> Inr (h\<lparr>ifModifiedSince := Some t\<rparr>, True))
            | HTTPHEADER_IF_UNMODIFIED_SINCE \<Rightarrow>
                (case ParseHTTPDate (Some (from ''IF-UNMODIFIED-SINCE:'')) of
                   None \<Rightarrow> Inr (h, False)
                 | Some t \<Rightarrow> Inr (h\<lparr>ifUnmodifiedSince := Some t\<rparr>, True))
            | HTTPHEADER_EXPECT \<Rightarrow> Inr (expect_line h request request_length, True)
            | HTTPHEADER_TRANSFER_ENCODING \<Rightarrow> Inr (transfer_encoding_line h request request_length, True)
            | HTTPHEADER_RANGE \<Rightarrow>
                (case ParseRangeHTTPLine h (from ''RANGE:'') (request_length - length ''RANGE:'') of
                   (h, True) \<Rightarrow> Inr (h, True)
                 | (h, False) \<Rightarrow> Inr (no_range h, False))
            | HTTPHEADER_REFERRER \<Rightarrow>
                post_possibility (h\<lparr>h_referer := header_span a ''REFERRER:'' request_length\<rparr>) offset request_length
            | HTTPHEADER_REFERER \<Rightarrow> Inr (h\<lparr>h_referer := header_span a ''REFERER:'' request_length\<rparr>, True)
            | _ \<Rightarrow> post_possibility h offset request_length))"

section \<open>What a line leaves alone\<close>

text \<open>
  The part of the record that belongs to the receive loop, and the facts about the framing of the
  body that a line can only add.
\<close>

definition buffer_of :: "http_header \<Rightarrow> (ptr \<times> nat \<times> nat \<times> nat \<times> nat \<times> nat) \<times> nat \<times> nat \<times> bool \<times> bool \<times> nat" where
  "buffer_of h =
     ((headerRAW h, length (headerBytes h), headerRAWHeadSize h, headerRAWSize h, MAXheaderRAWSize h,
       headerRAWRequestedSize h),
      parsingStartOffset h, parsingCurrentLine h, failed h, headerValidated h, errorResponseCode h)"

definition framing_grows :: "http_header \<Rightarrow> http_header \<Rightarrow> bool" where
  "framing_grows h h' \<longleftrightarrow>
     (chunked h \<longrightarrow> chunked h') \<and> (transferEncodingUnsupported h \<longrightarrow> transferEncodingUnsupported h')
     \<and> (hasContentLength h \<longrightarrow> hasContentLength h') \<and> (contentLengthInvalid h \<longrightarrow> contentLengthInvalid h')
     \<and> (expectUnsupported h \<longrightarrow> expectUnsupported h') \<and> (expectContinue h \<longrightarrow> expectContinue h')
     \<and> hostHeaderCount h \<le> hostHeaderCount h'"

definition line_step :: "http_header \<Rightarrow> http_header \<Rightarrow> bool" where
  "line_step h h' \<longleftrightarrow> buffer_of h' = buffer_of h \<and> framing_grows h h'"

lemmas line_step_defs = line_step_def buffer_of_def framing_grows_def

lemma line_step_refl [simp]: "line_step h h"
  by (simp add: line_step_defs)

lemma line_step_trans: "line_step h g \<Longrightarrow> line_step g k \<Longrightarrow> line_step h k"
  by (auto simp: line_step_defs)

lemma map_sum_eq_Inr: "map_sum id f x = Inr y \<longleftrightarrow> (\<exists>z. x = Inr z \<and> y = f z)"
  by (cases x) auto

lemma write_at_length: "write_at s i c = Inr t \<Longrightarrow> length t = length s"
  by (auto simp: write_at_def split: if_splits)

lemma cookie_loop_length: "length (fst (cookie_loop a e mem p items)) = length mem"
proof (induction a e mem p items rule: cookie_loop.induct)
  case (1 a e mem p items)
  then show ?case by (subst cookie_loop.simps) (auto simp: Let_def)
qed

lemma cookie_step: "line_step h (fst (finalizeCOOKIEData h v n))"
  using cookie_loop_length [of "the v" n "drop (the v - the (headerRAW h)) (headerBytes h)" 0 "[]"]
  by (cases v) (auto simp: line_step_defs finalizeCOOKIEData_def Let_def split: prod.split)

lemma countString_length: "countStringUntilNewLine bytes b n = Inr (bytes', k) \<Longrightarrow> length bytes' = length bytes"
  by (auto simp: countStringUntilNewLine_def Let_def map_sum_eq_Inr dest: write_at_length split: if_splits)

lemma content_type_step: "content_type_line h offset n = Inr (h', r) \<Longrightarrow> line_step h h'"
  by (auto simp: content_type_line_def Let_def attempt_eq_Inr line_step_defs createPOSTData_def wipePOSTData_def
      dest!: countString_length write_at_length split: option.splits if_splits prod.splits)

lemma content_length_step: "content_length_line h offset n = (h', r) \<Longrightarrow> line_step h h'"
  by (auto simp: content_length_line_def line_step_defs split: option.splits if_splits)

text \<open>A line of the body only registers parts.\<close>

lemma boundary_step: "boundary_line h offset = Inr (h', r) \<Longrightarrow> \<exists>items. h' = h\<lparr>POSTItem := items\<rparr>"
  by (auto simp: boundary_line_def addPOSTDataBoundary_def attempt_eq_Inr
      split: option.splits if_splits intro: exI [of _ "POSTItem h"])

lemma boundary_line_step: "boundary_line h offset = Inr (h', r) \<Longrightarrow> line_step h h'"
  by (drule boundary_step) (auto simp: line_step_defs)

lemma disposition_step: "line_step h (h\<lparr>h_contentDisposition := d\<rparr>)"
  by (simp add: line_step_defs)

lemma post_line_step: "AnalyzePOSTLineRequest h offset n = Inr (h', r) \<Longrightarrow> line_step h h'"
  by (auto simp: AnalyzePOSTLineRequest_def disposition_step split: postHeader.splits if_splits
      dest: content_type_step content_length_step boundary_line_step)

lemma post_body_step:
  assumes "AnalyzePOSTLineRequest h offset n = Inr (h', r)" and "POSTLineIsBody h offset"
  shows "\<exists>items. h' = h\<lparr>POSTItem := items\<rparr>"
  using assms by (auto simp: AnalyzePOSTLineRequest_def split: postHeader.splits dest: boundary_step
      intro: exI [of _ "POSTItem h"])


lemma post_possibility_step: "post_possibility h offset n = Inr (h', r) \<Longrightarrow> line_step h h'"
  by (auto simp: post_possibility_def split: if_splits dest: post_line_step)

lemma authorization_step:
  assumes "ProcessAuthorizationHTTPLine s h offset n p = Inr (h', r)" and "offset + n \<le> length (headerBytes h)"
  shows "line_step h h'"
  using assms by (auto simp: ProcessAuthorizationHTTPLine_def Let_def map_sum_eq_Inr trim_last_empty_chars_def
      line_step_defs dest!: write_at_length split: if_splits)

lemma process_target_step:
  assumes "process_target s h a mem = Inr (h', mem', ok)" and "NUL \<in> set mem"
  shows "line_step h h' \<and> headerBytes h' = headerBytes h \<and> length mem' = length mem"
proof -
  obtain m q where m: "StripGETRequestQueryAndFragment (Some mem) MAX_QUERY = (m, q)" by fastforce
  then obtain m1 where "m = Some m1"
    by (auto simp: StripGETRequestQueryAndFragment_def Let_def split: prod.splits if_splits)
  with m have m1: "StripGETRequestQueryAndFragment (Some mem) MAX_QUERY = (Some m1, q)" by simp
  note ends = StripGET_ends [OF m1 assms(2)]
  show ?thesis
    using assms(1) ends StripHTML_ends [of m1]
    by (auto simp: process_target_def Let_def m1 line_step_defs split: if_splits sum.splits)
qed

lemma first_line_step:
  assumes "ProcessFirstHTTPLine s h offset n = Inr (h', r)" and "offset + n \<le> length (headerBytes h)"
  shows "line_step h h'"
proof -
  define request where "request = drop offset (headerBytes h)"
  obtain meth k where lm: "line_method (requestType h) (scanFor_firstLines (Some request) n) = (meth, k)"
    by fastforce
  define b where "b = scan_while (\<lambda>c. c = SPC) request n k"
  define e where "e = scan_while (\<lambda>c. c \<noteq> SPC) request n b"
  obtain moved mem absolute where o: "origin_form (drop b (request[e := NUL])) = (moved, mem, absolute)"
    using prod_cases3 by blast
  note run = assms(1) [unfolded ProcessFirstHTTPLine_def Let_def request_def [symmetric] lm prod.case b_def [symmetric]
      e_def [symmetric] o]
  show ?thesis
  proof (cases "n < 3 \<or> meth \<notin> {GET, HEAD, POST} \<or> b \<ge> n \<or> e \<ge> n")
    case True
    then show ?thesis using run by (auto simp: line_step_defs split: if_splits)
  next
    case False
    let ?g = "h\<lparr>requestType := meth, httpVersion := (case line_version (request[e := NUL]) n e of None \<Rightarrow> (0, 9) | Some v \<Rightarrow> v),
       keepalive := default_keepalive s (line_version (request[e := NUL]) n e),
       requestTargetWasAbsolute := requestTargetWasAbsolute h \<or> absolute\<rparr>"
    obtain g mem' ok where t: "process_target s ?g (the (headerRAW h) + (offset + b + moved)) (drop moved mem) = Inr (g, mem', ok)"
      and h': "h' = g\<lparr>headerBytes := take offset (headerBytes g) @ take b (request[e := NUL]) @ take moved mem @ mem'\<rparr>"
      using run False by (auto split: sum.splits prod.splits)
    have "b \<le> e" unfolding e_def by (rule scan_while_ge)
    have len: "length request = length (headerBytes h) - offset" by (simp add: request_def)
    then have "drop b (request[e := NUL]) ! (e - b) = NUL" "e - b < length (drop b (request[e := NUL]))"
      using False \<open>b \<le> e\<close> assms(2) by auto
    then have "NUL \<in> set (drop b (request[e := NUL]))" by (metis nth_mem)
    note form = origin_form_ends [OF o this]
    then have g: "line_step ?g g" "headerBytes g = headerBytes h" "length mem' = length mem - moved"
      using process_target_step [OF t] by auto
    have m: "min (length (headerBytes h) - offset) b = b" and "b < n" using False assms(2) by auto
    then have "offset + b \<le> length (headerBytes h)" using assms(2) by linarith
    then have "offset + (b + (moved + (length (headerBytes h) - (offset + b + moved)))) = length (headerBytes h)"
      using form len by auto
    then have "length (headerBytes h') = length (headerBytes h)"
      using m form g len \<open>b \<le> e\<close> assms(2) by (simp add: h')
    then show ?thesis using g(1,2) by (simp add: h' line_step_defs)
  qed
qed

lemma range_fields: "ParseRangeHTTPLine h v n = (h', r) \<Longrightarrow> line_step h h'"
  by (auto simp: ParseRangeHTTPLine_def range_spec_def Let_def no_range_def a_range_def line_step_defs
      split: if_splits option.splits)

lemma coding_loop_grows:
  "coding_loop request n i saw chunk unsupported = (saw', chunk', unsupported') \<Longrightarrow>
     (chunk \<longrightarrow> chunk') \<and> (unsupported \<longrightarrow> unsupported')"
proof (induction request n i saw chunk unsupported rule: coding_loop.induct)
  case (1 request n i saw chunk unsupported)
  from "1.prems" show ?case
    by (subst (asm) coding_loop.simps) (auto simp: Let_def split: if_splits dest: "1.IH" [OF _ refl refl refl])
qed

lemma transfer_encoding_step: "line_step h (transfer_encoding_line h request n)"
proof -
  obtain saw c u where l: "coding_loop request n (length ''TRANSFER-ENCODING:'') False (chunked h)
      (transferEncodingUnsupported h) = (saw, c, u)"
    using prod_cases3 by blast
  show ?thesis unfolding transfer_encoding_line_def l Let_def prod.case
    using coding_loop_grows [OF l] by (auto simp: line_step_defs)
qed

lemma post_after:
  assumes "post_possibility g offset n = Inr (h', r)" and "line_step h g"
  shows "line_step h h'"
  using assms line_step_trans post_possibility_step by blast

lemma connection_step: "connection_line s h request n = Some h' \<Longrightarrow> line_step h h'"
  by (auto simp: connection_line_def line_step_defs split: if_splits)

lemma plain_header_steps:
  "line_step h (h\<lparr>supports_compression := b\<rparr>)" "line_step h (h\<lparr>h_referer := sp\<rparr>)"
  "line_step h (h\<lparr>hostHeaderCount := Suc (hostHeaderCount h), h_host := sp\<rparr>)"
  "line_step h (h\<lparr>ifModifiedSince := t\<rparr>)" "line_step h (h\<lparr>ifUnmodifiedSince := t\<rparr>)"
  "line_step h (if_none_match_line h a request n)" "line_step h (expect_line h request n)"
  "line_step g h \<Longrightarrow> line_step g (no_range h)"
  by (auto simp: line_step_defs if_none_match_line_def expect_line_def Let_def no_range_def)

lemma header_line_step:
  assumes "AnalyzeHTTPLineRequest s h offset n line = Inr (h', r)" and "offset + n \<le> length (headerBytes h)"
  shows "line_step h h'"
proof (cases "line = 1")
  case True
  then show ?thesis using assms first_line_step by (simp add: AnalyzeHTTPLineRequest_def)
next
  case False
  have cookie: "line_step h (fst (finalizeCOOKIEData (h\<lparr>h_cookie := c\<rparr>) v m))" for c v m
    using line_step_trans [OF _ cookie_step, of h "h\<lparr>h_cookie := c\<rparr>"] by (simp add: line_step_defs)
  from assms(1) False show ?thesis
    unfolding AnalyzeHTTPLineRequest_def Let_def
    by (cases "scanFor_httpHeader (Some (drop offset (headerBytes h))) n")
      (use assms(2) in \<open>auto simp: plain_header_steps cookie transfer_encoding_step split: if_splits option.splits prod.splits bool.splits
        dest: authorization_step post_possibility_step connection_step range_fields
          post_after [OF _ plain_header_steps(1)] post_after [OF _ plain_header_steps(2)]\<close>)
qed

section \<open>The bytes ahead of a line\<close>

text \<open>
  What the walk over the lines relies on when the analysis of a line writes into the buffer: from
  the end \<open>k\<close> of the line on, terminators stay terminators, NULs stay NULs, and the second of two
  terminators is not touched.
\<close>

definition ahead :: "nat \<Rightarrow> string \<Rightarrow> string \<Rightarrow> bool" where
  "ahead k b b' \<longleftrightarrow> length b' = length b \<and>
     (\<forall>j. k \<le> j \<and> j < length b \<longrightarrow>
        (b ! j = NUL \<longrightarrow> b' ! j = NUL) \<and> (terminator (b ! j) \<longrightarrow> terminator (b' ! j))
        \<and> (k < j \<and> terminator (b ! (j - 1)) \<and> terminator (b ! j) \<longrightarrow> b' ! j = b ! j))"

lemma terminator_NUL [simp]: "terminator NUL"
  by (simp add: terminator_def)

lemma ahead_refl [simp]: "ahead k b b"
  by (simp add: ahead_def)

lemma ahead_same_tail:
  assumes "length b' = length b" and "drop m b' = drop m b" and "m \<le> k"
  shows "ahead k b b'"
proof -
  have "b' ! j = b ! j" if "m \<le> j" "j < length b" for j
    using arg_cong [OF assms(2), of "\<lambda>l. l ! (j - m)"] that assms(1) by simp
  then show ?thesis using assms(1,3) by (simp add: ahead_def)
qed

lemma nul_within_line:
  assumes "length b' = length b" and "drop k b' = drop k b" and "p \<le> k"
  shows "ahead k b (b'[p := NUL])"
proof -
  have "b' ! j = b ! j" if "k \<le> j" "j < length b" for j
    using arg_cong [OF assms(2), of "\<lambda>l. l ! (j - k)"] that assms(1) by simp
  then show ?thesis using assms(1,3) by (auto simp: ahead_def nth_list_update)
qed

text \<open>The NUL behind a boundary: at the first terminator after an equals sign, or at no terminator.\<close>

lemma boundary_nul_ahead:
  assumes "p < length b"
    and "\<not> terminator (b ! p) \<or> (\<exists>i. 0 < i \<and> i \<le> p \<and> \<not> terminator (b ! (i - 1)) \<and> (\<forall>j. i \<le> j \<and> j < p \<longrightarrow> \<not> terminator (b ! j)))"
  shows "ahead k b (b[p := NUL])"
proof -
  have "\<not> terminator (b ! (p - 1))" if "terminator (b ! p)" "k < p"
  proof -
    obtain i where i: "0 < i" "i \<le> p" "\<not> terminator (b ! (i - 1))" "\<forall>j. i \<le> j \<and> j < p \<longrightarrow> \<not> terminator (b ! j)"
      using assms(2) \<open>terminator (b ! p)\<close> by blast
    show ?thesis
    proof (cases "i = p")
      case False
      then have "i \<le> p - 1" "p - 1 < p" using i(2) by linarith+
      then show ?thesis using i(4) by blast
    qed (use i(3) in simp)
  qed
  then show ?thesis using assms(1) by (auto simp: ahead_def nth_list_update)
qed

lemma find_sub_Some: "find_sub pat s = Some k \<Longrightarrow> \<exists>u v. s = u @ pat @ v \<and> length u = k"
proof (induction s arbitrary: k)
  case Nil
  then show ?case by (subst (asm) find_sub.simps) (auto split: if_splits simp: prefix_def)
next
  case (Cons c s)
  show ?case
  proof (cases "prefix pat (c # s)")
    case True
    then show ?thesis using Cons.prems by (subst (asm) find_sub.simps) (auto simp: prefix_def)
  next
    case False
    then obtain m where "find_sub pat s = Some m" "k = Suc m"
      using Cons.prems by (subst (asm) find_sub.simps) auto
    then show ?thesis using Cons.IH [of m] by (metis append_Cons length_Cons)
  qed
qed

lemma strstr_Some:
  assumes "strstr mem pat = Some k" and "length pat = m"
  shows "k + m \<le> length mem \<and> take m (drop k mem) = pat"
proof -
  obtain u v where uv: "cstring mem = u @ pat @ v" "length u = k"
    using find_sub_Some assms(1) unfolding strstr_def by blast
  then have "take (length (u @ pat)) (cstring mem) = u @ pat" by simp
  moreover have "length (u @ pat) \<le> strlen mem" using uv by simp
  ultimately have "take (length (u @ pat)) mem = u @ pat"
    by (metis cstring_eq_take min_absorb1 take_take)
  then have "drop k (take (k + length pat) mem) = pat" using uv(2) by (simp add: add.commute)
  moreover have "k + length pat \<le> length mem" using uv strlen_le [of mem] by simp
  ultimately show ?thesis using assms(2) by (simp add: drop_take)
qed

lemma countString_bytes:
  assumes "countStringUntilNewLine bytes b n = Inr (bytes', k)" and "0 < n" and "b < length bytes"
  shows "bytes' = bytes \<and> k = 0 \<and> \<not> terminator (bytes ! b)
    \<or> b + k < length bytes \<and> bytes' = bytes[b + k := NUL] \<and> (\<forall>j. b \<le> j \<and> j < b + k \<longrightarrow> \<not> terminator (bytes ! j))"
proof -
  define t where "t = take n (drop b bytes)"
  define m where "m = length (takeWhile (\<lambda>c. \<not> terminator c) t)"
  have run: "\<not> terminator (bytes ! j)" if "b \<le> j" "j < b + m" for j
  proof -
    let ?w = "takeWhile (\<lambda>c. \<not> terminator c) t"
    have "j - b < length ?w" using that by (simp add: m_def)
    then have "?w ! (j - b) \<in> set ?w" by (rule nth_mem)
    then have "\<not> terminator (?w ! (j - b))" using set_takeWhileD by metis
    moreover have "?w ! (j - b) = t ! (j - b)" using \<open>j - b < length ?w\<close> by (rule takeWhile_nth)
    moreover have "j - b < length t"
      using \<open>j - b < length ?w\<close> length_takeWhile_le [of "\<lambda>c. \<not> terminator c" t] by linarith
    ultimately show ?thesis using \<open>b \<le> j\<close> assms(3) by (simp add: t_def)
  qed
  show ?thesis
  proof (cases "m = n")
    case True
    then have "\<not> terminator (bytes ! b)" using assms(2) by (intro run) simp_all
    then show ?thesis using True assms by (simp add: countStringUntilNewLine_def Let_def m_def t_def)
  next
    case False
    then have "write_at bytes (b + m) NUL = Inr bytes'" "k = m"
      using assms(1) by (auto simp: countStringUntilNewLine_def Let_def m_def t_def map_sum_eq_Inr)
    then show ?thesis using run by (auto simp: write_at_def split: if_splits)
  qed
qed

lemma content_type_ahead:
  assumes "content_type_line h offset n = Inr (h', r)" and "0 < n"
  shows "ahead k (headerBytes h) (headerBytes h')"
proof -
  let ?b = "headerBytes h"
  show ?thesis
  proof (cases "strstr (drop (offset + 13) ?b) ''boundary=''")
    case None
    then show ?thesis using assms(1) by (auto simp: content_type_line_def Let_def)
  next
    case (Some p)
    define b where "b = offset + 13 + p + 9"
    have "length ''boundary='' = 9" by simp
    note eq = strstr_Some [OF Some this]
    have "b \<le> length ?b" "take 9 (drop (offset + 13 + p) ?b) = ''boundary=''"
      using eq by (auto simp only: b_def length_drop drop_drop add.commute add.left_commute)
    note eq = this
    have "?b ! (b - 1) = take 9 (drop (offset + 13 + p) ?b) ! 8" using eq(1) by (simp add: b_def)
    also have "\<dots> = CHR ''=''" by (simp add: eq(2))
    finally have sign: "\<not> terminator (?b ! (b - 1))" by (simp add: terminator_def)
    have before: "\<exists>i. 0 < i \<and> i \<le> b + m \<and> \<not> terminator (?b ! (i - 1)) \<and> (\<forall>j. i \<le> j \<and> j < b + m \<longrightarrow> \<not> terminator (?b ! j))"
      if "\<forall>j. b \<le> j \<and> j < b + m \<longrightarrow> \<not> terminator (?b ! j)" for m
      using that sign by (intro exI [of _ b]) (simp add: b_def)
    obtain bytes m where c: "countStringUntilNewLine ?b b n = Inr (bytes, m)"
      and h': "headerBytes h' = bytes \<or> write_at bytes (b + m) NUL = Inr (headerBytes h')"
      using assms(1) Some
      by (auto simp: content_type_line_def Let_def attempt_eq_Inr b_def createPOSTData_def wipePOSTData_def split: if_splits)
    show ?thesis
    proof (cases "b < length ?b")
      case True
      from countString_bytes [OF c assms(2) True] show ?thesis
      proof (elim disjE conjE)
        assume "bytes = ?b" "m = 0" "\<not> terminator (?b ! b)"
        then show ?thesis using h' True boundary_nul_ahead [of b ?b k] by (auto simp: write_at_def)
      next
        assume w: "b + m < length ?b" "bytes = ?b[b + m := NUL]" "\<forall>j. b \<le> j \<and> j < b + m \<longrightarrow> \<not> terminator (?b ! j)"
        then have "headerBytes h' = ?b[b + m := NUL]" using h' by (auto simp: write_at_def)
        then show ?thesis using boundary_nul_ahead [OF w(1) disjI2, of k] before [OF w(3)] by simp
      qed
    next
      case False
      then have "countStringUntilNewLine ?b b n = Inl Out_of_bounds"
        using assms(2) eq(1) by (simp add: countStringUntilNewLine_def Let_def write_at_def)
      then show ?thesis using c by simp
    qed
  qed
qed

lemma boundary_bytes: "boundary_line h offset = Inr (h', r) \<Longrightarrow> headerBytes h' = headerBytes h"
  by (drule boundary_step) auto

lemma content_length_bytes: "content_length_line h offset n = (h', r) \<Longrightarrow> headerBytes h' = headerBytes h"
  by (auto simp: content_length_line_def split: option.splits if_splits)

lemma post_line_ahead:
  assumes "AnalyzePOSTLineRequest h offset n = Inr (h', r)" and "0 < n"
  shows "ahead k (headerBytes h) (headerBytes h')"
  using assms by (auto simp: AnalyzePOSTLineRequest_def boundary_bytes content_length_bytes
      split: postHeader.splits if_splits dest: content_type_ahead)

lemma post_possibility_ahead:
  assumes "post_possibility h offset n = Inr (h', r)" and "0 < n"
  shows "ahead k (headerBytes h) (headerBytes h')"
  using assms by (auto simp: post_possibility_def split: if_splits dest: post_line_ahead)

lemma drop_update_tail: "q < e \<Longrightarrow> drop e (mem[q := c]) = drop e mem"
  by (simp add: drop_update_cancel)

lemma cookie_loop_tail: "drop e (fst (cookie_loop a e mem p items)) = drop e mem"
proof (induction a e mem p items rule: cookie_loop.induct)
  case (1 a e mem p items)
  then show ?case by (subst cookie_loop.simps) (auto simp: Let_def cookie_stop_def drop_update_tail)
qed

lemma cookie_ahead:
  assumes "headerRAW h = Some base" and "offset + n \<le> length (headerBytes h)"
  shows "ahead (offset + n) (headerBytes h) (headerBytes (fst (finalizeCOOKIEData h (Some (base + offset + 7)) (n - 7))))"
proof (cases "n - 7 = 0")
  case True
  then show ?thesis by (simp add: finalizeCOOKIEData_def Let_def)
next
  case False
  let ?o = "offset + 7" and ?m = "drop (offset + 7) (headerBytes h)"
  let ?c = "fst (cookie_loop (base + offset + 7) (n - 7) ?m 0 [])"
  have bytes: "headerBytes (fst (finalizeCOOKIEData h (Some (base + offset + 7)) (n - 7))) = take ?o (headerBytes h) @ ?c"
    using False assms(1) by (simp add: finalizeCOOKIEData_def Let_def add.assoc split: prod.split)
  have o: "min (length (headerBytes h)) ?o = ?o" using False assms(2) by simp
  show ?thesis unfolding bytes
  proof (rule ahead_same_tail)
    show "length (take ?o (headerBytes h) @ ?c) = length (headerBytes h)"
      using o cookie_loop_length [of "base + offset + 7" "n - 7" ?m 0 "[]"] by simp
    show "drop (offset + n) (take ?o (headerBytes h) @ ?c) = drop (offset + n) (headerBytes h)"
      using o False cookie_loop_tail [of "n - 7" "base + offset + 7" ?m 0 "[]"] by (simp add: add.commute)
  qed simp
qed

lemma authorization_ahead:
  assumes "ProcessAuthorizationHTTPLine s h offset n p = Inr (h', r)"
    and "offset + n < length (headerBytes h)" and "terminator (headerBytes h ! (offset + n))"
  shows "ahead (offset + n) (headerBytes h) (headerBytes h')"
proof -
  define request where "request = drop offset (headerBytes h)"
  define q where "q = scan_while (\<lambda>c. c = SPC) request n (scan_while (\<lambda>c. c = SPC) request n (p + 1) + length ''Basic'')"
  define t where "t = trim_last_empty_chars request n"
  define k where "k = length (takeWhile (\<lambda>c. \<not> terminator c) (drop q t))"
  have len: "length t = length request" "n < length request"
    using assms(2) by (simp_all add: t_def trim_last_empty_chars_def request_def)
  have tail: "drop n t = drop n request" using len(2) by (simp add: t_def trim_last_empty_chars_def)
  note run = assms(1) [unfolded ProcessAuthorizationHTTPLine_def Let_def, folded request_def, folded q_def, folded t_def, folded k_def]
  show ?thesis
  proof (cases "q < n")
    case False
    then show ?thesis using run by simp
  next
    case True
    have "t ! n = request ! n" using arg_cong [OF tail, of hd] len by (simp add: hd_drop_conv_nth)
    then have "terminator (drop q t ! (n - q))" using True len assms(3) by (simp add: request_def)
    then have "k \<le> n - q"
      unfolding k_def using nth_mem takeWhile_nth set_takeWhileD [of _ "\<lambda>c. \<not> terminator c"] by (metis not_le)
    then have k: "q + k \<le> n" using True by simp
    have bytes: "headerBytes h' = take offset (headerBytes h) @ t[q + k := NUL]"
      using run True k len by (auto simp: map_sum_eq_Inr write_at_def split: if_splits)
    have "headerBytes h' = (take offset (headerBytes h) @ t)[offset + q + k := NUL]"
      using assms(2) by (simp add: bytes list_update_append)
    then show ?thesis
      using nul_within_line [of "take offset (headerBytes h) @ t" "headerBytes h" "offset + n" "offset + q + k"]
        k len tail assms(2) by (simp add: request_def add.commute)
  qed
qed

text \<open>The request line ends with the NUL at its second blank; nothing behind it is written.\<close>

lemma strlen_at_NUL: "m < length r \<Longrightarrow> r ! m = NUL \<Longrightarrow> strlen r \<le> m"
  unfolding cstring_def by (metis (mono_tags) linorder_not_le nth_mem set_takeWhileD takeWhile_nth)

lemma drop_same_nth: "drop m a = drop m b \<Longrightarrow> m \<le> j \<Longrightarrow> length a = length b \<Longrightarrow> j < length b \<Longrightarrow> a ! j = b ! j"
  by (drule arg_cong [of _ _ "\<lambda>l. l ! (j - m)"]) simp

lemma strip_query_tail:
  assumes "StripGETRequestQueryAndFragment (Some r) q = (Some r', b)" and "m < length r" and "r ! m = NUL"
  shows "drop m r' = drop m r \<and> length r' = length r"
proof -
  have "strlen r \<le> m" using strlen_at_NUL assms(2,3) by blast
  then show ?thesis using assms(1)
    by (auto simp: StripGETRequestQueryAndFragment_def Let_def drop_update_tail split: if_splits prod.splits)
qed

lemma strip_html_tail:
  assumes "StripHTMLCharacters_Inplace r True = Inr r'" and "m < length r" and "r ! m = NUL"
  shows "drop (m + 1) r' = drop (m + 1) r"
proof -
  have len: "strlen r \<le> m" using strlen_at_NUL assms(2,3) by blast
  show ?thesis
  proof (cases "2 < strlen r")
    case True
    have "drop (strlen r + 1) r' = drop (strlen r + 1) r"
      using StripHTML_cstring(3) [OF True _ assms(1)] len assms(2) by simp
    from arg_cong [OF this, of "drop (m - strlen r)"] show ?thesis using len by simp
  next
    case False
    then show ?thesis using assms(1) len
      by (auto simp: StripHTMLCharacters_Inplace_def Let_def mute_def drop_update_tail split: if_splits)
  qed
qed

lemma drop_glue: "length p \<le> m \<Longrightarrow> k = length p \<Longrightarrow> drop m (p @ drop k r) = drop m r"
  by simp

lemma drop_behind: "length p = k \<Longrightarrow> drop (k + d) (p @ mem) = drop d mem"
  by auto

lemma origin_form_tail:
  assumes "origin_form r = (moved, mem, absolute)" and "m < length r" and "r ! m = NUL"
  shows "drop m mem = drop m r \<and> moved \<le> m"
proof (cases "strncaseeq r ''http://'' 7 \<or> strncaseeq r ''https://'' 8")
  case False
  then show ?thesis using assms by (simp add: origin_form_def)
next
  case True
  then obtain k where k: "7 \<le> k" "k \<le> length r" "NUL \<notin> set (take k r)"
    and form: "origin_form r =
      (if c_at r k = CHR ''/'' then (k, r, True)
       else if c_at r k \<in> {CHR ''?'', CHR ''#''}
       then (0, CHR ''/'' # cstring (drop k r) @ NUL # drop (strlen (drop k r) + 2) r, True)
       else (0, CHR ''/'' # NUL # drop 2 r, True))"
    by (rule origin_form_absolute)
  have km: "k \<le> m" using k(2,3) assms(2,3) by (metis in_set_conv_nth length_take min_absorb2 not_le nth_take)
  have "drop k r ! (m - k) = NUL" "m - k < length (drop k r)" using km assms(2,3) by simp_all
  then have short: "strlen (drop k r) + 7 \<le> m" using strlen_at_NUL [of "m - k" "drop k r"] k(1) km by linarith
  have "drop m ((CHR ''/'' # cstring (drop k r) @ [NUL]) @ drop (strlen (drop k r) + 2) r) = drop m r"
    by (rule drop_glue) (use short in simp_all)
  moreover have "drop m ((CHR ''/'' # [NUL]) @ drop 2 r) = drop m r" by (rule drop_glue) (use k(1) km in simp_all)
  ultimately show ?thesis using assms(1) form km by (auto split: if_splits)
qed

lemma process_target_tail:
  assumes "process_target s h a mem = Inr (h', mem', ok)" and "m < length mem" and "mem ! m = NUL"
  shows "drop (m + 1) mem' = drop (m + 1) mem"
proof -
  obtain m0 q where m0: "StripGETRequestQueryAndFragment (Some mem) MAX_QUERY = (m0, q)" by fastforce
  then obtain m1 where "m0 = Some m1"
    by (auto simp: StripGETRequestQueryAndFragment_def Let_def split: prod.splits if_splits)
  with m0 have m1: "StripGETRequestQueryAndFragment (Some mem) MAX_QUERY = (Some m1, q)" by simp
  note tail = strip_query_tail [OF m1 assms(2,3)]
  have "m1 ! m = NUL" using drop_same_nth [of m m1 mem m] tail assms(2,3) by simp
  then have "drop (m + 1) m2 = drop (m + 1) m1" if "StripHTMLCharacters_Inplace m1 True = Inr m2" for m2
    using strip_html_tail [OF that] tail assms(2) by simp
  moreover have "drop (m + 1) m1 = drop (m + 1) mem"
    using arg_cong [of _ _ "drop 1", OF conjunct1 [OF tail]] by simp
  ultimately show ?thesis using assms(1)
    by (auto simp: process_target_def Let_def m1 split: if_splits sum.splits)
qed

lemma first_line_ahead:
  assumes "ProcessFirstHTTPLine s h offset n = Inr (h', r)" and "offset + n \<le> length (headerBytes h)"
  shows "ahead (offset + n) (headerBytes h) (headerBytes h')"
proof -
  define request where "request = drop offset (headerBytes h)"
  obtain meth k where lm: "line_method (requestType h) (scanFor_firstLines (Some request) n) = (meth, k)"
    by fastforce
  define b where "b = scan_while (\<lambda>c. c = SPC) request n k"
  define e where "e = scan_while (\<lambda>c. c \<noteq> SPC) request n b"
  obtain moved mem absolute where o: "origin_form (drop b (request[e := NUL])) = (moved, mem, absolute)"
    using prod_cases3 by blast
  note run = assms(1) [unfolded ProcessFirstHTTPLine_def Let_def request_def [symmetric] lm prod.case b_def [symmetric]
      e_def [symmetric] o]
  have same: "length (headerBytes h') = length (headerBytes h)"
    using first_line_step [OF assms] by (simp add: line_step_defs)
  show ?thesis
  proof (cases "n < 3 \<or> meth \<notin> {GET, HEAD, POST} \<or> b \<ge> n \<or> e \<ge> n")
    case True
    then show ?thesis using run by (auto split: if_splits)
  next
    case False
    then obtain g g' mem' ok where t: "process_target s g (the (headerRAW h) + (offset + b + moved)) (drop moved mem) = Inr (g', mem', ok)"
      and h': "headerBytes h' = take offset (headerBytes g') @ take b (request[e := NUL]) @ take moved mem @ mem'"
      and g: "headerBytes g = headerBytes h"
      using run by (fastforce split: sum.splits prod.splits)
    let ?r = "drop b (request[e := NUL])"
    have "b \<le> e" unfolding e_def by (rule scan_while_ge)
    have len: "length request = length (headerBytes h) - offset" by (simp add: request_def)
    then have nul: "e - b < length ?r" "?r ! (e - b) = NUL" using False \<open>b \<le> e\<close> assms(2) by auto
    then have "NUL \<in> set ?r" by (metis nth_mem)
    note form = origin_form_ends [OF o this] origin_form_tail [OF o nul]
    define E where "E = e - b"
    note nul = nul [folded E_def] and form = form [folded E_def]
    have at: "E - moved < length (drop moved mem)" "drop moved mem ! (E - moved) = NUL"
      using form nul drop_same_nth [of E mem ?r E] by (auto simp del: diff_diff_left)
    have g': "headerBytes g' = headerBytes h" "length mem' = length mem - moved"
      using process_target_step [OF t] form g by auto
    have "drop (E - moved + 1) mem' = drop (E + 1) mem"
      using process_target_tail [OF t at] form by simp
    moreover have n: "n - b = n - e + E" "n - e = 1 + (n - e - 1)" using \<open>b \<le> e\<close> False by (auto simp: E_def)
    then have "n - b - moved = E - moved + 1 + (n - e - 1)" "n - b = E + 1 + (n - e - 1)"
      using conjunct2 [OF form(2)] by linarith+
    ultimately have "drop (n - b - moved) mem' = drop (n - b) mem" by (metis add.commute drop_drop)
    also have "... = drop (n - b) ?r"
      using conjunct1 [OF form(2)] n(1) by (metis add.commute drop_drop)
    also have "... = drop (offset + n) (headerBytes h)"
      using False \<open>b \<le> e\<close> by (simp add: request_def drop_update_tail add.commute)
    finally have tail: "drop (n - b - moved) mem' = drop (offset + n) (headerBytes h)" .
    let ?p = "take offset (headerBytes g') @ take b (request[e := NUL]) @ take moved mem"
    have "min (length (headerBytes h) - offset) b = b" "min (length (headerBytes h)) offset = offset"
      using False assms(2) by auto
    then have p: "length ?p = offset + b + moved" using form len by (simp add: g')
    have "moved \<le> E" "E \<le> n - b" using form False by (auto simp: E_def)
    then have k: "offset + b + moved + (n - b - moved) = offset + n" using False by linarith
    have "drop (offset + n) (headerBytes h') = drop (offset + b + moved + (n - b - moved)) (?p @ mem')"
      by (simp only: k h' append_assoc)
    also have "... = drop (n - b - moved) mem'" by (rule drop_behind [OF p])
    finally have "drop (offset + n) (headerBytes h') = drop (offset + n) (headerBytes h)" by (simp only: tail)
    then show ?thesis using same by (intro ahead_same_tail [of _ _ "offset + n"]) simp_all
  qed
qed

lemma plain_header_bytes [simp]:
  "headerBytes (if_none_match_line h a request n) = headerBytes h" "headerBytes (expect_line h request n) = headerBytes h"
  "headerBytes (transfer_encoding_line h request n) = headerBytes h" "headerBytes (no_range h) = headerBytes h"
  by (simp_all add: if_none_match_line_def expect_line_def transfer_encoding_line_def Let_def no_range_def split: prod.split)

lemma range_bytes: "ParseRangeHTTPLine h v n = (h', r) \<Longrightarrow> headerBytes h' = headerBytes h"
  by (auto simp: ParseRangeHTTPLine_def range_spec_def Let_def a_range_def split: if_splits option.splits)

lemma connection_bytes: "connection_line s h request n = Some h' \<Longrightarrow> headerBytes h' = headerBytes h"
  by (auto simp: connection_line_def split: if_splits)

lemma post_possibility_ahead_of:
  assumes "post_possibility g offset n = Inr (h', r)" and "0 < n" and "headerBytes g = headerBytes h"
  shows "ahead k (headerBytes h) (headerBytes h')"
  using post_possibility_ahead [OF assms(1,2), of k] assms(3) by simp

lemma header_line_ahead:
  assumes "AnalyzeHTTPLineRequest s h offset n line = Inr (h', r)" and "0 < n" and "headerRAW h = Some base"
    and "offset + n < length (headerBytes h)" and "terminator (headerBytes h ! (offset + n))"
  shows "ahead (offset + n) (headerBytes h) (headerBytes h')"
proof (cases "line = 1")
  case True
  then show ?thesis using assms first_line_ahead [of s h offset n] by (simp add: AnalyzeHTTPLineRequest_def)
next
  case False
  have cookie: "ahead (offset + n) (headerBytes h) (headerBytes (fst (finalizeCOOKIEData (h\<lparr>h_cookie := c\<rparr>) (Some (base + offset + 7)) (n - 7))))" for c
    using cookie_ahead [of "h\<lparr>h_cookie := c\<rparr>" base offset n] assms(3,4) by simp
  note post = post_possibility_ahead_of [OF _ assms(2), where h = h and k = "offset + n"]
  show ?thesis
  proof (cases "scanFor_httpHeader (Some (drop offset (headerBytes h))) n")
    case HTTPHEADER_AUTHORIZATION
    then show ?thesis using assms(1) False post authorization_ahead [OF _ assms(4,5)]
      by (auto simp: AnalyzeHTTPLineRequest_def split: if_splits)
  next
    case HTTPHEADER_COOKIE
    have "length ''COOKIE:'' = 7" by simp
    then have "header_span a ''COOKIE:'' n = (Some (a + 7), n - 7)" for a by (simp only: header_span_def)
    then show ?thesis using assms(1,3) False cookie HTTPHEADER_COOKIE
      by (auto simp: AnalyzeHTTPLineRequest_def Let_def)
  next
    case HTTPHEADER_CONNECTION
    then show ?thesis using assms(1) False post
      by (auto simp: AnalyzeHTTPLineRequest_def connection_bytes split: option.splits)
  next
    case HTTPHEADER_RANGE
    then show ?thesis using assms(1) False
      by (auto simp: AnalyzeHTTPLineRequest_def Let_def dest: range_bytes split: prod.splits bool.splits)
  next
    case HTTPHEADER_IF_MODIFIED_SINCE
    then show ?thesis using assms(1) False by (auto simp: AnalyzeHTTPLineRequest_def Let_def split: option.splits)
  next
    case HTTPHEADER_IF_UNMODIFIED_SINCE
    then show ?thesis using assms(1) False by (auto simp: AnalyzeHTTPLineRequest_def Let_def split: option.splits)
  qed (use assms(1) False post in \<open>auto simp: AnalyzeHTTPLineRequest_def Let_def\<close>)
qed

end
