(* ===== verification/Receive.thy ===== *)
theory Receive
  imports HeaderLines
begin

text \<open>
  Receiving a request: the walk over the lines that have arrived (\<open>keepAnalyzingHTTPHeader\<close> of
  \<open>src/AmmServerlib/header_analysis/generic_header_tools.c\<close>) and the loop around it
  (\<open>src/AmmServerlib/network/recvHTTPHeader.c\<close>).  What the system answers to one round of the loop
  (\<open>recv\<close>, \<open>send\<close> of the interim response, \<open>realloc\<close>, the flag that stops the server) is an
  \<open>io_round\<close>; a connection is a list of them.
\<close>

section \<open>The lines that have arrived\<close>

text \<open>
  A line of the body is only looked at by a POST.  \<open>i\<close> and \<open>requestLength\<close> count from
  \<open>startOffset\<close>, \<open>startOfNewLine\<close> from the start of the buffer.
\<close>

definition analyze_line :: "http_settings \<Rightarrow> http_header \<Rightarrow> nat \<Rightarrow> nat \<Rightarrow> http_header checked" where
  "analyze_line s h startOfNewLine newLineLength =
     (let h = h\<lparr>parsingCurrentLine := parsingCurrentLine h + 1\<rparr>;
          lineIsBody = (headerRAWHeadSize h > 0 \<and> startOfNewLine \<ge> headerRAWHeadSize h + 1)
      in map_sum id fst
           (if lineIsBody then post_possibility h startOfNewLine newLineLength
            else AnalyzeHTTPLineRequest s h startOfNewLine newLineLength (parsingCurrentLine h)))"

lemma Cap_le: "CapRequestLengthToHeaderEnd h startOffset n \<le> n"
  by (simp add: CapRequestLengthToHeaderEnd_def Let_def)

function walk_lines :: "http_settings \<Rightarrow> nat \<Rightarrow> http_header \<Rightarrow> nat \<Rightarrow> nat \<Rightarrow> nat \<Rightarrow> nat \<Rightarrow> http_header checked" where
  "walk_lines s startOffset h requestLength i newLineLength startOfNewLine =
     (let requestLength' = CapRequestLengthToHeaderEnd h startOffset requestLength
      in if i < requestLength \<and> i < requestLength' then
           (case read_at (headerBytes h) (startOffset + i) of
              Inl f \<Rightarrow> Inl f
            | Inr r \<Rightarrow>
                if (r = CR \<or> r = LF) \<and> newLineLength > 0 then
                  (case analyze_line s h startOfNewLine newLineLength of
                     Inl f \<Rightarrow> Inl f
                   | Inr h \<Rightarrow>
                       (case read_at (headerBytes h) (startOffset + (i + 1)) of
                          Inl f \<Rightarrow> Inl f
                        | Inr r \<Rightarrow>
                            (let i = (if r = CR \<or> r = LF then i + 1 else i); start = startOffset + (i + 1)
                             in walk_lines s startOffset (h\<lparr>parsingStartOffset := start\<rparr>) requestLength' (i + 1) 0 start)))
                else walk_lines s startOffset h requestLength' (i + 1) (newLineLength + 1) startOfNewLine)
         else Inr h)"
  by pat_completeness auto
termination
proof (relation "measure (\<lambda>(s, startOffset, h, n, i, _). n - i)", goal_cases)
  case (2 s startOffset h n i l st n' r h2 r2 i2 st2)
  then show ?case using Cap_le [of h startOffset n] by (auto split: if_splits)
next
  case (3 s startOffset h n i l st n' r)
  then show ?case using Cap_le [of h startOffset n] by auto
qed simp

declare walk_lines.simps [simp del]

definition keepAnalyzingHTTPHeader :: "http_settings \<Rightarrow> http_header \<Rightarrow> (http_header \<times> bool) checked" where
  "keepAnalyzingHTTPHeader s h =
     (if headerRAW h = None \<or> headerRAWSize h = 0 then Inr (h, False)
      else
        (let h = found_head_size h;
             startOffset = parsingStartOffset h;
             requestLength = CapRequestLengthToHeaderEnd h startOffset (headerRAWSize h - startOffset);
             requestLength = min requestLength (MAXheaderRAWSize h)
         in map_sum id (\<lambda>h. (h, True)) (walk_lines s startOffset h requestLength 0 0 startOffset)))"

section \<open>Validation\<close>

text \<open>The status that is sent, None when the request is valid so far.\<close>

definition validation :: "http_settings \<Rightarrow> http_header \<Rightarrow> nat option" where
  "validation s h =
     (if requestType h = BAD \<or> requestType h = NONE then None
      else if hostHeaderCount h > 1 then Some 400
      else if fst (httpVersion h) = 1 \<and> snd (httpVersion h) \<ge> 1 \<and> hostHeaderCount h = 0 then Some 400
      else if chunked h \<and> hasContentLength h then Some 400
      else if contentLengthInvalid h then Some 400
      else if transferEncodingUnsupported h then Some 501
      else if chunked h \<and> requestType h \<noteq> POST then Some 400
      else if requestType h = POST \<and> hasContentLength h \<and> ContentLength h > MAX_POST_TRANSACTION_SIZE s then Some 413
      else if expectUnsupported h then Some 417
      else if expectContinue h \<and> requestType h = POST \<and> (\<not> ENABLE_POST s \<or> \<not> MASTER_ENABLE_POST) then Some 417
      else None)"

lemma validation_unaffected [simp]:
  "validation s (h\<lparr>headerBytes := bs\<rparr>) = validation s h"
  "validation s (h\<lparr>headerRAWSize := n\<rparr>) = validation s h"
  "validation s (h\<lparr>headerRAWHeadSize := n\<rparr>) = validation s h"
  "validation s (h\<lparr>headerRAWRequestedSize := n\<rparr>) = validation s h"
  "validation s (h\<lparr>parsingStartOffset := n\<rparr>) = validation s h"
  "validation s (h\<lparr>parsingCurrentLine := n\<rparr>) = validation s h"
  "validation s (h\<lparr>POSTItem := items\<rparr>) = validation s h"
  "validation s (h\<lparr>headerValidated := b\<rparr>) = validation s h"
  "validation s (h\<lparr>expectContinueSent := b\<rparr>) = validation s h"
  "validation s (h\<lparr>keepalive := b\<rparr>) = validation s h"
  "validation s (h\<lparr>failed := b\<rparr>) = validation s h"
  "validation s (h\<lparr>errorResponseCode := n\<rparr>) = validation s h"
  "validation s (h\<lparr>responseAlreadySent := b\<rparr>) = validation s h"
  "validation s (h\<lparr>headerRAW := a\<rparr>) = validation s h"
  "validation s (h\<lparr>MAXheaderRAWSize := n\<rparr>) = validation s h"
  unfolding validation_def by (intro if_cong; simp)+

definition aborted :: "http_header \<Rightarrow> http_header" where
  "aborted h = h\<lparr>keepalive := False, responseAlreadySent := True\<rparr>"

definition ValidateParsedRequest :: "http_settings \<Rightarrow> http_header \<Rightarrow> http_header \<times> nat option" where
  "ValidateParsedRequest s h =
     (if headerValidated h then (h, None)
      else if headerRAWHeadSize h = 0 then (h, None)
      else
        (let h = h\<lparr>headerValidated := True\<rparr>
         in case validation s h of
              Some status \<Rightarrow> (aborted h, Some status)
            | None \<Rightarrow>
                (if requestType h = BAD \<or> requestType h = NONE then h
                 else h\<lparr>keepalive := keepalive h \<and> KEEPALIVE_ENABLED s\<rparr>, None)))"

section \<open>A round of the loop\<close>

datatype recv_answer = Recv_error bool | Recv_data string

text \<open>\<open>Recv_error\<close> says whether \<open>errno\<close> is \<open>EWOULDBLOCK\<close>; no data is a shutdown by the client.\<close>

record io_round =
  server_running :: bool
  recv_answer :: recv_answer
  continue_sent :: bool
  realloc_answer :: ptr

text \<open>\<open>statuses\<close> logs what the receive path has answered itself; 100 is the interim response.\<close>

record http_transaction =
  incomingHeader :: http_header
  clientDisconnected :: bool
  statuses :: "nat list"

definition MAX_HTTP_REQUEST_HEADER :: nat where "MAX_HTTP_REQUEST_HEADER = 8 * 1024"
definition EXTRA_SPACE :: nat where "EXTRA_SPACE = 32"

definition AbortRequestWithError :: "http_transaction \<Rightarrow> nat \<Rightarrow> http_transaction" where
  "AbortRequestWithError t status = t\<lparr>incomingHeader := aborted (incomingHeader t), statuses := statuses t @ [status]\<rparr>"

text \<open>New bytes and the NUL behind them.\<close>

definition arrived :: "http_header \<Rightarrow> string \<Rightarrow> http_header checked" where
  "arrived h bs =
     (let n = headerRAWSize h + length bs
      in if n < length (headerBytes h)
         then Inr (h\<lparr>headerBytes := take (headerRAWSize h) (headerBytes h) @ bs @ NUL # drop (n + 1) (headerBytes h),
                     headerRAWSize := n\<rparr>)
         else Inl Out_of_bounds)"

definition waits_for_continue :: "http_header \<Rightarrow> bool" where
  "waits_for_continue h \<longleftrightarrow>
     expectContinue h \<and> \<not> expectContinueSent h \<and> headerRAWHeadSize h \<noteq> 0 \<and> requestType h = POST
     \<and> (chunked h \<or> ContentLength h > 0)"

definition wants_room :: "http_settings \<Rightarrow> http_header \<Rightarrow> bool" where
  "wants_room s h \<longleftrightarrow>
     headerRAWSize h \<ge> MAXheaderRAWSize h \<and> requestType h = POST \<and> ENABLE_POST s \<and> MASTER_ENABLE_POST"

text \<open>What is left of a round when the request is not complete; \<open>Some ok\<close> ends the loop.\<close>

definition incomplete_request ::
    "http_settings \<Rightarrow> io_round \<Rightarrow> http_transaction \<Rightarrow> (http_transaction \<times> bool option) checked" where
  "incomplete_request s r t =
     (let h = incomingHeader t; waits = waits_for_continue h
      in if waits \<and> \<not> continue_sent r then Inr (t, Some False)
         else
           (let t = (if waits then t\<lparr>incomingHeader := h\<lparr>expectContinueSent := True\<rparr>, statuses := statuses t @ [100]\<rparr>
                     else t)
            in if wants_room s (incomingHeader t) then
                 map_sum id (\<lambda>(h, grown). (t\<lparr>incomingHeader := h\<rparr>, if grown then None else Some False))
                   (growHeader (realloc_answer r) s (incomingHeader t))
               else Inr (t, None)))"

definition analyzed_request ::
    "http_settings \<Rightarrow> io_round \<Rightarrow> http_transaction \<Rightarrow> (http_transaction \<times> bool option) checked" where
  "analyzed_request s r t =
     (case ValidateParsedRequest s (incomingHeader t) of
        (h, Some status) \<Rightarrow> Inr (t\<lparr>incomingHeader := h, statuses := statuses t @ [status]\<rparr>, Some False)
      | (h, None) \<Rightarrow>
          (case HTTPRequestIsComplete s h of
             (h, True) \<Rightarrow>
               (let t = t\<lparr>incomingHeader := h\<rparr>
                in if failed h \<and> errorResponseCode h \<noteq> 0
                   then Inr (AbortRequestWithError t (errorResponseCode h), Some False) else Inr (t, Some True))
           | (h, False) \<Rightarrow> incomplete_request s r (t\<lparr>incomingHeader := h\<rparr>)))"

text \<open>\<open>recv\<close> returns at most the bytes it was asked for.\<close>

definition receive_round ::
    "http_settings \<Rightarrow> io_round \<Rightarrow> http_transaction \<Rightarrow> (http_transaction \<times> bool option) checked" where
  "receive_round s r t =
     (let h = incomingHeader t
      in case recv_answer r of
           Recv_error would_block \<Rightarrow>
             Inr (t\<lparr>clientDisconnected := clientDisconnected t \<or> would_block \<and> headerRAWSize h = 0\<rparr>, Some False)
         | Recv_data bs \<Rightarrow>
             (let bs = take (MAXheaderRAWSize h - headerRAWSize h) bs
              in if bs = [] then Inr (t, Some False)
                 else
                   attempt (arrived h bs) (\<lambda>h.
                     attempt (keepAnalyzingHTTPHeader s h) (\<lambda>(h, ok).
                       if \<not> ok then Inr (t\<lparr>incomingHeader := h\<rparr>, Some True)
                       else analyzed_request s r (t\<lparr>incomingHeader := h\<rparr>)))))"

text \<open>The loop; None: it waits for the next answer of the system.\<close>

fun receive_loop ::
    "http_settings \<Rightarrow> io_round list \<Rightarrow> http_transaction \<Rightarrow> (http_transaction \<times> bool option) checked" where
  "receive_loop s [] t = Inr (t, None)"
| "receive_loop s (r # rs) t =
     (if failed (incomingHeader t) \<or> \<not> server_running r then Inr (t, Some True)
      else
        attempt (receive_round s r t)
          (\<lambda>(t, res). case res of Some ok \<Rightarrow> Inr (t, Some ok) | None \<Rightarrow> receive_loop s rs t))"

text \<open>The transaction before the first \<open>recv\<close>; \<open>a\<close> is what \<open>malloc\<close> returned.\<close>

definition fresh_transaction :: "nat \<Rightarrow> http_transaction" where
  "fresh_transaction a =
     \<lparr>incomingHeader = clearHeader\<lparr>headerRAW := Some a, MAXheaderRAWSize := MAX_HTTP_REQUEST_HEADER,
        headerBytes := replicate (MAX_HTTP_REQUEST_HEADER + EXTRA_SPACE) NUL\<rparr>,
      clientDisconnected = False, statuses = []\<rparr>"

section \<open>A line of the walk\<close>

text \<open>What every line keeps, and the shape of a line of the body.\<close>

abbreviation next_line :: "http_header \<Rightarrow> http_header" where
  "next_line h \<equiv> h\<lparr>parsingCurrentLine := parsingCurrentLine h + 1\<rparr>"

lemma analyze_line_step:
  assumes "analyze_line s h p l = Inr h'" and "0 < l" and "headerRAW h = Some base"
    and "p + l < length (headerBytes h)" and "terminator (headerBytes h ! (p + l))"
  shows "line_step (next_line h) h' \<and> ahead (p + l) (headerBytes h) (headerBytes h')"
proof (cases "headerRAWHeadSize h > 0 \<and> p \<ge> headerRAWHeadSize h + 1")
  case True
  then obtain r where "post_possibility (next_line h) p l = Inr (h', r)"
    using assms(1) by (auto simp: analyze_line_def map_sum_eq_Inr)
  then show ?thesis using post_possibility_step post_possibility_ahead [OF _ assms(2)] by fastforce
next
  case False
  then obtain r where r: "AnalyzeHTTPLineRequest s (next_line h) p l (parsingCurrentLine h + 1) = Inr (h', r)"
    using assms(1) by (auto simp: analyze_line_def Let_def map_sum_eq_Inr)
  show ?thesis
    using header_line_step [OF r] header_line_ahead [OF r assms(2), of base] assms(3-5) by simp
qed

definition body_change :: "http_header \<Rightarrow> http_header \<Rightarrow> bool" where
  "body_change h h' \<longleftrightarrow>
     (\<exists>items line start. h' = h\<lparr>POSTItem := items, parsingCurrentLine := line, parsingStartOffset := start\<rparr>)"

lemma body_change_refl [simp]: "body_change h h"
  unfolding body_change_def by (intro exI [of _ "POSTItem h"] exI [of _ "parsingCurrentLine h"] exI [of _ "parsingStartOffset h"]) simp

lemma body_change_trans: "body_change h g \<Longrightarrow> body_change g k \<Longrightarrow> body_change h k"
  unfolding body_change_def by (elim exE) (simp, blast)

lemma post_body_change:
  assumes "post_possibility h p l = Inr (h', r)" and "headerRAW h \<noteq> None"
    and "headerRAWHeadSize h > 0 \<and> p \<ge> headerRAWHeadSize h + 1"
  shows "\<exists>items. h' = h\<lparr>POSTItem := items\<rparr>"
  using assms post_body_step [of h p l h' r]
  by (auto simp: post_possibility_def POSTLineIsBody_def split: if_splits intro: exI [of _ "POSTItem h"])

text \<open>A line that starts with a LF is no header.\<close>

lemma lf_line:
  assumes "AnalyzeHTTPLineRequest s h p l line = Inr (h', r)" and "line \<noteq> 1" and "p < length (headerBytes h)"
    and "headerBytes h ! p = LF"
  shows "\<exists>items. h' = h\<lparr>POSTItem := items\<rparr>"
proof -
  let ?r = "drop p (headerBytes h)"
  have c: "c_at ?r 0 = LF" using assms(3,4) by (simp add: c_at_def)
  have up: "toupper LF = LF" by code_simp
  have "scanFor_httpHeader (Some ?r) l = HTTPHEADER_EMPTY" "scanFor_postHeader (Some ?r) l = POSTHEADER_EMPTY"
    by (simp_all add: scanFor_httpHeader_def scanFor_postHeader_def scanner_def switch_def c up)
  then show ?thesis using assms(1,2)
    by (auto simp: AnalyzeHTTPLineRequest_def post_possibility_def AnalyzePOSTLineRequest_def split: if_splits
        dest: boundary_step intro: exI [of _ "POSTItem h"])
qed

text \<open>
  The walk has left the header: the next line starts behind it, or is the one whose first
  character is the LF at the end of a header that ends in CR, LF, LF.
\<close>

definition settled :: "http_header \<Rightarrow> bool" where
  "settled h \<longleftrightarrow> headerRAWHeadSize h > 0 \<and> 0 < parsingCurrentLine h \<and>
     (parsingStartOffset h > headerRAWHeadSize h
      \<or> parsingStartOffset h = headerRAWHeadSize h \<and> headerBytes h ! headerRAWHeadSize h = LF)"

lemma settled_line:
  assumes "analyze_line s h p l = Inr h'" and "settled h" and "p = parsingStartOffset h" and "headerRAW h \<noteq> None"
    and "p < length (headerBytes h)"
  shows "\<exists>items. h' = (next_line h)\<lparr>POSTItem := items\<rparr>"
proof (cases "p \<ge> headerRAWHeadSize h + 1")
  case True
  then obtain r where "post_possibility (next_line h) p l = Inr (h', r)"
    using assms(1,2) by (auto simp: analyze_line_def map_sum_eq_Inr settled_def)
  from post_body_change [OF this] show ?thesis using True assms(2,4) by (simp add: settled_def)
next
  case False
  then obtain r where r: "AnalyzeHTTPLineRequest s (next_line h) p l (parsingCurrentLine h + 1) = Inr (h', r)"
    using assms(1) by (auto simp: analyze_line_def Let_def map_sum_eq_Inr)
  show ?thesis using lf_line [OF r] False assms(2,3,5) by (auto simp: settled_def)
qed

section \<open>The walk\<close>

text \<open>Where the walk is: at \<open>startOffset+i\<close>, in the middle of the line that starts at \<open>p\<close>.\<close>

definition walking :: "http_header \<Rightarrow> nat \<Rightarrow> nat \<Rightarrow> nat \<Rightarrow> nat \<Rightarrow> nat \<Rightarrow> bool" where
  "walking h st n i l p \<longleftrightarrow>
     p + l = st + i \<and> parsingStartOffset h = p \<and> p \<le> headerRAWSize h \<and> st + n \<le> headerRAWSize h
     \<and> headerRAWSize h < length (headerBytes h) \<and> headerBytes h ! headerRAWSize h = NUL
     \<and> headerRAW h \<noteq> None \<and> (0 < p \<longrightarrow> 0 < parsingCurrentLine h)"

definition walk_step :: "http_header \<Rightarrow> http_header \<Rightarrow> bool" where
  "walk_step h h' \<longleftrightarrow>
     fst (buffer_of h') = fst (buffer_of h) \<and> framing_grows h h' \<and> failed h' = failed h
     \<and> headerValidated h' = headerValidated h \<and> errorResponseCode h' = errorResponseCode h"

lemmas walk_step_defs = walk_step_def buffer_of_def framing_grows_def

lemma walk_step_refl [simp]: "walk_step h h"
  by (simp add: walk_step_defs)

lemma walk_step_trans: "walk_step h g \<Longrightarrow> walk_step g k \<Longrightarrow> walk_step h k"
  by (auto simp: walk_step_defs)

lemma line_step_walk: "line_step (next_line h) g \<Longrightarrow> walk_step h (g\<lparr>parsingStartOffset := q\<rparr>)"
  by (auto simp: line_step_def walk_step_defs)

lemma walking_char: "walking h st n i l p \<Longrightarrow> i < n \<Longrightarrow> st + i < length (headerBytes h)"
  by (simp add: walking_def)

lemma walking_step: "walking h st n i l p \<Longrightarrow> n' \<le> n \<Longrightarrow> walking h st n' (i + 1) (l + 1) p"
  by (simp add: walking_def)

lemma walking_line:
  assumes "walking h st n i l p" and "i < n" and "n' \<le> n" and "0 < l"
    and "headerBytes h ! (st + i) = CR \<or> headerBytes h ! (st + i) = LF"
    and "analyze_line s h p l = Inr g" and "read_at (headerBytes g) (st + (i + 1)) = Inr r"
    and j: "j = (if r = CR \<or> r = LF then i + 1 else i) + 1"
  shows "walking (g\<lparr>parsingStartOffset := st + j\<rparr>) st n' j 0 (st + j)" and "walk_step h (g\<lparr>parsingStartOffset := st + j\<rparr>)"
    and "ahead (st + i) (headerBytes h) (headerBytes g)"
proof -
  note w = assms(1) [unfolded walking_def]
  obtain base where base: "headerRAW h = Some base" using w by blast
  have line: "p + l = st + i" "st + i < length (headerBytes h)" "terminator (headerBytes h ! (st + i))"
    using w assms(2,5) by (auto simp: terminator_def)
  have step: "line_step (next_line h) g" "ahead (st + i) (headerBytes h) (headerBytes g)"
    using analyze_line_step [OF assms(6,4) base] line by simp_all
  have same: "headerRAW g = headerRAW h" "length (headerBytes g) = length (headerBytes h)"
    "headerRAWSize g = headerRAWSize h" "parsingCurrentLine g = parsingCurrentLine h + 1"
    using step(1) by (simp_all add: line_step_defs)
  have nul: "headerBytes g ! headerRAWSize h = NUL" using step(2) w assms(2) by (auto simp: ahead_def)
  have "st + j \<le> headerRAWSize h"
  proof (cases "st + (i + 1) = headerRAWSize h")
    case True
    then have "r = NUL" using assms(7) nul by (auto simp: read_at_def split: if_splits)
    then show ?thesis using True j by simp
  next
    case False
    then show ?thesis using w assms(2) j by auto
  qed
  then show "walking (g\<lparr>parsingStartOffset := st + j\<rparr>) st n' j 0 (st + j)"
    using w nul assms(3) by (simp add: walking_def same)
  show "walk_step h (g\<lparr>parsingStartOffset := st + j\<rparr>)" by (rule line_step_walk [OF step(1)])
  show "ahead (st + i) (headerBytes h) (headerBytes g)" by (rule step(2))
qed

text \<open>One round of the walk, in the three ways it can go.\<close>

lemma walk_cases:
  assumes "walk_lines s st h n i l p = Inr h'" and "n' = CapRequestLengthToHeaderEnd h st n"
  obtains (stop) "\<not> i < n'" and "h' = h"
  | (char) "i < n'" and "\<not> ((headerBytes h ! (st + i) = CR \<or> headerBytes h ! (st + i) = LF) \<and> 0 < l)"
      and "walk_lines s st h n' (i + 1) (l + 1) p = Inr h'"
  | (line) g r j where "i < n'" and "0 < l" and "headerBytes h ! (st + i) = CR \<or> headerBytes h ! (st + i) = LF"
      and "analyze_line s h p l = Inr g" and "read_at (headerBytes g) (st + (i + 1)) = Inr r"
      and "j = (if r = CR \<or> r = LF then i + 1 else i) + 1"
      and "walk_lines s st (g\<lparr>parsingStartOffset := st + j\<rparr>) n' j 0 (st + j) = Inr h'"
proof -
  have n': "n' \<le> n" using assms(2) Cap_le by simp
  from assms(1) show ?thesis
    by (subst (asm) walk_lines.simps)
      (use n' that in \<open>auto simp: Let_def assms(2) [symmetric] read_at_def split: if_splits sum.splits\<close>)
qed

definition buffer_ok :: "http_header \<Rightarrow> bool" where
  "buffer_ok h \<longleftrightarrow> headerRAW h \<noteq> None \<and> headerRAWSize h \<le> MAXheaderRAWSize h
     \<and> MAXheaderRAWSize h < length (headerBytes h) \<and> headerBytes h ! headerRAWSize h = NUL
     \<and> parsingStartOffset h \<le> headerRAWSize h \<and> (0 < parsingStartOffset h \<longrightarrow> 0 < parsingCurrentLine h)"

lemma walk_keeps:
  assumes "walk_lines s st h n i l p = Inr h'" and "walking h st n i l p"
  shows "walk_step h h' \<and> (buffer_ok h \<longrightarrow> buffer_ok h')"
  using assms
proof (induction "n - i" arbitrary: h n i l p rule: less_induct)
  case less
  let ?n = "CapRequestLengthToHeaderEnd h st n"
  have n: "?n \<le> n" by (rule Cap_le)
  from less.prems(1) refl [of ?n] show ?case
  proof (cases rule: walk_cases)
    case char
    have "?n - (i + 1) < n - i" using char(1) n by linarith
    from less.hyps [OF this char(3) walking_step [OF less.prems(2) n]] show ?thesis .
  next
    case (line g r j)
    have i: "i < n" using line(1) n by simp
    note at = walking_line [OF less.prems(2) i n line(2-6)]
    have "?n - j < n - i" using line(1,6) n by (auto split: if_splits)
    note IH = less.hyps [OF this line(7) at(1)]
    have "buffer_ok h \<longrightarrow> buffer_ok (g\<lparr>parsingStartOffset := st + j\<rparr>)"
      using at(1,2) by (auto simp: buffer_ok_def walking_def walk_step_defs)
    then show ?thesis using IH at(2) walk_step_trans by blast
  qed simp
qed

text \<open>Once it has left the header the walk changes only the parts of the body.\<close>

lemma walk_settled:
  assumes "walk_lines s st h n i l p = Inr h'" and "walking h st n i l p" and "settled h"
  shows "body_change h h' \<and> settled h'"
  using assms
proof (induction "n - i" arbitrary: h n i l p rule: less_induct)
  case less
  let ?n = "CapRequestLengthToHeaderEnd h st n"
  have n: "?n \<le> n" by (rule Cap_le)
  from less.prems(1) refl [of ?n] show ?case
  proof (cases rule: walk_cases)
    case char
    have "?n - (i + 1) < n - i" using char(1) n by linarith
    from less.hyps [OF this char(3) walking_step [OF less.prems(2) n] less.prems(3)] show ?thesis .
  next
    case (line g r j)
    have i: "i < n" using line(1) n by simp
    note w = less.prems(2) [unfolded walking_def]
    note at = walking_line [OF less.prems(2) i n line(2-6)]
    have "p < length (headerBytes h)" using w i by simp
    then obtain items where g: "g = (next_line h)\<lparr>POSTItem := items\<rparr>"
      using settled_line [OF line(4) less.prems(3)] w by blast
    have "p < st + j" using w line(2,6) by (auto split: if_splits)
    then have set: "settled (g\<lparr>parsingStartOffset := st + j\<rparr>)" using less.prems(3) w by (auto simp: settled_def g)
    have "?n - j < n - i" using line(1,6) n by (auto split: if_splits)
    note IH = less.hyps [OF this line(7) at(1) set]
    have "body_change h (g\<lparr>parsingStartOffset := st + j\<rparr>)"
      unfolding body_change_def g
      by (intro exI [of _ items] exI [of _ "parsingCurrentLine h + 1"] exI [of _ "st + j"]) simp
    then show ?thesis using IH body_change_trans by blast
  qed (use less.prems in simp)
qed

text \<open>A walk over the end \<open>e\<close> of the header leaves the header.\<close>

lemma walk_settles:
  assumes "walk_lines s st h n i l p = Inr h'" and "walking h st n i l p" and "headerRAWHeadSize h = e"
    and "0 < e" and "st + i \<le> e" and "e < st + n" and "headerBytes h ! e = LF" and "terminator (headerBytes h ! (e - 1))"
  shows "settled h'"
  using assms
proof (induction "n - i" arbitrary: h n i l p rule: less_induct)
  case less
  let ?n = "CapRequestLengthToHeaderEnd h st n"
  have n: "?n \<le> n" by (rule Cap_le)
  note w = less.prems(2) [unfolded walking_def]
  show ?case
  proof (cases "p = e")
    case True
    then have "settled h" using w less.prems by (auto simp: settled_def)
    then show ?thesis using walk_settled [OF less.prems(1,2)] by blast
  next
    case False
    then have before: "p < e" using w less.prems(5) by linarith
    have cap: "e < st + ?n"
      using less.prems(3-6) by (auto simp: CapRequestLengthToHeaderEnd_def Let_def)
    then have i: "i < ?n" "i < n" using less.prems(5) n by linarith+
    from less.prems(1) refl [of ?n] show ?thesis
    proof (cases rule: walk_cases)
      case stop
      then show ?thesis using i by simp
    next
      case char
      have "st + i \<noteq> e" using char(2) less.prems(7) w before by auto
      moreover have "?n - (i + 1) < n - i" using char(1) n by linarith
      ultimately show ?thesis
        using less.hyps [OF _ char(3) walking_step [OF less.prems(2) n] less.prems(3,4) _ cap less.prems(7,8)]
          less.prems(5) by simp
    next
      case (line g r j)
      note at = walking_line [OF less.prems(2) i(2) n line(2-6)]
      let ?g = "g\<lparr>parsingStartOffset := st + j\<rparr>"
      have head: "headerRAWHeadSize g = e" "length (headerBytes g) = length (headerBytes h)"
        using at(2) less.prems(3) by (auto simp: walk_step_defs)
      have j: "st + i < st + j" using line(6) by (auto split: if_splits)
      show ?thesis
      proof (cases "st + j \<le> e")
        case True
        then have "st + i \<le> e - 1" "st + i < e" "e < length (headerBytes h)" using j w less.prems(6) by linarith+
        then have "headerBytes ?g ! e = LF" "terminator (headerBytes ?g ! (e - 1))"
          using at(3) less.prems(7,8) by (auto simp: ahead_def terminator_def)
        moreover have "?n - j < n - i" using line(1,6) n by (auto split: if_splits)
        ultimately show ?thesis
          using less.hyps [OF _ line(7) at(1) _ less.prems(4) True cap] head by simp
      next
        case False
        have "0 < parsingCurrentLine g" using at(1) j by (auto simp: walking_def)
        then have "settled ?g" using False head less.prems(4) by (simp add: settled_def)
        then show ?thesis using walk_settled [OF line(7) at(1)] by blast
      qed
    qed
  qed
qed

section \<open>The lines of one read\<close>

text \<open>The end of the header, once it is known: the walk has left it, or will come to it.\<close>

definition header_left :: "http_header \<Rightarrow> bool" where
  "header_left h \<longleftrightarrow> headerRAWHeadSize h \<noteq> 0 \<longrightarrow> headerRAWHeadSize h < headerRAWSize h \<and>
     (settled h \<or> parsingStartOffset h \<le> headerRAWHeadSize h \<and> headerBytes h ! headerRAWHeadSize h = LF
        \<and> terminator (headerBytes h ! (headerRAWHeadSize h - 1)))"

lemma found_head:
  assumes "headerRAWHeadSize h = 0" and "headerRAWHeadSize (found_head_size h) = e" and "0 < e"
  shows "e < headerRAWSize h \<and> headerBytes h ! e = LF \<and> terminator (headerBytes h ! (e - 1))"
proof -
  have "HTTPHeaderScanForHeaderEndFromStart (headerBytes h) (headerRAWSize h) = e"
    using assms by (simp add: found_head_size_def)
  from this [unfolded header_end_iff [OF assms(3)]] show ?thesis by (auto simp: ends_header_def terminator_def)
qed

lemma found_head_more [simp]:
  "parsingStartOffset (found_head_size h) = parsingStartOffset h" "parsingCurrentLine (found_head_size h) = parsingCurrentLine h"
  "headerRAW (found_head_size h) = headerRAW h" "headerValidated (found_head_size h) = headerValidated h"
  "requestType (found_head_size h) = requestType h"
  by (simp_all add: found_head_size_def)

lemma header_left_found:
  assumes "header_left h" and "buffer_ok h"
  shows "header_left (found_head_size h)"
proof (cases "headerRAWHeadSize h = 0 \<and> headerRAWHeadSize (found_head_size h) \<noteq> 0")
  case True
  define g where "g = found_head_size h"
  have fields: "parsingStartOffset g = parsingStartOffset h" "headerRAWSize g = headerRAWSize h"
    "headerBytes g = headerBytes h" "parsingCurrentLine g = parsingCurrentLine h"
    by (simp_all add: g_def)
  have k: "0 < headerRAWHeadSize g" using True by (simp add: g_def)
  note found = found_head [OF conjunct1 [OF True] _ k]
  have "settled g \<or> parsingStartOffset h \<le> headerRAWHeadSize g"
    using assms(2) k by (auto simp: settled_def fields buffer_ok_def)
  then have "header_left g" using found fields by (auto simp: header_left_def g_def)
  then show ?thesis by (simp add: g_def)
next
  case False
  then have "found_head_size h = h" by (auto simp: found_head_size_def)
  then show ?thesis using assms(1) by simp
qed

lemma keepAnalyzing_keeps:
  assumes "keepAnalyzingHTTPHeader s h = Inr (h', ok)" and "buffer_ok h" and "header_left h" and "0 < headerRAWSize h"
  shows "ok \<and> buffer_ok h' \<and> walk_step (found_head_size h) h' \<and> header_left h'
    \<and> (headerRAWHeadSize h' \<noteq> 0 \<longrightarrow> settled h') \<and> (settled h \<longrightarrow> body_change h h')"
proof -
  define g where "g = found_head_size h"
  define st where "st = parsingStartOffset h"
  define n where "n = CapRequestLengthToHeaderEnd g st (headerRAWSize h - st)"
  note b = assms(2) [unfolded buffer_ok_def]
  have fields: "parsingStartOffset g = st" "headerRAWSize g = headerRAWSize h" "headerBytes g = headerBytes h"
    "headerRAW g = headerRAW h" "MAXheaderRAWSize g = MAXheaderRAWSize h" "parsingCurrentLine g = parsingCurrentLine h"
    by (simp_all add: g_def st_def)
  have n: "n \<le> headerRAWSize h - st" unfolding n_def by (rule Cap_le)
  then have max: "min n (MAXheaderRAWSize h) = n" using b by (auto simp: min_def)
  have walk: "walk_lines s st g n 0 0 st = Inr h'" and ok
    using assms(1,4) b fields max
    by (auto simp: keepAnalyzingHTTPHeader_def Let_def map_sum_eq_Inr g_def [symmetric] n_def)
  have "st \<le> headerRAWSize h" using b by (simp add: st_def)
  then have "st + n \<le> headerRAWSize h" using n by linarith
  then have w: "walking g st n 0 0 st" using b by (simp add: walking_def fields st_def)
  have "buffer_ok g" using b by (simp add: buffer_ok_def fields st_def)
  then have keeps: "walk_step g h'" "buffer_ok h'" using walk_keeps [OF walk w] by auto
  have same: "headerRAWHeadSize h' = headerRAWHeadSize g" "headerRAWSize h' = headerRAWSize h"
    using keeps fields by (simp_all add: walk_step_defs)
  have left: "header_left g" unfolding g_def by (rule header_left_found [OF assms(3,2)])
  have settles: "settled h'" if e: "headerRAWHeadSize h' \<noteq> 0"
  proof (cases "settled g")
    case True
    then show ?thesis using walk_settled [OF walk w] by blast
  next
    case False
    define k where "k = headerRAWHeadSize g"
    have k: "k < headerRAWSize h" "headerBytes h ! k = LF" "terminator (headerBytes h ! (k - 1))" "0 < k" "st \<le> k"
      using left e same False by (auto simp: header_left_def fields k_def)
    then have "k < st + n" by (auto simp: n_def CapRequestLengthToHeaderEnd_def Let_def k_def)
    then show ?thesis using walk_settles [OF walk w k_def [symmetric] k(4)] k by (simp add: fields)
  qed
  have "header_left h'" using settles left same by (simp add: header_left_def fields)
  moreover have "body_change h h'" if "settled h"
  proof -
    have "g = h" using that by (simp add: g_def found_head_size_def settled_def)
    then show ?thesis using walk_settled [OF walk w] that by simp
  qed
  ultimately show ?thesis using keeps settles \<open>ok\<close> by (simp add: g_def)
qed

end
