(* ===== verification/ReceiveLoop.thy ===== *)
theory ReceiveLoop
  imports Receive
begin

text \<open>
  What the loop of \<open>Receive\<close> keeps between two rounds, that it ends, and what a request that it
  accepts looks like.
\<close>

section \<open>The rounds\<close>

definition buffer_limit :: "http_settings \<Rightarrow> nat" where
  "buffer_limit s = max MAX_HTTP_REQUEST_HEADER (MAX_POST_TRANSACTION_SIZE s)"

text \<open>The state between two rounds.\<close>

definition receiving :: "http_settings \<Rightarrow> http_header \<Rightarrow> bool" where
  "receiving s h \<longleftrightarrow> buffer_ok h \<and> header_left h \<and> MAXheaderRAWSize h \<le> buffer_limit s
     \<and> (headerValidated h \<longrightarrow> settled h \<and> validation s h = None)"

lemma arrived_receiving:
  assumes "arrived h bs = Inr h'" and "receiving s h" and "length bs \<le> MAXheaderRAWSize h - headerRAWSize h"
  shows "receiving s h' \<and> headerRAWSize h' = headerRAWSize h + length bs"
proof -
  let ?n = "headerRAWSize h"
  note r = assms(2) [unfolded receiving_def buffer_ok_def]
  have h': "h' = h\<lparr>headerBytes := take ?n (headerBytes h) @ bs @ NUL # drop (?n + length bs + 1) (headerBytes h),
      headerRAWSize := ?n + length bs\<rparr>" and fits: "?n + length bs < length (headerBytes h)"
    using assms(1) by (auto simp: arrived_def Let_def split: if_splits)
  have len: "min (length (headerBytes h)) ?n = ?n" using r by linarith
  have bytes: "length (headerBytes h') = length (headerBytes h)" "headerBytes h' ! (?n + length bs) = NUL"
    using fits len by (simp_all add: h' nth_append)
  have keep: "headerBytes h' ! k = headerBytes h ! k" if "k < ?n" for k
    using that len by (simp add: h' nth_append)
  have "?n + length bs \<le> MAXheaderRAWSize h" using assms(3) r by linarith
  moreover have left: "header_left h'"
    using assms(2) keep by (auto simp: receiving_def header_left_def settled_def h')
  moreover have "settled h'" if "settled h"
  proof -
    have "headerRAWHeadSize h < ?n" using assms(2) that by (simp add: receiving_def header_left_def settled_def)
    then show ?thesis using that keep by (simp add: settled_def h')
  qed
  moreover have "validation s h' = validation s h" by (simp add: h')
  ultimately show ?thesis using r bytes by (auto simp: receiving_def buffer_ok_def h')
qed

lemma body_change_validation: "body_change h h' \<Longrightarrow> validation s h' = validation s h \<and> headerValidated h' = headerValidated h"
  by (auto simp: body_change_def)

lemma analyzed_receiving:
  assumes "keepAnalyzingHTTPHeader s h = Inr (h', ok)" and "receiving s h" and "0 < headerRAWSize h"
  shows "ok \<and> receiving s h' \<and> headerRAWSize h' = headerRAWSize h \<and> (headerRAWHeadSize h' \<noteq> 0 \<longrightarrow> settled h')"
proof -
  have keeps: "ok" "buffer_ok h'" "walk_step (found_head_size h) h'" "header_left h'"
    "headerRAWHeadSize h' \<noteq> 0 \<longrightarrow> settled h'" "settled h \<longrightarrow> body_change h h'"
    using keepAnalyzing_keeps [OF assms(1)] assms(2,3) by (auto simp: receiving_def)
  have same: "headerRAWSize h' = headerRAWSize h" "MAXheaderRAWSize h' = MAXheaderRAWSize h"
    "headerValidated h' = headerValidated h" "headerRAWHeadSize h' = headerRAWHeadSize (found_head_size h)"
    using keeps(3) by (simp_all add: walk_step_defs)
  have "settled h' \<and> validation s h' = None" if "headerValidated h'"
  proof -
    have v: "settled h" "validation s h = None" using assms(2) that same by (simp_all add: receiving_def)
    then have "headerRAWHeadSize h' \<noteq> 0" using same by (simp add: settled_def found_head_size_def)
    then show ?thesis using keeps body_change_validation v by metis
  qed
  then show ?thesis using keeps same assms(2) by (simp add: receiving_def)
qed

text \<open>Fields the later stages of a round change do not matter for the state.\<close>

lemma validate_receiving:
  assumes "ValidateParsedRequest s h = (h', None)" and "receiving s h" and "headerRAWHeadSize h \<noteq> 0 \<longrightarrow> settled h"
  shows "receiving s h' \<and> headerRAWSize h' = headerRAWSize h \<and> headerRAWHeadSize h' = headerRAWHeadSize h
    \<and> (headerRAWHeadSize h' \<noteq> 0 \<longrightarrow> headerValidated h') \<and> failed h' = failed h \<and> requestType h' = requestType h"
proof (cases "headerValidated h \<or> headerRAWHeadSize h = 0")
  case True
  then have "h' = h" using assms(1) by (auto simp: ValidateParsedRequest_def split: if_splits)
  then show ?thesis using True assms(2,3) by auto
next
  case False
  let ?g = "h\<lparr>headerValidated := True\<rparr>"
  have v: "validation s ?g = None" and h': "h' = ?g \<or> h' = ?g\<lparr>keepalive := keepalive h \<and> KEEPALIVE_ENABLED s\<rparr>"
    using assms(1) False by (auto simp: ValidateParsedRequest_def Let_def split: option.splits if_splits)
  have "validation s h' = None" using h' v by auto
  moreover have "receiving s h' \<longleftrightarrow> buffer_ok h \<and> header_left h \<and> MAXheaderRAWSize h \<le> buffer_limit s \<and> settled h \<and> validation s h' = None"
    using h' by (elim disjE) (simp_all add: receiving_def buffer_ok_def header_left_def settled_def)
  moreover have "headerRAWSize h' = headerRAWSize h \<and> headerRAWHeadSize h' = headerRAWHeadSize h
      \<and> headerValidated h' \<and> failed h' = failed h \<and> requestType h' = requestType h"
    using h' by (elim disjE) simp_all
  moreover have "buffer_ok h" "header_left h" "MAXheaderRAWSize h \<le> buffer_limit s"
    using assms(2) by (simp_all add: receiving_def)
  ultimately show ?thesis using assms(3) False by simp
qed

lemma complete_receiving:
  assumes "HTTPRequestIsComplete s h = (h', c)" and "receiving s h"
  shows "receiving s h' \<and> headerRAWSize h' = headerRAWSize h \<and> headerValidated h' = headerValidated h
    \<and> (headerRAWHeadSize h \<noteq> 0 \<longrightarrow> headerRAWHeadSize h' = headerRAWHeadSize h) \<and> requestType h' = requestType h
    \<and> (requestType h \<noteq> POST \<longrightarrow> h' = h)"
proof -
  have found: "receiving s (found_head_size h)"
  proof -
    have "headerValidated h \<longrightarrow> found_head_size h = h"
      using assms(2) by (auto simp: receiving_def settled_def found_head_size_def)
    moreover have "buffer_ok (found_head_size h)" using assms(2) by (simp add: receiving_def buffer_ok_def)
    ultimately show ?thesis using assms(2) header_left_found by (auto simp: receiving_def)
  qed
  have plain: "receiving s (g\<lparr>failed := b, errorResponseCode := code, keepalive := k\<rparr>) = receiving s g"
    "receiving s (g\<lparr>headerRAWRequestedSize := n\<rparr>) = receiving s g" for g b code k n
    by (simp_all add: receiving_def buffer_ok_def header_left_def settled_def)
  define g where "g = found_head_size h"
  have same: "headerRAWSize g = headerRAWSize h" "headerValidated g = headerValidated h" "requestType g = requestType h"
    "failed g = failed h" "headerRAWHeadSize h \<noteq> 0 \<longrightarrow> headerRAWHeadSize g = headerRAWHeadSize h"
    by (simp_all add: g_def found_head_size_def)
  have "h' = h \<or> h' = g \<or> (\<exists>code. h' = refuse code g) \<and> c \<or> (\<exists>n. h' = g\<lparr>headerRAWRequestedSize := n\<rparr>)"
    using assms(1) by (auto simp: HTTPRequestIsComplete_def chunked_is_complete_def Let_def g_def [symmetric]
        split: if_splits chunk_scan.splits prod.splits)
  moreover have "requestType h \<noteq> POST \<longrightarrow> h' = h" using assms(1) by (auto simp: HTTPRequestIsComplete_def)
  ultimately show ?thesis using found assms(2) same by (auto simp: refuse_def plain g_def [symmetric])
qed

lemma continue_receiving [simp]: "receiving s (h\<lparr>expectContinueSent := b\<rparr>) = receiving s h"
  by (simp add: receiving_def buffer_ok_def header_left_def settled_def)

lemma validation_moved [simp]:
  "validation s (h\<lparr>h_cookie := x0\<rparr>) = validation s h"
  "validation s (h\<lparr>h_host := x1\<rparr>) = validation s h"
  "validation s (h\<lparr>h_referer := x2\<rparr>) = validation s h"
  "validation s (h\<lparr>h_eTag := x3\<rparr>) = validation s h"
  "validation s (h\<lparr>h_userAgent := x4\<rparr>) = validation s h"
  "validation s (h\<lparr>h_contentType := x5\<rparr>) = validation s h"
  "validation s (h\<lparr>h_contentDisposition := x6\<rparr>) = validation s h"
  "validation s (h\<lparr>h_boundary := x7\<rparr>) = validation s h"
  "validation s (h\<lparr>GETItem := x8\<rparr>) = validation s h"
  "validation s (h\<lparr>COOKIEItem := x9\<rparr>) = validation s h"
  unfolding validation_def by (intro if_cong; simp)+

lemma moved_receiving:
  "receiving s (fst (recalculateHeaderFieldsBasedOnANewBaseAddress old h)) = receiving s h"
  by (simp add: recalculateHeaderFieldsBasedOnANewBaseAddress_def receiving_def buffer_ok_def header_left_def
      settled_def Let_def split: option.split)

definition progress_of :: "http_header \<Rightarrow> nat \<times> nat \<times> bool \<times> bool \<times> request_type" where
  "progress_of h = (headerRAWSize h, headerRAWHeadSize h, headerValidated h, failed h, requestType h)"

lemma moved_progress:
  "progress_of (fst (recalculateHeaderFieldsBasedOnANewBaseAddress old h)) = progress_of h"
  by (simp add: recalculateHeaderFieldsBasedOnANewBaseAddress_def progress_of_def Let_def split: option.split)

lemma enlarged_receiving:
  assumes "receiving s h" and "MAXheaderRAWSize h \<le> w" and "w \<le> buffer_limit s"
  shows "receiving s (h\<lparr>headerRAW := Some new,
      headerBytes := take (MAXheaderRAWSize h) (headerBytes h) @ replicate (w + 1 - MAXheaderRAWSize h) NUL,
      MAXheaderRAWSize := w\<rparr>)" (is "receiving s ?g")
proof -
  let ?m = "MAXheaderRAWSize h"
  note r = assms(1) [unfolded receiving_def buffer_ok_def]
  have len: "length (take ?m (headerBytes h)) = ?m" using r by simp
  have keep: "headerBytes ?g ! k = headerBytes h ! k" if "k < ?m" for k using that len by (simp add: nth_append)
  have nul: "headerBytes ?g ! headerRAWSize h = NUL"
  proof (cases "headerRAWSize h < ?m")
    case True
    then show ?thesis using keep r by simp
  next
    case False
    then have "headerRAWSize h = ?m" using r by simp
    then show ?thesis using len assms(2) by (simp add: nth_append)
  qed
  have settled: "settled ?g = settled h"
  proof (cases "headerRAWHeadSize h = 0")
    case False
    then have "headerRAWHeadSize h < ?m" using r by (auto simp: header_left_def)
    then show ?thesis using keep by (simp add: settled_def)
  qed (simp add: settled_def)
  have left: "header_left ?g"
  proof (cases "headerRAWHeadSize h = 0")
    case False
    then have "headerRAWHeadSize h < ?m" using r by (auto simp: header_left_def)
    then show ?thesis using r keep [of "headerRAWHeadSize h"] keep [of "headerRAWHeadSize h - 1"] settled
      by (simp add: header_left_def)
  qed (simp add: header_left_def)
  have "length (headerBytes ?g) = w + 1" using len assms(2) by simp
  then have "buffer_ok ?g" using r nul assms(2) by (simp add: buffer_ok_def)
  then show ?thesis using left settled r assms(3) by (simp add: receiving_def)
qed

lemma grow_receiving:
  assumes "growHeader a s h = Inr (h', True)" and "receiving s h"
  shows "receiving s h' \<and> progress_of h' = progress_of h"
proof -
  obtain old new w0 where old: "headerRAW h = Some old" and new: "a = Some new" and w0: "grow_target s h = Some w0"
    and big: "\<not> min w0 (MAX_POST_TRANSACTION_SIZE s) < MAXheaderRAWSize h"
    using assms by (auto simp: growHeader_def Let_def receiving_def buffer_ok_def split: if_splits option.splits)
  define w where "w = min w0 (MAX_POST_TRANSACTION_SIZE s)"
  define g where "g = h\<lparr>headerRAW := Some new,
      headerBytes := take (MAXheaderRAWSize h) (headerBytes h) @ replicate (w + 1 - MAXheaderRAWSize h) NUL,
      MAXheaderRAWSize := w\<rparr>"
  have h': "h' = (if old \<noteq> new then fst (recalculateHeaderFieldsBasedOnANewBaseAddress old g) else g)"
    using assms(1) old new w0 big by (simp add: growHeader_def Let_def w_def g_def split: if_splits)
  have "receiving s g" unfolding g_def
    by (rule enlarged_receiving [OF assms(2)]) (use big in \<open>auto simp: w_def buffer_limit_def\<close>)
  moreover have "progress_of g = progress_of h" by (simp add: g_def progress_of_def)
  ultimately show ?thesis by (simp add: h' moved_receiving moved_progress)
qed

section \<open>A round\<close>

text \<open>
  Once the end of the header is known the request has been validated; only a POST can learn of it
  later, in \<open>HTTPRequestIsComplete\<close>.
\<close>

definition checked_header :: "http_header \<Rightarrow> bool" where
  "checked_header h \<longleftrightarrow> (headerRAWHeadSize h \<noteq> 0 \<and> requestType h \<noteq> POST \<longrightarrow> headerValidated h)"

text \<open>A round that goes on has more bytes.\<close>

definition round_ok :: "http_settings \<Rightarrow> nat \<Rightarrow> http_transaction \<Rightarrow> bool option \<Rightarrow> bool" where
  "round_ok s n t res \<longleftrightarrow>
     (let h = incomingHeader t
      in buffer_ok h \<and> MAXheaderRAWSize h \<le> buffer_limit s
         \<and> (res \<noteq> Some False \<longrightarrow> receiving s h \<and> checked_header h)
         \<and> (res = None \<longrightarrow> n < headerRAWSize h))"

lemma receiving_buffer: "receiving s h \<Longrightarrow> buffer_ok h \<and> MAXheaderRAWSize h \<le> buffer_limit s"
  by (simp add: receiving_def)

lemma checked_continue [simp]: "checked_header (h\<lparr>expectContinueSent := b\<rparr>) = checked_header h"
  by (simp add: checked_header_def)

lemma checked_progress: "progress_of h' = progress_of h \<Longrightarrow> checked_header h' = checked_header h"
  by (simp add: checked_header_def progress_of_def)

lemma refused_round:
  assumes "receiving s h" and "incomingHeader t = h \<or> incomingHeader t = h\<lparr>dumpedToFile := True\<rparr>"
  shows "round_ok s n t (Some False)"
  using assms(2)
  by (elim disjE) (use receiving_buffer [OF assms(1)] in \<open>simp_all add: round_ok_def buffer_ok_def\<close>)

lemma grow_refused: "growHeader a s h = Inr (h', False) \<Longrightarrow> h' = h \<or> h' = h\<lparr>dumpedToFile := True\<rparr>"
  by (auto simp: growHeader_def Let_def split: option.splits if_splits)

lemma incomplete_round:
  assumes "incomplete_request s r t = Inr (t', res)" and "receiving s (incomingHeader t)"
    and "checked_header (incomingHeader t)" and "n < headerRAWSize (incomingHeader t)"
  shows "round_ok s n t' res"
proof -
  let ?h = "incomingHeader t"
  define t1 where "t1 = (if waits_for_continue ?h
      then t\<lparr>incomingHeader := ?h\<lparr>expectContinueSent := True\<rparr>, statuses := statuses t @ [100]\<rparr> else t)"
  define g where "g = incomingHeader t1"
  have g: "receiving s g" "headerRAWSize g = headerRAWSize ?h" "checked_header g"
    using assms(2,3) by (simp_all add: g_def t1_def)
  show ?thesis
  proof (cases "waits_for_continue ?h \<and> \<not> continue_sent r")
    case True
    then have "t' = t" "res = Some False" using assms(1) by (simp_all add: incomplete_request_def Let_def)
    then show ?thesis using refused_round [OF assms(2)] by simp
  next
    case False
    note run = assms(1) [unfolded incomplete_request_def Let_def if_not_P [OF False], folded t1_def, folded g_def]
    show ?thesis
    proof (cases "wants_room s g")
      case True
      then obtain h ok where grown: "growHeader (realloc_answer r) s g = Inr (h, ok)" "incomingHeader t' = h"
          "res = (if ok then None else Some False)"
        using run by (auto simp: map_sum_eq_Inr)
      show ?thesis
      proof (cases ok)
        case True
        with grown(1) have "growHeader (realloc_answer r) s g = Inr (h, True)" by simp
        note h = grow_receiving [OF this g(1), THEN conjunct1] grow_receiving [OF this g(1), THEN conjunct2]
        have "headerRAWSize h = headerRAWSize g" using h(2) by (simp add: progress_of_def)
        moreover have "checked_header h" using checked_progress [OF h(2)] g(3) by blast
        ultimately show ?thesis using grown(2,3) True g(2) assms(4) receiving_buffer [OF h(1)] h(1)
          by (simp add: round_ok_def)
      next
        case False
        with grown(1) have "growHeader (realloc_answer r) s g = Inr (h, False)" by simp
        note grow_refused [OF this]
        with grown(2,3) False show ?thesis using refused_round [OF g(1)] by simp
      qed
    next
      case False
      then have "incomingHeader t' = g" "res = None" using run by (auto simp: g_def)
      then show ?thesis using g assms(4) receiving_buffer [OF g(1)] by (simp add: round_ok_def)
    qed
  qed
qed

lemma aborted_buffer: "buffer_ok (aborted h) = buffer_ok h" "MAXheaderRAWSize (aborted h) = MAXheaderRAWSize h"
  by (simp_all add: aborted_def buffer_ok_def)

lemma refused_buffer:
  assumes "ValidateParsedRequest s h = (h', Some status)"
  shows "buffer_ok h' = buffer_ok h \<and> MAXheaderRAWSize h' = MAXheaderRAWSize h"
proof -
  have "h' = aborted (h\<lparr>headerValidated := True\<rparr>)"
    using assms by (auto simp: ValidateParsedRequest_def Let_def split: if_splits option.splits)
  then show ?thesis by (simp add: aborted_def buffer_ok_def)
qed

lemma analyzed_round:
  assumes "analyzed_request s r t = Inr (t', res)" and "receiving s (incomingHeader t)"
    and "n < headerRAWSize (incomingHeader t)"
    and "headerRAWHeadSize (incomingHeader t) \<noteq> 0 \<longrightarrow> settled (incomingHeader t)"
  shows "round_ok s n t' res"
proof -
  obtain h status where val: "ValidateParsedRequest s (incomingHeader t) = (h, status)" by fastforce
  note buf = receiving_buffer [OF assms(2)]
  show ?thesis
  proof (cases status)
    case (Some code)
    then have "incomingHeader t' = h" "res = Some False" using val assms(1) by (auto simp: analyzed_request_def)
    then show ?thesis using refused_buffer [OF val [unfolded Some]] buf by (simp add: round_ok_def)
  next
    case None
    note v = validate_receiving [OF val [unfolded None] assms(2,4)]
    obtain g c where c: "HTTPRequestIsComplete s h = (g, c)" by fastforce
    note g = complete_receiving [OF c conjunct1 [OF v]]
    have checked: "checked_header g" using g v by (auto simp: checked_header_def)
    have buf: "buffer_ok g" "MAXheaderRAWSize g \<le> buffer_limit s" using g receiving_buffer by auto
    show ?thesis
    proof (cases c)
      case True
      then have "res = Some False \<and> incomingHeader t' = aborted g \<or> res = Some True \<and> incomingHeader t' = g"
        using assms(1) val None c by (auto simp: analyzed_request_def AbortRequestWithError_def Let_def split: if_splits)
      then show ?thesis using g checked buf by (elim disjE conjE) (simp_all add: round_ok_def aborted_buffer)
    next
      case False
      then have "incomplete_request s r (t\<lparr>incomingHeader := g\<rparr>) = Inr (t', res)"
        using assms(1) val None c by (simp add: analyzed_request_def)
      then show ?thesis by (rule incomplete_round) (use g v checked assms(3) in simp_all)
    qed
  qed
qed

lemma round_receiving:
  assumes "receive_round s r t = Inr (t', res)" and "receiving s (incomingHeader t)"
  shows "round_ok s (headerRAWSize (incomingHeader t)) t' res"
proof (cases "recv_answer r")
  case (Recv_error b)
  then show ?thesis using assms refused_round [OF assms(2)] by (auto simp: receive_round_def)
next
  case (Recv_data bs)
  let ?h = "incomingHeader t"
  let ?bs = "take (MAXheaderRAWSize ?h - headerRAWSize ?h) bs"
  show ?thesis
  proof (cases "?bs = []")
    case True
    then show ?thesis using Recv_data assms(1) refused_round [OF assms(2)] by (auto simp: receive_round_def Let_def)
  next
    case False
    then have "0 < length ?bs" by (simp only: length_greater_0_conv) simp
    obtain h1 where h1: "arrived ?h ?bs = Inr h1"
      and run: "attempt (keepAnalyzingHTTPHeader s h1) (\<lambda>(h, ok).
          if \<not> ok then Inr (t\<lparr>incomingHeader := h\<rparr>, Some True) else analyzed_request s r (t\<lparr>incomingHeader := h\<rparr>))
        = Inr (t', res)"
      using Recv_data assms(1) False by (auto simp: receive_round_def Let_def attempt_eq_Inr)
    have a: "receiving s h1" "headerRAWSize ?h < headerRAWSize h1"
      using arrived_receiving [OF h1 assms(2)] \<open>0 < length ?bs\<close> by auto
    obtain h2 ok where h2: "keepAnalyzingHTTPHeader s h1 = Inr (h2, ok)"
      and run: "(if \<not> ok then Inr (t\<lparr>incomingHeader := h2\<rparr>, Some True) else analyzed_request s r (t\<lparr>incomingHeader := h2\<rparr>))
        = Inr (t', res)"
      using run by (auto simp: attempt_eq_Inr)
    note k = analyzed_receiving [OF h2 a(1)]
    have "analyzed_request s r (t\<lparr>incomingHeader := h2\<rparr>) = Inr (t', res)" using run k a(2) by simp
    then show ?thesis by (rule analyzed_round) (use k a(2) in auto)
  qed
qed

section \<open>The loop\<close>

lemma fresh_receiving: "receiving s (incomingHeader (fresh_transaction a))" "checked_header (incomingHeader (fresh_transaction a))"
  by (simp_all add: fresh_transaction_def receiving_def buffer_ok_def header_left_def checked_header_def clearHeader_def
      buffer_limit_def EXTRA_SPACE_def)

text \<open>Every round of a loop that still waits has brought a byte.\<close>

lemma loop_receiving:
  assumes "receive_loop s rs t = Inr (t', res)" and "receiving s (incomingHeader t)" and "checked_header (incomingHeader t)"
  shows "buffer_ok (incomingHeader t') \<and> MAXheaderRAWSize (incomingHeader t') \<le> buffer_limit s
    \<and> (res \<noteq> Some False \<longrightarrow> receiving s (incomingHeader t') \<and> checked_header (incomingHeader t'))
    \<and> (res = None \<longrightarrow> length rs + headerRAWSize (incomingHeader t) \<le> headerRAWSize (incomingHeader t'))"
  using assms
proof (induction s rs t rule: receive_loop.induct)
  case (1 s t)
  then show ?case using receiving_buffer by auto
next
  case (2 s r rs t)
  show ?case
  proof (cases "failed (incomingHeader t) \<or> \<not> server_running r")
    case True
    then show ?thesis using "2.prems" receiving_buffer by auto
  next
    case False
    then obtain t1 res1 where round: "receive_round s r t = Inr (t1, res1)"
      and rest: "(case res1 of Some ok \<Rightarrow> Inr (t1, Some ok) | None \<Rightarrow> receive_loop s rs t1) = Inr (t', res)"
      using "2.prems"(1) by (auto simp: attempt_eq_Inr)
    note ok = round_receiving [OF round "2.prems"(2), unfolded round_ok_def Let_def]
    show ?thesis
    proof (cases res1)
      case None
      then have "receive_loop s rs t1 = Inr (t', res)" using rest by simp
      from "2.IH" [OF False this] None ok show ?thesis by auto
    next
      case (Some b)
      then show ?thesis using rest ok by auto
    qed
  qed
qed

section \<open>The properties\<close>

text \<open>
  C3: Whatever the socket delivers and in whatever pieces, and however often the buffer has grown:
  the bytes received never exceed the capacity of the receive buffer, which never exceeds the larger
  of the initial size and the configured limit for a POST; they are always followed by a NUL inside
  the allocation, and the place where the analysis goes on is not behind them.
\<close>

theorem receive_invariant:
  assumes "receive_loop s rs (fresh_transaction a) = Inr (t, res)"
  shows "headerRAWSize (incomingHeader t) \<le> MAXheaderRAWSize (incomingHeader t)
    \<and> MAXheaderRAWSize (incomingHeader t) \<le> max MAX_HTTP_REQUEST_HEADER (MAX_POST_TRANSACTION_SIZE s)
    \<and> MAXheaderRAWSize (incomingHeader t) < length (headerBytes (incomingHeader t))
    \<and> headerBytes (incomingHeader t) ! headerRAWSize (incomingHeader t) = NUL
    \<and> parsingStartOffset (incomingHeader t) \<le> headerRAWSize (incomingHeader t)
    \<and> (res = None \<longrightarrow> receiving s (incomingHeader t))"
  using loop_receiving [OF assms fresh_receiving] by (simp add: buffer_ok_def buffer_limit_def)

theorem receive_invariant_witness:
  "receive_loop (initial_settings ''www'') [\<lparr>server_running = True, recv_answer = Recv_error True, continue_sent = True, realloc_answer = None\<rparr>]
     (fresh_transaction 100) = Inr (fresh_transaction 100\<lparr>clientDisconnected := True\<rparr>, Some False)
   \<and> MAXheaderRAWSize (incomingHeader (fresh_transaction 100)) < length (headerBytes (incomingHeader (fresh_transaction 100)))"
proof -
  have run: "receive_loop (initial_settings ''www'') [\<lparr>server_running = True, recv_answer = Recv_error True, continue_sent = True, realloc_answer = None\<rparr>]
     (fresh_transaction 100) = Inr (fresh_transaction 100\<lparr>clientDisconnected := True\<rparr>, Some False)"
    by (simp add: receive_round_def fresh_transaction_def clearHeader_def attempt_def)
  from receive_invariant [OF run] run show ?thesis by simp
qed



text \<open>
  C1: A request the loop accepts is framed unambiguously: whatever bytes of the body arrive after the
  header was validated, a header that counts as validated has not both a chunked body and a
  Content-Length, no invalid Content-Length or unknown coding, at most one Host header (exactly one
  in HTTP/1.1), and for a POST no Content-Length over the limit; and an accepted request
  other than a POST whose header has ended has been validated.
\<close>

theorem accepted_request_framed:
  assumes "receive_loop s rs t = Inr (t', Some True)"
    and "receiving s (incomingHeader t)" and "checked_header (incomingHeader t)"
  shows "(headerValidated (incomingHeader t') \<and> requestType (incomingHeader t') \<notin> {BAD, NONE} \<longrightarrow>
        \<not> (chunked (incomingHeader t') \<and> hasContentLength (incomingHeader t'))
      \<and> \<not> contentLengthInvalid (incomingHeader t') \<and> \<not> transferEncodingUnsupported (incomingHeader t')
      \<and> hostHeaderCount (incomingHeader t') \<le> 1
      \<and> (httpVersion (incomingHeader t') = (1, 1) \<longrightarrow> hostHeaderCount (incomingHeader t') = 1)
      \<and> (requestType (incomingHeader t') = POST \<and> hasContentLength (incomingHeader t')
          \<longrightarrow> ContentLength (incomingHeader t') \<le> MAX_POST_TRANSACTION_SIZE s))
    \<and> (headerRAWHeadSize (incomingHeader t') \<noteq> 0 \<and> requestType (incomingHeader t') \<noteq> POST
        \<longrightarrow> headerValidated (incomingHeader t'))"
proof -
  have "receiving s (incomingHeader t')" and c: "checked_header (incomingHeader t')"
    using loop_receiving [OF assms] by simp_all
  then have "headerValidated (incomingHeader t') \<longrightarrow> validation s (incomingHeader t') = None"
    by (simp add: receiving_def)
  then show ?thesis using c unfolding validation_def checked_header_def by (auto split: if_splits)
qed

text \<open>A validated POST that has received all but the last byte of its body.\<close>

definition sample_body :: "string \<Rightarrow> nat \<Rightarrow> http_header" where
  "sample_body bytes n =
     clearHeader\<lparr>headerRAW := Some 100, MAXheaderRAWSize := 8, headerBytes := bytes, headerRAWSize := n,
       headerRAWHeadSize := 1, requestType := POST, httpVersion := (1, 1), hostHeaderCount := 1, hasContentLength := True,
       ContentLength := 4, headerValidated := True, parsingStartOffset := 2, parsingCurrentLine := 2\<rparr>"

lemma sample_body_fields [simp]:
  "failed (sample_body bytes n) = False" "MAXheaderRAWSize (sample_body bytes n) = 8" "headerRAWSize (sample_body bytes n) = n"
  by (simp_all add: sample_body_def clearHeader_def)

definition sample_bytes :: string where "sample_bytes = [LF, LF, CHR ''A'', CHR ''B'', CHR ''C'', CHR ''D'', NUL, NUL, NUL]"

lemma sample_arrives:
  "arrived (sample_body [LF, LF, CHR ''A'', CHR ''B'', CHR ''C'', NUL, NUL, NUL, NUL] 5) ''D'' = Inr (sample_body sample_bytes 6)"
  by (simp add: arrived_def sample_body_def sample_bytes_def Let_def)

lemma sample_keeps: "keepAnalyzingHTTPHeader s (sample_body sample_bytes 6) = Inr (sample_body sample_bytes 6, True)"
  by (simp add: keepAnalyzingHTTPHeader_def walk_lines.simps Let_def CapRequestLengthToHeaderEnd_def clearHeader_def
      read_at_def found_head_size_def sample_body_def sample_bytes_def)

lemma sample_complete:
  "HTTPRequestIsComplete (initial_settings ''www'') (sample_body sample_bytes 6) = (sample_body sample_bytes 6, True)"
  by (simp add: HTTPRequestIsComplete_def found_head_size_def sample_body_def clearHeader_def initial_settings_def
      DEFAULT_MAX_HTTP_POST_REQUEST_HEADER_def Let_def)

definition sample_round :: io_round where
  "sample_round = \<lparr>server_running = True, recv_answer = Recv_data ''D'', continue_sent = True, realloc_answer = None\<rparr>"

definition sample_transaction :: "string \<Rightarrow> nat \<Rightarrow> http_transaction" where
  "sample_transaction bytes n = \<lparr>incomingHeader = sample_body bytes n, clientDisconnected = False, statuses = []\<rparr>"

lemma sample_received:
  "receive_loop (initial_settings ''www'') [sample_round]
     (sample_transaction [LF, LF, CHR ''A'', CHR ''B'', CHR ''C'', NUL, NUL, NUL, NUL] 5)
   = Inr (sample_transaction sample_bytes 6, Some True)"
proof -
  have "analyzed_request (initial_settings ''www'') sample_round (sample_transaction sample_bytes 6)
      = Inr (sample_transaction sample_bytes 6, Some True)"
    using sample_complete
    by (simp add: analyzed_request_def sample_transaction_def ValidateParsedRequest_def sample_body_def clearHeader_def)
  moreover have "take (8 - 5) ''D'' = ''D''" by simp
  ultimately show ?thesis using sample_arrives sample_keeps [of "initial_settings ''www''"]
    by (simp add: sample_round_def sample_transaction_def receive_round_def Let_def attempt_def)
qed

theorem accepted_request_framed_witness:
  "receive_loop (initial_settings ''www'') [sample_round]
     (sample_transaction [LF, LF, CHR ''A'', CHR ''B'', CHR ''C'', NUL, NUL, NUL, NUL] 5)
   = Inr (sample_transaction sample_bytes 6, Some True) \<and> \<not> chunked (incomingHeader (sample_transaction sample_bytes 6))"
proof -
  let ?t = "sample_transaction [LF, LF, CHR ''A'', CHR ''B'', CHR ''C'', NUL, NUL, NUL, NUL] 5"
  have "receiving (initial_settings ''www'') (incomingHeader ?t)" and "checked_header (incomingHeader ?t)"
    by (simp_all add: sample_transaction_def sample_body_def clearHeader_def receiving_def buffer_ok_def header_left_def
        settled_def validation_def checked_header_def buffer_limit_def initial_settings_def MAX_HTTP_REQUEST_HEADER_def
        DEFAULT_MAX_HTTP_POST_REQUEST_HEADER_def)
  from accepted_request_framed [OF sample_received this] sample_received show ?thesis
    by (simp add: sample_transaction_def sample_body_def clearHeader_def)
qed

text \<open>
  C4: Once the analysis has left the header, the lines of the body can change nothing the header has
  said: only the list of form parts and the place where the analysis goes on change.
\<close>

theorem body_never_rewrites_header:
  assumes "keepAnalyzingHTTPHeader s h = Inr (h', ok)" and "buffer_ok h" and "header_left h" and "settled h"
    and "0 < headerRAWSize h"
  shows "h' = h\<lparr>POSTItem := POSTItem h', parsingCurrentLine := parsingCurrentLine h',
      parsingStartOffset := parsingStartOffset h'\<rparr>"
  using keepAnalyzing_keeps [OF assms(1-3,5)] assms(4) by (auto simp: body_change_def)

theorem body_never_rewrites_header_witness:
  "ContentLength (sample_body sample_bytes 6) = 4
   \<and> keepAnalyzingHTTPHeader (initial_settings ''www'') (sample_body sample_bytes 6) = Inr (sample_body sample_bytes 6, True)"
proof -
  have "buffer_ok (sample_body sample_bytes 6)" "header_left (sample_body sample_bytes 6)" "settled (sample_body sample_bytes 6)"
    "0 < headerRAWSize (sample_body sample_bytes 6)"
    by (simp_all add: sample_body_def sample_bytes_def clearHeader_def buffer_ok_def header_left_def settled_def)
  from body_never_rewrites_header [OF sample_keeps [of "initial_settings ''www''"] this] show ?thesis
    using sample_keeps by (simp add: sample_body_def clearHeader_def)
qed

end
