(* ===== verification/PostFields.thy ===== *)
theory PostFields
  imports PostLines
begin

text \<open>
  The parts of a multipart body (\<open>finalizePOSTData\<close> and the lookups of
  \<open>src/AmmServerlib/header_analysis/post_data.c\<close>, with \<open>reachNextBlock\<close>, \<open>reachNextLine\<close> and
  \<open>countStringUntilQuotesOrNewLine\<close> of \<open>src/AmmServerlib/tools/http_tools.c\<close>).  A place is an offset
  in the receive buffer; the lengths the searches get are those of what was received, so
  they stay inside the buffer.
\<close>

section \<open>Reaching the parts of a text\<close>

definition block_at :: "string \<Rightarrow> nat \<Rightarrow> bool" where
  "block_at mem i \<longleftrightarrow>
     mem ! i = CR \<and> mem ! (i + 1) = LF \<and> mem ! (i + 2) = CR \<and> mem ! (i + 3) = LF \<or> mem ! i = NUL"

text \<open>The bytes, the place behind the empty line, and \<open>endOfLine\<close>.\<close>

definition reachNextBlock :: "string \<Rightarrow> nat \<Rightarrow> nat \<Rightarrow> nat \<Rightarrow> bool \<Rightarrow> string \<times> nat \<times> nat" where
  "reachNextBlock mem request requestLength endOfLine makeNullTermination =
     (case find (\<lambda>i. block_at mem (request + i)) [0..<requestLength - 3] of
        None \<Rightarrow> (mem, request, endOfLine)
      | Some i \<Rightarrow> (if makeNullTermination then mem[request + i := NUL] else mem, request + i + 4, i))"

definition past_eol :: "string \<Rightarrow> nat \<Rightarrow> nat" where
  "past_eol mem p = (if mem ! p = CR \<or> mem ! p = LF then p + 1 else p)"

definition reachNextLine :: "string \<Rightarrow> nat \<Rightarrow> nat \<Rightarrow> bool \<Rightarrow> string \<times> nat \<times> nat" where
  "reachNextLine mem request requestLength makeNullTermination =
     (case find (\<lambda>i. terminator (mem ! (request + i))) [0..<requestLength] of
        None \<Rightarrow> (mem, request, requestLength)
      | Some i \<Rightarrow>
          (let mem = (if makeNullTermination then mem[request + i := NUL] else mem)
           in (mem, past_eol mem (past_eol mem (past_eol mem (request + i + 1))), i)))"

definition countStringUntilQuotesOrNewLine :: "string \<Rightarrow> nat \<Rightarrow> nat \<Rightarrow> bool \<Rightarrow> string \<times> nat" where
  "countStringUntilQuotesOrNewLine mem request requestLength makeNullTermination =
     (case find (\<lambda>i. terminator (mem ! (request + i)) \<or> mem ! (request + i) = QUOTE) [0..<requestLength] of
        None \<Rightarrow> (mem, 0)
      | Some i \<Rightarrow> (if makeNullTermination then mem[request + i := NUL] else mem, i))"

definition memmem_from :: "string \<Rightarrow> nat \<Rightarrow> nat \<Rightarrow> string \<Rightarrow> nat option" where
  "memmem_from mem p n needle = find_sub needle (take n (drop p mem))"

section \<open>A part\<close>

text \<open>The name in the header of a part, and whether there is one.\<close>

definition part_name :: "nat \<Rightarrow> string \<Rightarrow> nat \<Rightarrow> nat \<Rightarrow> post_item \<Rightarrow> string \<times> post_item \<times> bool" where
  "part_name a mem configuration configurationLength it =
     (case memmem_from mem configuration configurationLength ''name=\"'' of
        None \<Rightarrow> (mem, it, False)
      | Some k \<Rightarrow>
          (let name = configuration + k + 6;
               (mem, n) = countStringUntilQuotesOrNewLine mem name (configurationLength - (k + 6)) True
           in (mem, it\<lparr>p_name := Some (a + name), p_nameSize := n\<rparr>, True)))"

text \<open>The size of a value whose boundary was found \<open>rawSize\<close> bytes behind its start.\<close>

definition raw_size :: "string \<Rightarrow> nat \<Rightarrow> nat \<Rightarrow> nat" where
  "raw_size mem payload rawSize =
     (let rawSize = (if rawSize \<ge> 2 then rawSize - 2 else rawSize)
      in scan_back (\<lambda>c. c = CR \<or> c = LF) mem payload (payload + rawSize) - payload)"

definition boundary_of :: "http_header \<Rightarrow> string \<Rightarrow> string" where
  "boundary_of h mem =
     (case fst (h_boundary h) of None \<Rightarrow> [] | Some b \<Rightarrow> slice mem (b - the (headerRAW h)) (snd (h_boundary h)))"

definition remaining :: "http_header \<Rightarrow> nat \<Rightarrow> nat" where
  "remaining h p = calculateRemainingDataLength (the (headerRAW h)) (headerRAWSize h) (the (headerRAW h) + p)"

text \<open>A file keeps its bytes; a text is ended with a NUL.\<close>

definition file_part :: "http_header \<Rightarrow> string \<Rightarrow> nat \<Rightarrow> nat \<Rightarrow> nat \<Rightarrow> post_item \<Rightarrow> string \<times> post_item \<times> bool" where
  "file_part h mem configuration payload f it =
     (let a = the (headerRAW h);
          configurationLength = payload - configuration;
          filename = configuration + f + 10;
          (mem, n) = countStringUntilQuotesOrNewLine mem filename (configurationLength - (f + 10)) True;
          it = it\<lparr>p_filename := Some (a + filename), p_filenameSize := n\<rparr>;
          (mem, it, named) = part_name a mem configuration configurationLength it;
          payloadSize = remaining h payload
      in case memmem_from mem payload payloadSize (boundary_of h mem) of
           Some e \<Rightarrow> (mem, it\<lparr>p_value := Some (a + payload), p_valueSize := raw_size mem payload e\<rparr>, named)
         | None \<Rightarrow> (mem, it\<lparr>p_value := Some (a + payload), p_valueSize := payloadSize\<rparr>, False))"

definition text_part :: "http_header \<Rightarrow> string \<Rightarrow> nat \<Rightarrow> nat \<Rightarrow> nat \<Rightarrow> post_item \<Rightarrow> string \<times> post_item \<times> bool" where
  "text_part h mem configuration payload lineLength it =
     (let a = the (headerRAW h);
          (mem, it, named) = part_name a mem configuration (payload - configuration) it;
          payloadSize = remaining h payload;
          (mem, n) =
            (case memmem_from mem payload payloadSize (boundary_of h mem) of
               Some e \<Rightarrow> (let rawSize = raw_size mem payload e in (mem[payload + rawSize := NUL], rawSize))
             | None \<Rightarrow> (mem, lineLength))
      in if named then (mem, it\<lparr>p_value := Some (a + payload), p_valueSize := n\<rparr>, True)
         else (mem, it\<lparr>p_value := None, p_valueSize := 0\<rparr>, False))"

definition finalize_part :: "http_header \<Rightarrow> string \<Rightarrow> post_item \<Rightarrow> string \<times> post_item \<times> bool" where
  "finalize_part h mem it =
     (let configuration = the (pointerStart it) - the (headerRAW h);
          (mem, payload, lineLength) = reachNextBlock mem configuration (remaining h configuration) 0 True;
          (mem, _, lineLength) = reachNextLine mem (payload + 1) (remaining h (payload + 1)) False
      in case memmem_from mem configuration (payload - configuration) ''filename=\"'' of
           Some f \<Rightarrow> file_part h mem configuration payload f it
         | None \<Rightarrow> text_part h mem configuration payload lineLength it)"

text \<open>The bytes, the parts and how many of them were in order.\<close>

fun finalize_parts :: "http_header \<Rightarrow> string \<Rightarrow> post_item list \<Rightarrow> string \<times> post_item list \<times> nat" where
  "finalize_parts h mem [] = (mem, [], 0)"
| "finalize_parts h mem (it # its) =
     (let (mem, it, itemOk) = finalize_part h mem it;
          (mem, its, success) = finalize_parts h mem its
      in (mem, it # its, (if itemOk then success + 1 else success)))"

definition finalizePOSTData :: "http_header \<Rightarrow> http_header \<times> bool" where
  "finalizePOSTData h =
     (let its = take MAX_HTTP_POST_BOUNDARY_COUNT (POSTItem h);
          (mem, its', success) = finalize_parts h (headerBytes h) its
      in (h\<lparr>headerBytes := mem, POSTItem := its' @ drop MAX_HTTP_POST_BOUNDARY_COUNT (POSTItem h)\<rparr>,
          success = length its))"

section \<open>Looking a part up\<close>

definition getPOSTItemFromName :: "http_header \<Rightarrow> string \<Rightarrow> post_item option" where
  "getPOSTItemFromName h nameToLookFor =
     find (\<lambda>it. case p_name it of None \<Rightarrow> False | Some p \<Rightarrow> text_from h p = nameToLookFor)
       (take MAX_HTTP_POST_BOUNDARY_COUNT (POSTItem h))"

definition getPointerToPOSTItemValue :: "http_header \<Rightarrow> string \<Rightarrow> ptr \<times> nat" where
  "getPointerToPOSTItemValue h nameToLookFor =
     (case getPOSTItemFromName h nameToLookFor of None \<Rightarrow> (None, 0) | Some p \<Rightarrow> (p_value p, p_valueSize p))"

definition getPointerToPOSTItemFilename :: "http_header \<Rightarrow> string \<Rightarrow> ptr \<times> nat" where
  "getPointerToPOSTItemFilename h nameToLookFor =
     (case getPOSTItemFromName h nameToLookFor of None \<Rightarrow> (None, 0) | Some p \<Rightarrow> (p_filename p, p_filenameSize p))"

definition getPointerToPOSTItemType :: "http_header \<Rightarrow> string \<Rightarrow> ptr \<times> nat" where
  "getPointerToPOSTItemType h nameToLookFor =
     (case getPOSTItemFromName h nameToLookFor of None \<Rightarrow> (None, 0) | Some p \<Rightarrow> (p_contentType p, p_contentTypeSize p))"

definition getNumberOfPOSTItems :: "http_header \<Rightarrow> nat" where
  "getNumberOfPOSTItems h = length (POSTItem h)"

section \<open>Searches\<close>

lemma find_upt:
  assumes "k < n" and "P k" and "\<And>i. i < k \<Longrightarrow> \<not> P i"
  shows "find P [0..<n] = Some k"
  using assms by (auto simp: find_Some_iff intro!: exI [of _ k])

lemma find_sub_iff:
  "find_sub p s = Some k \<longleftrightarrow> k \<le> length s \<and> prefix p (drop k s) \<and> (\<forall>i<k. \<not> prefix p (drop i s))"
proof (induction s arbitrary: k)
  case Nil
  show ?case by (subst find_sub.simps) auto
next
  case (Cons c s)
  show ?case
  proof (cases "prefix p (c # s)")
    case True
    then have "\<forall>k. (\<forall>i<k. \<not> prefix p (drop i (c # s))) \<longrightarrow> k = 0" by (metis drop0 gr0I)
    then show ?thesis using True by (subst find_sub.simps) auto
  next
    case False
    then have "find_sub p (c # s) = map_option Suc (find_sub p s)" by (subst find_sub.simps) simp
    then show ?thesis using False Cons.IH
      by (cases k) (auto simp: less_Suc_eq_0_disj split: option.splits)
  qed
qed

lemma find_sub_None: "find_sub p s = None \<longleftrightarrow> (\<forall>i\<le>length s. \<not> prefix p (drop i s))"
proof
  assume none: "find_sub p s = None"
  show "\<forall>i\<le>length s. \<not> prefix p (drop i s)"
  proof (rule ccontr)
    assume "\<not> (\<forall>i\<le>length s. \<not> prefix p (drop i s))"
    then have ex: "\<exists>i. i \<le> length s \<and> prefix p (drop i s)" by blast
    define k where "k = (LEAST i. i \<le> length s \<and> prefix p (drop i s))"
    have "k \<le> length s \<and> prefix p (drop k s)" unfolding k_def by (rule LeastI_ex [OF ex])
    moreover have "\<not> prefix p (drop i s)" if "i < k" for i
      using not_less_Least [of i "\<lambda>i. i \<le> length s \<and> prefix p (drop i s)"] that calculation by (auto simp: k_def [symmetric])
    ultimately show False using none find_sub_iff by (metis option.distinct(1))
  qed
next
  assume "\<forall>i\<le>length s. \<not> prefix p (drop i s)"
  then show "find_sub p s = None" using find_sub_iff by (metis option.exhaust)
qed

lemma prefix_append_short: "length p \<le> length s \<Longrightarrow> prefix p (s @ t) \<longleftrightarrow> prefix p s"
  by (auto simp: prefix_append)

lemma find_sub_append:
  assumes "find_sub p s = Some k"
  shows "find_sub p (s @ t) = Some k"
proof -
  have k: "k \<le> length s" "prefix p (drop k s)" "\<forall>i<k. \<not> prefix p (drop i s)"
    using assms by (simp_all add: find_sub_iff)
  then have "length p + k \<le> length s" using prefix_length_le [OF k(2)] by simp
  then have "\<not> prefix p (drop i (s @ t))" if "i < k" for i
    using that k(3) by (simp add: prefix_append_short)
  moreover have "prefix p (drop k (s @ t))" using k(1,2) by (auto simp: prefix_def)
  ultimately show ?thesis using k(1) by (simp add: find_sub_iff)
qed

text \<open>A pattern without a NUL is not found over one.\<close>

lemma find_sub_NUL:
  assumes "NUL \<notin> set p" and "find_sub p s = None" and "length t < length p"
  shows "find_sub p (s @ NUL # t) = None"
  unfolding find_sub_None
proof (intro allI impI notI)
  fix i
  assume i: "i \<le> length (s @ NUL # t)" and hit: "prefix p (drop i (s @ NUL # t))"
  then have len: "length p \<le> length s + 1 + length t - i" using prefix_length_le by fastforce
  show False
  proof (cases "length s < i + length p")
    case True
    then have "i \<le> length s" and short: "length s - i < length p" using len assms(3) by linarith+
    then have "drop i (s @ NUL # t) ! (length s - i) = NUL" by (simp add: nth_append)
    moreover have "p ! (length s - i) = drop i (s @ NUL # t) ! (length s - i)"
      using hit short by (metis nth_append prefix_def)
    ultimately show False using assms(1) short nth_mem by metis
  next
    case False
    then have "prefix p (drop i s)" using hit by (simp add: prefix_append_short)
    then show False using assms(2) False by (simp add: find_sub_None)
  qed
qed

lemma reachNextLine_keeps: "fst (reachNextLine mem p n False) = mem"
  by (simp add: reachNextLine_def split: option.split)

section \<open>A part that is a text\<close>

text \<open>Header lines, name and value of a part; \<open>b\<close> is the boundary.\<close>

type_synonym form_part = "string \<times> string \<times> string"

definition blank_line :: string where "blank_line = [CR, LF, CR, LF]"
definition name_mark :: string where "name_mark = ''name=\"''"
definition file_mark :: string where "file_mark = ''filename=\"''"

definition part_ok :: "string \<Rightarrow> form_part \<Rightarrow> bool" where
  "part_ok b p \<longleftrightarrow>
     (case p of (config, name, val) \<Rightarrow>
        NUL \<notin> set config \<and> find_sub blank_line (config @ blank_line) = Some (length config)
      \<and> find_sub file_mark config = None
      \<and> (\<exists>pre post. config = pre @ name_mark @ name @ QUOTE # post \<and> find_sub name_mark config = Some (length pre))
      \<and> list_all (\<lambda>c. \<not> terminator c \<and> c \<noteq> QUOTE) name
      \<and> find_sub b (val @ [CR, LF] @ ''--'' @ b) = Some (length val + 4))"

fun part_text :: "string \<Rightarrow> form_part \<Rightarrow> string" where
  "part_text b (config, name, val) = config @ blank_line @ val @ [CR, LF] @ ''--'' @ b"

definition ends_line :: "char \<Rightarrow> bool" where "ends_line c \<longleftrightarrow> c = CR \<or> c = LF"

text \<open>Where the name starts, the same bytes after the part has been cut up, and the entry of the part.\<close>

definition name_place :: "string \<Rightarrow> nat" where "name_place config = the (find_sub name_mark config) + 6"

fun part_done :: "string \<Rightarrow> form_part \<Rightarrow> string" where
  "part_done b (config, name, val) =
     config[name_place config + length name := NUL] @ [NUL, LF, CR, LF]
     @ (val @ [CR, LF] @ ''--'' @ b)[length (trim_right ends_line val) := NUL]"

fun item_done :: "nat \<Rightarrow> form_part \<Rightarrow> post_item \<Rightarrow> post_item" where
  "item_done start (config, name, val) it =
     it\<lparr>p_name := Some (start + name_place config), p_nameSize := length name,
        p_value := Some (start + length config + 4), p_valueSize := length (trim_right ends_line val)\<rparr>"

lemma mark_lengths: "length name_mark = 6" "length file_mark = 10" "length blank_line = 4"
  by (simp_all add: name_mark_def file_mark_def blank_line_def)

lemma marks_without_NUL: "NUL \<notin> set name_mark" "NUL \<notin> set file_mark"
  by (simp_all add: name_mark_def file_mark_def)

lemma prefix_block:
  assumes "i + 4 \<le> length s"
  shows "prefix blank_line (drop i s) \<longleftrightarrow> s ! i = CR \<and> s ! (i + 1) = LF \<and> s ! (i + 2) = CR \<and> s ! (i + 3) = LF"
proof -
  have "drop i s = s ! i # s ! (i + 1) # s ! (i + 2) # s ! (i + 3) # drop (i + 4) s"
    using assms by (simp add: Cons_nth_drop_Suc numeral_eq_Suc)
  then show ?thesis by (auto simp: blank_line_def)
qed

lemma block_at_config:
  assumes "NUL \<notin> set config" and "find_sub blank_line (config @ blank_line) = Some (length config)" and "i \<le> length config"
  shows "block_at (pre @ config @ blank_line @ rest) (length pre + i) \<longleftrightarrow> i = length config"
proof -
  let ?s = "config @ blank_line"
  have at: "(pre @ config @ blank_line @ rest) ! (length pre + i + j) = ?s ! (i + j)" if "j < 4" for j
  proof -
    have "(pre @ config @ blank_line @ rest) ! (length pre + (i + j)) = (?s @ rest) ! (i + j)"
      by (simp only: nth_append_length_plus append_assoc)
    also have "\<dots> = ?s ! (i + j)" using that assms(3) mark_lengths(3) by (subst nth_append) auto
    finally show ?thesis by (simp add: add.assoc)
  qed
  have "block_at (pre @ config @ blank_line @ rest) (length pre + i) \<longleftrightarrow> prefix blank_line (drop i ?s) \<or> ?s ! i = NUL"
    using at [of 0] at [of 1] at [of 2] at [of 3] assms(3) mark_lengths(3)
    by (subst prefix_block) (auto simp: block_at_def)
  also have "\<dots> \<longleftrightarrow> i = length config"
  proof (cases "i = length config")
    case False
    then have "i < length config" using assms(3) by simp
    moreover from this have "?s ! i \<noteq> NUL" using assms(1) nth_mem by (metis nth_append)
    ultimately show ?thesis using assms(2) by (auto simp: find_sub_iff)
  qed simp
  finally show ?thesis .
qed

text \<open>The empty line behind the header lines of a part is found, and its first byte becomes a NUL.\<close>

lemma reach_payload:
  assumes "NUL \<notin> set config" and "find_sub blank_line (config @ blank_line) = Some (length config)"
    and "length config + 4 \<le> n"
  shows "reachNextBlock (pre @ config @ blank_line @ rest) (length pre) n e True
    = (pre @ (config @ [NUL, LF, CR, LF]) @ rest, length pre + length config + 4, length config)"
proof -
  let ?m = "pre @ config @ blank_line @ rest"
  have "find (\<lambda>i. block_at ?m (length pre + i)) [0..<n - 3] = Some (length config)"
    by (rule find_upt) (use assms block_at_config [OF assms(1,2)] in auto)
  moreover have "?m[length pre + length config := NUL] = pre @ (config @ [NUL, LF, CR, LF]) @ rest"
    by (simp add: list_update_append blank_line_def)
  ultimately show ?thesis by (simp add: reachNextBlock_def)
qed

lemma count_name:
  assumes "list_all (\<lambda>c. \<not> terminator c \<and> c \<noteq> QUOTE) name" and "length name < n"
  shows "countStringUntilQuotesOrNewLine (pre @ name @ QUOTE # rest) (length pre) n True
    = (pre @ name @ NUL # rest, length name)"
proof -
  let ?m = "pre @ name @ QUOTE # rest"
  have at: "?m ! (length pre + i) = (name @ QUOTE # rest) ! i" for i by (rule nth_append_length_plus)
  have "find (\<lambda>i. terminator (?m ! (length pre + i)) \<or> ?m ! (length pre + i) = QUOTE) [0..<n] = Some (length name)"
  proof (rule find_upt)
    show "\<not> (terminator (?m ! (length pre + i)) \<or> ?m ! (length pre + i) = QUOTE)" if "i < length name" for i
      using that assms(1) by (simp only: at) (simp add: nth_append list_all_length)
  qed (use assms(2) in \<open>simp_all add: at\<close>)
  then show ?thesis by (simp add: countStringUntilQuotesOrNewLine_def list_update_append)
qed

lemma memmem_from_at: "memmem_from (pre @ s) (length pre) n needle = find_sub needle (take n s)"
  by (simp add: memmem_from_def)

lemma part_name_found:
  assumes "config = cpre @ name_mark @ name @ QUOTE # post" and "find_sub name_mark config = Some (length cpre)"
    and "list_all (\<lambda>c. \<not> terminator c \<and> c \<noteq> QUOTE) name"
  shows "part_name a (pre @ (config @ [NUL, LF, CR, LF]) @ rest) (length pre) (length config + 4) it
    = (pre @ (config[length cpre + 6 + length name := NUL] @ [NUL, LF, CR, LF]) @ rest,
       it\<lparr>p_name := Some (a + (length pre + length cpre + 6)), p_nameSize := length name\<rparr>, True)"
proof -
  let ?cs = "config @ [NUL, LF, CR, LF]"
  have found: "memmem_from (pre @ ?cs @ rest) (length pre) (length config + 4) name_mark = Some (length cpre)"
    using find_sub_append [OF assms(2), of "[NUL, LF, CR, LF]"] by (simp add: memmem_from_at)
  let ?p = "pre @ cpre @ name_mark" and ?r = "post @ [NUL, LF, CR, LF] @ rest"
  have mem: "pre @ ?cs @ rest = ?p @ name @ QUOTE # ?r" by (simp add: assms(1))
  have place: "length ?p = length pre + length cpre + 6" by (simp add: mark_lengths)
  have "countStringUntilQuotesOrNewLine (pre @ ?cs @ rest) (length pre + length cpre + 6)
      (length config + 4 - (length cpre + 6)) True = (?p @ name @ NUL # ?r, length name)"
    unfolding mem place [symmetric]
    by (rule count_name [OF assms(3)]) (simp add: assms(1) mark_lengths)
  moreover have "?p @ name @ NUL # ?r = pre @ (config[length cpre + 6 + length name := NUL] @ [NUL, LF, CR, LF]) @ rest"
    by (simp add: assms(1) list_update_append mark_lengths)
  ultimately show ?thesis using found by (simp add: part_name_def name_mark_def)
qed

lemma trim_le: "length (trim_right P s) \<le> length s"
  using length_dropWhile_le [of P "rev s"] by (simp add: trim_right_def)

lemma take_trim: "take (length (trim_right P s)) s = trim_right P s"
proof -
  have "rev s = takeWhile P (rev s) @ dropWhile P (rev s)" by simp
  then have "s = trim_right P s @ rev (takeWhile P (rev s))" unfolding trim_right_def by (metis rev_append rev_rev_ident)
  then show ?thesis by (metis append_eq_conv_conj)
qed

lemma raw_size_trim:
  "raw_size (q @ v @ [CR, LF] @ ''--'' @ rest) (length q) (length v + 4) = length (trim_right ends_line v)"
proof -
  let ?m = "q @ v @ [CR, LF] @ ''--'' @ rest" and ?lo = "length q" and ?e = "length q + (length v + 2)"
  let ?x = "scan_back ends_line ?m ?lo ?e"
  have bounds: "?lo \<le> ?x" "?x \<le> ?e" by (simp_all add: scan_facts)
  have "between ?m ?lo ?x = trim_right ends_line (between ?m ?lo ?e)" by (rule between_trim_right) simp_all
  also have "between ?m ?lo ?e = v @ [CR, LF]" by (simp add: between_def)
  also have "trim_right ends_line (v @ [CR, LF]) = trim_right ends_line v"
  proof -
    have "list_all ends_line [CR, LF]" by (simp add: ends_line_def)
    then show ?thesis unfolding trim_right_append by (rule if_P)
  qed
  finally have "length (between ?m ?lo ?x) = length (trim_right ends_line v)" by simp
  then have "?x - ?lo = length (trim_right ends_line v)" using bounds by (simp add: between_def)
  moreover have "length v + 4 - 2 = length v + 2" by simp
  moreover have "(\<lambda>c. c = CR \<or> c = LF) = ends_line" by (simp add: ends_line_def fun_eq_iff)
  ultimately show ?thesis by (simp only: raw_size_def Let_def) simp
qed

text \<open>The text of the boundary is kept in front of the parts.\<close>

definition boundary_at :: "http_header \<Rightarrow> string \<Rightarrow> string \<Rightarrow> bool" where
  "boundary_at h pre b \<longleftrightarrow>
     (case fst (h_boundary h) of
        None \<Rightarrow> False
      | Some p \<Rightarrow> snd (h_boundary h) = length b \<and> p - the (headerRAW h) + length b \<le> length pre
                 \<and> slice pre (p - the (headerRAW h)) (length b) = b)"

lemma boundary_of_at: "boundary_at h pre b \<Longrightarrow> boundary_of h (pre @ rest) = b"
  by (auto simp: boundary_at_def boundary_of_def slice_def split: option.splits)

lemma boundary_at_append: "boundary_at h pre b \<Longrightarrow> boundary_at h (pre @ x) b"
  by (auto simp: boundary_at_def slice_def split: option.splits)

lemma remaining_simp: "headerRAWSize h < 2 ^ 32 \<Longrightarrow> remaining h p = headerRAWSize h - p"
  by (auto simp: remaining_def calculateRemainingDataLength_def Let_def)

lemma text_part_done:
  assumes "headerRAW h = Some a" and "headerRAWSize h < 2 ^ 32" and "part_ok b (config, name, val)"
    and "boundary_at h pre b" and "length pre + length (part_text b (config, name, val)) \<le> headerRAWSize h"
  shows "text_part h (pre @ (config @ [NUL, LF, CR, LF]) @ val @ [CR, LF] @ ''--'' @ b @ rest) (length pre)
      (length pre + length config + 4) l it
    = (pre @ part_done b (config, name, val) @ rest, item_done (a + length pre) (config, name, val) it, True)"
proof -
  obtain cpre post where c: "config = cpre @ name_mark @ name @ QUOTE # post" and k: "find_sub name_mark config = Some (length cpre)"
    and n: "list_all (\<lambda>c. \<not> terminator c \<and> c \<noteq> QUOTE) name"
    and v: "find_sub b (val @ [CR, LF] @ ''--'' @ b) = Some (length val + 4)"
    using assms(3) by (auto simp: part_ok_def)
  define cs where "cs = config[length cpre + 6 + length name := NUL] @ [NUL, LF, CR, LF]"
  define vs where "vs = val @ [CR, LF] @ ''--'' @ b"
  define q where "q = pre @ cs"
  have q: "length q = length pre + length config + 4" by (simp add: q_def cs_def)
  have vlen: "length vs = length val + 4 + length b" by (simp add: vs_def)
  have named: "part_name a (pre @ (config @ [NUL, LF, CR, LF]) @ vs @ rest) (length pre) (length config + 4) it
      = (q @ vs @ rest, it\<lparr>p_name := Some (a + (length pre + length cpre + 6)), p_nameSize := length name\<rparr>, True)"
    using part_name_found [OF c k n, of a pre "vs @ rest"] by (simp add: q_def cs_def)
  have "length vs \<le> headerRAWSize h - length q"
    using assms(5) q by (simp add: vs_def mark_lengths)
  then have "take (headerRAWSize h - length q) (vs @ rest) = vs @ take (headerRAWSize h - length q - length vs) rest" by simp
  then have found: "memmem_from (q @ vs @ rest) (length q) (remaining h (length q)) b = Some (length val + 4)"
    using find_sub_append [OF v [folded vs_def]] by (simp only: memmem_from_at remaining_simp [OF assms(2)])
  have b: "boundary_of h (q @ vs @ rest) = b"
    unfolding q_def append_assoc by (rule boundary_of_at [OF assms(4)])
  have raw: "raw_size (q @ vs @ rest) (length q) (length val + 4) = length (trim_right ends_line val)"
    using raw_size_trim [of q val "b @ rest"] by (simp add: vs_def)
  have "length (trim_right ends_line val) < length vs" using trim_le [of ends_line val] vlen by linarith
  then have "(q @ vs @ rest)[length q + length (trim_right ends_line val) := NUL]
      = q @ vs[length (trim_right ends_line val) := NUL] @ rest"
    by (simp add: list_update_append)
  also have "\<dots> = pre @ part_done b (config, name, val) @ rest"
    by (simp add: q_def cs_def vs_def k name_place_def)
  finally have ended: "(q @ vs @ rest)[length q + length (trim_right ends_line val) := NUL]
      = pre @ part_done b (config, name, val) @ rest" .
  have "text_part h (pre @ (config @ [NUL, LF, CR, LF]) @ vs @ rest) (length pre) (length q) l it
      = (pre @ part_done b (config, name, val) @ rest, item_done (a + length pre) (config, name, val) it, True)"
    using named q found b raw ended
    by (simp add: text_part_def Let_def assms(1) k name_place_def add.assoc)
  then show ?thesis by (simp add: vs_def q)
qed

lemma finalize_part_done:
  assumes "headerRAW h = Some a" and "headerRAWSize h < 2 ^ 32" and "part_ok b p"
    and "boundary_at h pre b" and "length pre + length (part_text b p) \<le> headerRAWSize h"
    and "pointerStart it = Some (a + length pre)"
  shows "finalize_part h (pre @ part_text b p @ rest) it
    = (pre @ part_done b p @ rest, item_done (a + length pre) p it, True)"
proof -
  obtain config name val where p: "p = (config, name, val)" using prod_cases3 by blast
  note ok = assms(3) [unfolded p part_ok_def prod.case]
  let ?vs = "val @ [CR, LF] @ ''--'' @ b @ rest"
  have "length config + 4 \<le> remaining h (length pre)"
    using assms(5) by (simp add: p remaining_simp [OF assms(2)] mark_lengths)
  from reach_payload [OF _ _ this, of pre ?vs 0] ok
  have block: "reachNextBlock (pre @ part_text b p @ rest) (length pre) (remaining h (length pre)) 0 True
      = (pre @ (config @ [NUL, LF, CR, LF]) @ ?vs, length pre + length config + 4, length config)"
    by (simp add: p)
  obtain q l where line: "reachNextLine (pre @ (config @ [NUL, LF, CR, LF]) @ ?vs) (length pre + length config + 4 + 1)
      (remaining h (length pre + length config + 4 + 1)) False = (pre @ (config @ [NUL, LF, CR, LF]) @ ?vs, q, l)"
    by (metis reachNextLine_keeps prod.collapse)
  have "find_sub file_mark (config @ [NUL, LF, CR, LF]) = None"
    using ok by (intro find_sub_NUL) (simp_all add: marks_without_NUL mark_lengths)
  then have none: "memmem_from (pre @ (config @ [NUL, LF, CR, LF]) @ ?vs) (length pre) (length config + 4) ''filename=\"'' = None"
    by (simp add: memmem_from_at file_mark_def)
  have "text_part h (pre @ (config @ [NUL, LF, CR, LF]) @ ?vs) (length pre) (length pre + length config + 4) l it
      = (pre @ part_done b p @ rest, item_done (a + length pre) p it, True)"
    unfolding p by (rule text_part_done) (use assms p in simp_all)
  then show ?thesis using block line none assms(1,6)
    by (simp add: finalize_part_def Let_def)
qed

section \<open>A form\<close>

fun form_text :: "string \<Rightarrow> form_part list \<Rightarrow> string" where
  "form_text b [] = []"
| "form_text b (p # ps) = part_text b p @ (if ps = [] then [] else [CR, LF] @ form_text b ps)"

fun form_done :: "string \<Rightarrow> form_part list \<Rightarrow> string" where
  "form_done b [] = []"
| "form_done b (p # ps) = part_done b p @ (if ps = [] then [] else [CR, LF] @ form_done b ps)"

text \<open>The entries that the analysis of the lines has registered.\<close>

fun form_items :: "nat \<Rightarrow> string \<Rightarrow> form_part list \<Rightarrow> post_item list" where
  "form_items start b [] = []"
| "form_items start b (p # ps) = new_part start # form_items (start + length (part_text b p) + 2) b ps"

fun items_done :: "nat \<Rightarrow> string \<Rightarrow> form_part list \<Rightarrow> post_item list" where
  "items_done start b [] = []"
| "items_done start b (p # ps) =
     item_done start p (new_part start) # items_done (start + length (part_text b p) + 2) b ps"

lemma done_length: "length (part_done b p) = length (part_text b p)"
  by (cases p) (simp add: mark_lengths)

lemma form_done_length: "length (form_done b ps) = length (form_text b ps)"
  by (induction ps) (simp_all add: done_length)

lemma finalize_parts_done:
  assumes "headerRAW h = Some a" and "headerRAWSize h < 2 ^ 32" and "list_all (part_ok b) ps"
    and "boundary_at h pre b" and "length pre + length (form_text b ps) \<le> headerRAWSize h"
    and "finalize_parts h (pre @ form_done b ps @ rest) its = (mem, its', n)"
  shows "finalize_parts h (pre @ form_text b ps @ rest) (form_items (a + length pre) b ps @ its)
    = (mem, items_done (a + length pre) b ps @ its', n + length ps)"
  using assms(3-6)
proof (induction ps arbitrary: pre)
  case (Cons p ps)
  let ?gap = "if ps = [] then [] else [CR, LF]"
  let ?q = "pre @ part_done b p @ ?gap"
  have first: "finalize_part h (pre @ part_text b p @ (?gap @ form_text b ps @ rest)) (new_part (a + length pre))
      = (pre @ part_done b p @ (?gap @ form_text b ps @ rest), item_done (a + length pre) p (new_part (a + length pre)), True)"
    by (rule finalize_part_done [OF assms(1,2)]) (use Cons.prems in \<open>simp_all add: new_part_def\<close>)
  have "finalize_parts h (?q @ form_text b ps @ rest) (form_items (a + length ?q) b ps @ its)
      = (mem, items_done (a + length ?q) b ps @ its', n + length ps)"
  proof (rule Cons.IH)
    show "boundary_at h ?q b" by (rule boundary_at_append [OF Cons.prems(2)])
    show "length ?q + length (form_text b ps) \<le> headerRAWSize h"
      using Cons.prems(3) by (cases "ps = []") (simp_all add: done_length)
    show "finalize_parts h (?q @ form_done b ps @ rest) its = (mem, its', n)"
      using Cons.prems(4) by (cases "ps = []") simp_all
  qed (use Cons.prems(1) in simp)
  moreover have "form_items (a + length ?q) b ps = form_items (a + length pre + length (part_text b p) + 2) b ps"
    and "items_done (a + length ?q) b ps = items_done (a + length pre + length (part_text b p) + 2) b ps"
    by (cases "ps = []"; simp add: done_length add.assoc)+
  ultimately show ?case using first by (cases "ps = []") simp_all
qed simp

text \<open>The entry of the line that closes a form has no name, and nothing in front of it is written.\<close>

lemma finalize_closing:
  assumes "headerRAW h = Some a" and "headerRAWSize h < 2 ^ 32" and "headerRAWSize h = length pre + 4"
  shows "\<exists>x it. finalize_part h (pre @ ''--'' @ [CR, LF] @ rest) (new_part (a + length pre)) = (pre @ x, it, False)
    \<and> p_name it = None"
proof -
  let ?m = "pre @ ''--'' @ [CR, LF] @ rest"
  have rem: "remaining h (length pre) = 4" using assms(2,3) by (simp add: remaining_simp)
  have "[0..<4 - 3] = [0::nat]" by (simp add: numeral_eq_Suc)
  moreover have "\<not> block_at ?m (length pre)" by (simp add: block_at_def)
  ultimately have block: "reachNextBlock ?m (length pre) 4 0 True = (?m, length pre, 0)" by (simp add: reachNextBlock_def)
  obtain q l where line: "reachNextLine ?m (length pre + 1) (remaining h (length pre + 1)) False = (?m, q, l)"
    by (metis reachNextLine_keeps prod.collapse)
  have absent: "memmem_from m (length pre) 0 (c # cs) = None" for m c cs
    by (simp add: memmem_from_def find_sub.simps)
  have written: "(pre @ s)[length pre + k := c] = pre @ s[k := c]" for s k c by (simp add: list_update_append)
  have "\<exists>x it. text_part h ?m (length pre) (length pre) l (new_part (a + length pre)) = (pre @ x, it, False) \<and> p_name it = None"
  proof -
    have name: "part_name a ?m (length pre) 0 it = (?m, it, False)" for it
      unfolding part_name_def by (simp only: absent option.case)
    show ?thesis
      by (auto simp: name [simplified] text_part_def Let_def written new_part_def assms(1) split: option.split)
  qed
  then show ?thesis using block line absent rem assms(1)
    by (simp add: finalize_part_def Let_def new_part_def)
qed

text \<open>The first entry with the name.\<close>

abbreviation named_item :: "http_header \<Rightarrow> string \<Rightarrow> post_item \<Rightarrow> bool" where
  "named_item h name it \<equiv> (case p_name it of None \<Rightarrow> False | Some p \<Rightarrow> text_from h p = name)"

lemma cstring_of_name:
  assumes "list_all (\<lambda>c. \<not> terminator c \<and> c \<noteq> QUOTE) name"
  shows "cstring (name @ NUL # rest) = name"
proof -
  have "takeWhile (\<lambda>c. c \<noteq> NUL) (name @ NUL # rest) = name"
    using assms by (induction name) (auto simp: terminator_def)
  then show ?thesis by (simp add: cstring_def)
qed

lemma part_done_read:
  assumes "part_ok b (config, name, val)" and "headerRAW h = Some a"
    and "headerBytes h = pre @ part_done b (config, name, val) @ rest"
  shows "text_from h (a + length pre + name_place config) = name"
    and "slice (headerBytes h) (length pre + length config + 4) (length (trim_right ends_line val)) = trim_right ends_line val"
proof -
  obtain cpre post where c: "config = cpre @ name_mark @ name @ QUOTE # post" and k: "find_sub name_mark config = Some (length cpre)"
    and n: "list_all (\<lambda>c. \<not> terminator c \<and> c \<noteq> QUOTE) name"
    using assms(1) by (auto simp: part_ok_def)
  have place: "name_place config = length (cpre @ name_mark)" by (simp add: name_place_def k mark_lengths)
  have "config[name_place config + length name := NUL] = (cpre @ name_mark) @ name @ NUL # post"
    unfolding place by (subst c) (simp add: list_update_append)
  then have bytes: "headerBytes h = (pre @ cpre @ name_mark) @ name @ NUL # (post @ [NUL, LF, CR, LF]
      @ (val @ [CR, LF] @ ''--'' @ b)[length (trim_right ends_line val) := NUL] @ rest)"
    by (simp add: assms(3))
  have "drop (length (pre @ cpre @ name_mark)) (headerBytes h) = name @ NUL # (post @ [NUL, LF, CR, LF]
      @ (val @ [CR, LF] @ ''--'' @ b)[length (trim_right ends_line val) := NUL] @ rest)"
    unfolding bytes by (rule append_eq_conv_conj [THEN iffD1, THEN conjunct2, symmetric]) simp
  moreover have "a + length pre + name_place config - a = length (pre @ cpre @ name_mark)" by (simp add: place)
  ultimately show "text_from h (a + length pre + name_place config) = name"
    using cstring_of_name [OF n] by (simp only: text_from_def assms(2) option.sel)
  let ?t = "trim_right ends_line val"
  define cs where "cs = pre @ config[name_place config + length name := NUL] @ [NUL, LF, CR, LF]"
  have cs: "length cs = length pre + length config + 4" by (simp add: cs_def)
  have t: "length ?t \<le> length val" "take (length ?t) val = ?t"
    using trim_le [of ends_line val] by (simp_all add: take_trim)
  have "slice (headerBytes h) (length cs) (length ?t)
      = take (length ?t) ((val @ [CR, LF] @ ''--'' @ b)[length ?t := NUL] @ rest)"
    by (simp add: assms(3) cs_def slice_def)
  also have "\<dots> = ?t" using t by (simp add: take_update_cancel)
  finally show "slice (headerBytes h) (length pre + length config + 4) (length ?t) = ?t" by (simp only: cs)
qed

lemma find_form:
  assumes "headerRAW h = Some a" and "list_all (part_ok b) ps" and "headerBytes h = pre @ form_done b ps @ rest"
    and "list_all (\<lambda>it. p_name it = None) its"
  shows "fetched h (case find (named_item h name) (items_done (a + length pre) b ps @ its) of
        None \<Rightarrow> (None, 0) | Some it \<Rightarrow> (p_value it, p_valueSize it))
    = map_option (trim_right ends_line) (map_of (map snd ps) name)"
  using assms(2,3)
proof (induction ps arbitrary: pre)
  case Nil
  have "find (named_item h name) its = None" using assms(4) by (auto simp: find_None_iff list_all_iff)
  then show ?case by (simp add: fetched_def)
next
  case (Cons p ps)
  obtain config n v where p: "p = (config, n, v)" using prod_cases3 by blast
  let ?gap = "if ps = [] then [] else [CR, LF]"
  let ?q = "pre @ part_done b p @ ?gap"
  have "part_ok b (config, n, v)" using Cons.prems(1) p by simp
  note read = part_done_read [OF this assms(1), of pre "?gap @ form_done b ps @ rest"]
  have bytes: "headerBytes h = pre @ part_done b (config, n, v) @ (?gap @ form_done b ps @ rest)"
    using Cons.prems(2) p by (cases "ps = []") simp_all
  show ?case
  proof (cases "n = name")
    case True
    then show ?thesis using read [OF bytes] assms(1) by (simp add: p fetched_def new_part_def add.assoc)
  next
    case False
    have "headerBytes h = ?q @ form_done b ps @ rest" using bytes p by simp
    from Cons.IH [OF _ this] Cons.prems(1)
    have "fetched h (case find (named_item h name) (items_done (a + length ?q) b ps @ its) of
        None \<Rightarrow> (None, 0) | Some it \<Rightarrow> (p_value it, p_valueSize it))
      = map_option (trim_right ends_line) (map_of (map snd ps) name)" by simp
    moreover have "items_done (a + length ?q) b ps = items_done (a + length pre + length (part_text b p) + 2) b ps"
      by (cases "ps = []") (simp_all add: done_length add.assoc)
    ultimately show ?thesis using False read(1) [OF bytes] p by (simp add: new_part_def add.assoc)
  qed
qed


text \<open>A form with one field, behind its boundary.\<close>

definition sample_part :: form_part where "sample_part = (''name=\"n\"'', ''n'', ''v'')"

definition sample_form :: http_header where
  "sample_form =
     clearHeader\<lparr>headerRAW := Some 100, headerBytes := ''B'' @ form_text ''B'' [sample_part] @ ''--'' @ [CR, LF] @ [NUL],
       headerRAWSize := 23, h_boundary := (Some 100, 1), POSTItem := [new_part 101, new_part 119]\<rparr>"

lemma sample_part_ok: "part_ok ''B'' sample_part"
proof -
  define c where "c = ''name=\"n\"''"
  have finds: "find_sub blank_line (c @ blank_line) = Some (length c)" "find_sub file_mark c = None"
    "find_sub name_mark c = Some (length [])" "NUL \<notin> set c"
    unfolding c_def by code_simp+
  have "c = [] @ name_mark @ ''n'' @ QUOTE # []" by (simp add: c_def name_mark_def)
  then have "\<exists>pre post. c = pre @ name_mark @ ''n'' @ QUOTE # post \<and> find_sub name_mark c = Some (length pre)"
    using finds(3) by blast
  moreover have "find_sub ''B'' (''v'' @ [CR, LF] @ ''--'' @ ''B'') = Some (length ''v'' + 4)" by code_simp
  ultimately show ?thesis unfolding part_ok_def sample_part_def prod.case c_def [symmetric]
    using finds by (auto simp: terminator_def)
qed


text \<open>
  The entry of the closing line never counts as parsed, so \<open>finalizePOSTData\<close> reports a failure for every
  form of this shape.
\<close>

lemma form_reported_failed:
  assumes "headerRAW h = Some a" and "headerRAWSize h < 2 ^ 32" and "list_all (part_ok b) ps" and "boundary_at h pre b"
    and "headerBytes h = pre @ form_text b ps @ ''--'' @ [CR, LF] @ rest"
    and "headerRAWSize h = length (pre @ form_text b ps) + 4"
    and "POSTItem h = form_items (a + length pre) b ps @ [new_part (a + length (pre @ form_text b ps))]"
    and "length ps < MAX_HTTP_POST_BOUNDARY_COUNT"
  shows "\<not> snd (finalizePOSTData h)"
proof -
  let ?f = "pre @ form_done b ps"
  obtain x it where "finalize_part h (?f @ ''--'' @ [CR, LF] @ rest) (new_part (a + length ?f)) = (?f @ x, it, False)"
    using finalize_closing [OF assms(1,2), of ?f rest] assms(6) by (auto simp: form_done_length)
  then have "finalize_parts h (pre @ form_done b ps @ ''--'' @ [CR, LF] @ rest) [new_part (a + length ?f)] = (?f @ x, [it], 0)"
    by simp
  from finalize_parts_done [OF assms(1-4) _ this] assms(6)
  have "finalize_parts h (headerBytes h) (POSTItem h) = (?f @ x, items_done (a + length pre) b ps @ [it], length ps)"
    by (simp add: assms(5,7) form_done_length)
  moreover have "length (form_items s b ps) = length ps" for s by (induction ps arbitrary: s) simp_all
  then have "length (POSTItem h) = length ps + 1" "take MAX_HTTP_POST_BOUNDARY_COUNT (POSTItem h) = POSTItem h"
    using assms(7,8) by simp_all
  ultimately show ?thesis by (simp add: finalizePOSTData_def)
qed

end
