(* ===== verification/Delivery.thy ===== *)
theory Delivery
  imports ReceiveLoop PostFields Chunked
begin

text \<open>
  The end of \<open>receiveAndParseIncomingHTTPRequest\<close> (\<open>src/AmmServerlib/network/recvHTTPHeader.c\<close>): a
  chunked body is decoded in place and its parts are registered again, the query and the form are cut
  into fields, and a request that failed gives up its buffer and every pointer into it.
\<close>

section \<open>The decoded body\<close>

text \<open>The transaction, whether the request is still good, and whether its body has been decoded.\<close>

definition decode_body :: "http_settings \<Rightarrow> http_transaction \<Rightarrow> (http_transaction \<times> bool \<times> bool) checked" where
  "decode_body s t =
     (let h = incomingHeader t; headerLength = headerRAWHeadSize h + 1
      in if headerRAWSize h < headerLength then Inl Out_of_bounds
         else
           (let n = headerRAWSize h - headerLength
            in case HTTPChunkedBodyDecode (Some (slice (headerBytes h) headerLength n)) (MAX_POST_TRANSACTION_SIZE s) of
                 (HTTP_CHUNKED_COMPLETE, Some body, Some decodedSize) \<Rightarrow>
                   (let h = h\<lparr>headerRAWSize := headerLength + decodedSize,
                          headerBytes := (take headerLength (headerBytes h) @ body
                              @ drop (headerLength + n) (headerBytes h))[headerLength + decodedSize := NUL],
                          POSTrequestBody := (Some (the (headerRAW h) + headerLength), decodedSize),
                          ContentLength := decodedSize, hasContentLength := True, chunked := False,
                          parsingStartOffset := headerLength\<rparr>
                    in if fst (h_boundary h) \<noteq> None \<and> ENABLE_POST s \<and> MASTER_ENABLE_POST
                       then map_sum id (\<lambda>h. (t\<lparr>incomingHeader := h\<rparr>, True, True))
                              (AnalyzePOSTBodyLines (wipePOSTData h) headerLength decodedSize)
                       else Inr (t\<lparr>incomingHeader := h\<rparr>, True, True))
               | (r, _, _) \<Rightarrow>
                   Inr (AbortRequestWithError t (if r = HTTP_CHUNKED_ERROR_TOO_BIG then 413 else 400), False, False)))"

section \<open>The fields\<close>

definition finalize_form :: "bool \<Rightarrow> http_header \<Rightarrow> http_header" where
  "finalize_form chunkedBodyDecoded h =
     (let h = (if chunkedBodyDecoded then h
               else h\<lparr>POSTrequestBody := (Some (the (headerRAW h) + headerRAWHeadSize h + 1),
                        (headerRAWSize h + 2 ^ 32 - headerRAWHeadSize h) mod 2 ^ 32)\<rparr>)
      in fst (finalizePOSTData h))"

section \<open>The end of a request\<close>

text \<open>\<open>free\<close> takes the bytes away.\<close>

definition released :: "http_header \<Rightarrow> http_header" where
  "released h =
     wipePOSTData (wipeGETData (h\<lparr>headerRAW := None, headerBytes := [], headerRAWSize := 0,
       POSTrequestBody := (None, 0), POSTrequest := (None, 0), GETrequest := (None, 0), h_cookie := (None, 0),
       h_host := (None, 0), h_referer := (None, 0), h_eTag := (None, 0), h_userAgent := (None, 0),
       h_contentType := (None, 0), h_contentDisposition := (None, 0), h_boundary := (None, 0)\<rparr>))"

definition close_request :: "http_settings \<Rightarrow> bool \<Rightarrow> bool \<Rightarrow> http_transaction \<Rightarrow> http_header \<Rightarrow> http_transaction \<times> bool" where
  "close_request s success chunkedBodyDecoded t h =
     (let h = (if success \<and> \<not> failed h \<and> requestType h = POST \<and> ENABLE_POST s \<and> MASTER_ENABLE_POST
               then finalize_form chunkedBodyDecoded h else h);
          success = (success \<and> \<not> failed h)
      in (t\<lparr>incomingHeader := if success then h else released h\<rparr>, success))"

definition finish_request :: "http_settings \<Rightarrow> bool \<Rightarrow> http_transaction \<Rightarrow> (http_transaction \<times> bool) checked" where
  "finish_request s success t =
     attempt (if success \<and> \<not> failed (incomingHeader t) \<and> chunked (incomingHeader t) then decode_body s t
              else Inr (t, success, False)) (\<lambda>(t, success, chunkedBodyDecoded).
       attempt (if success then map_sum id fst (finalizeGETData (incomingHeader t)) else Inr (incomingHeader t)) (\<lambda>h.
         Inr (close_request s success chunkedBodyDecoded t h)))"

text \<open>The whole function; None: it still waits for an answer of the system.\<close>

definition receiveAndParseIncomingHTTPRequest ::
    "http_settings \<Rightarrow> ptr \<Rightarrow> io_round list \<Rightarrow> (http_transaction \<times> bool option) checked" where
  "receiveAndParseIncomingHTTPRequest s malloc rs =
     (case malloc of
        None \<Rightarrow>
          Inr (\<lparr>incomingHeader = clearHeader\<lparr>MAXheaderRAWSize := MAX_HTTP_REQUEST_HEADER\<rparr>,
                clientDisconnected = False, statuses = []\<rparr>, Some False)
      | Some a \<Rightarrow>
          attempt (receive_loop s rs (fresh_transaction a)) (\<lambda>(t, res).
            case res of
              None \<Rightarrow> Inr (t, None)
            | Some success \<Rightarrow> map_sum id (\<lambda>(t, ok). (t, Some ok)) (finish_request s success t)))"

section \<open>What is delivered\<close>

text \<open>Lines of a body change only the list of parts.\<close>

lemma items_change_trans:
  "\<exists>items. g = h\<lparr>POSTItem := items\<rparr> \<Longrightarrow> \<exists>items. k = g\<lparr>POSTItem := items\<rparr> \<Longrightarrow> \<exists>items. k = h\<lparr>POSTItem := items\<rparr>"
  by auto

lemma items_same: "\<exists>items. h = h\<lparr>POSTItem := items\<rparr>"
  by (rule exI [of _ "POSTItem h"]) simp

lemma body_lines_step:
  assumes "body_lines h body n lineStart i = Inr h'" and "headerRAW h \<noteq> None" and "headerRAWHeadSize h > 0"
    and "body \<ge> headerRAWHeadSize h + 1"
  shows "\<exists>items. h' = h\<lparr>POSTItem := items\<rparr>"
  using assms
proof (induction "n - i" arbitrary: h lineStart i rule: less_induct)
  case less
  have line: "\<exists>items. g = h\<lparr>POSTItem := items\<rparr>" if "AnalyzePOSTLineRequest h (body + lineStart) k = Inr (g, r)" for g k r
    using post_body_step [OF that] less.prems(2-4) by (simp add: POSTLineIsBody_def)
  show ?case
  proof (cases "i < n")
    case False
    then show ?thesis using less.prems(1) line items_same [of h]
      by (subst (asm) body_lines.simps) (auto simp: map_sum_eq_Inr split: if_splits)
  next
    case True
    then obtain c where c: "read_at (headerBytes h) (body + i) = Inr c"
      using less.prems(1) by (subst (asm) body_lines.simps) (auto split: sum.splits)
    have step: "\<exists>items. h' = g\<lparr>POSTItem := items\<rparr>"
      if "body_lines g body n st j = Inr h'" and "i < j" and "\<exists>items. g = h\<lparr>POSTItem := items\<rparr>" for g st j
      by (rule less.hyps [OF _ that(1)]) (use that True less.prems(2-4) in auto)
    show ?thesis
    proof (cases "c = CR \<or> c = LF")
      case False
      then have "body_lines h body n lineStart (i + 1) = Inr h'"
        using less.prems(1) True c by (subst (asm) body_lines.simps) simp
      then show ?thesis using step [OF _ _ items_same] by simp
    next
      case eol: True
      then obtain g r j where g: "(if i > lineStart then AnalyzePOSTLineRequest h (body + lineStart) (i - lineStart)
            else Inr (h, False)) = Inr (g, r)"
        and rest: "body_lines g body n j j = Inr h'" and j: "i < j"
        using less.prems(1) True c
        by (subst (asm) body_lines.simps) (auto simp: attempt_eq_Inr Let_def split: if_splits)
      have change: "\<exists>items. g = h\<lparr>POSTItem := items\<rparr>" using g line items_same [of h] by (auto split: if_splits)
      show ?thesis by (rule items_change_trans [OF change step [OF rest j change]])
    qed
  qed
qed

text \<open>
  C5: The body of an accepted chunked request is delivered as its payload: after the decoding the body
  the application sees starts right behind the header, is the payload and nothing else, is followed by a
  NUL, has the length the request now declares, and the header in front of it is untouched.
\<close>

theorem chunked_body_delivered:
  assumes "decode_body s t = Inr (t', ok, decoded)" and "incomingHeader t = h" and "incomingHeader t' = h'"
    and "headerRAW h = Some a" and "0 < headerRAWHeadSize h" and "headerRAWSize h < length (headerBytes h)"
    and "headerRAWHeadSize h < headerRAWSize h"
    and "slice (headerBytes h) (headerRAWHeadSize h + 1) (headerRAWSize h - (headerRAWHeadSize h + 1)) = m @ rest"
    and "chunked_msg m p" and "length p \<le> MAX_POST_TRANSACTION_SIZE s" and "MAX_POST_TRANSACTION_SIZE s < 2 ^ 64"
  shows "ok \<and> decoded \<and> POSTrequestBody h' = (Some (a + headerRAWHeadSize h + 1), length p)
    \<and> slice (headerBytes h') (headerRAWHeadSize h + 1) (length p) = p
    \<and> headerBytes h' ! (headerRAWHeadSize h + 1 + length p) = NUL
    \<and> headerRAWSize h' = headerRAWHeadSize h + 1 + length p \<and> ContentLength h' = length p \<and> \<not> chunked h'
    \<and> take (headerRAWHeadSize h + 1) (headerBytes h') = take (headerRAWHeadSize h + 1) (headerBytes h)"
proof -
  define e where "e = headerRAWHeadSize h + 1"
  define n where "n = headerRAWSize h - e"
  have size: "e + n = headerRAWSize h" "\<not> headerRAWSize h < e" using assms(7) by (auto simp: e_def n_def)
  obtain buf where dec: "HTTPChunkedBodyDecode (Some (slice (headerBytes h) e n)) (MAX_POST_TRANSACTION_SIZE s)
      = (HTTP_CHUNKED_COMPLETE, Some buf, Some (length p))" and buf: "take (length p) buf = p"
    using chunked_decode_payload [OF assms(9-11), of rest] assms(8) unfolding e_def [symmetric] n_def [symmetric] by auto
  define bytes where "bytes = (take e (headerBytes h) @ buf @ drop (e + n) (headerBytes h))[e + length p := NUL]"
  define g where "g = h\<lparr>headerRAWSize := e + length p, headerBytes := bytes, POSTrequestBody := (Some (a + e), length p),
      ContentLength := length p, hasContentLength := True, chunked := False, parsingStartOffset := e\<rparr>"
  note run = assms(1) [unfolded decode_body_def Let_def assms(2), folded e_def, folded n_def,
      unfolded if_not_P [OF size(2)] dec prod.case option.case chunk_scan.case assms(4) option.sel,
      folded bytes_def, folded g_def]
  have kept: "fst (h_boundary g) = fst (h_boundary h)" by (simp add: g_def)
  have step: "ok \<and> decoded \<and> (\<exists>items. h' = g\<lparr>POSTItem := items\<rparr>)"
  proof (cases "fst (h_boundary h) \<noteq> None \<and> ENABLE_POST s \<and> MASTER_ENABLE_POST")
    case True
    then have "map_sum id (\<lambda>h. (t\<lparr>incomingHeader := h\<rparr>, True, True)) (AnalyzePOSTBodyLines (wipePOSTData g) e (length p))
        = Inr (t', ok, decoded)"
      using run by (simp only: kept if_True simp_thms)
    then obtain k where "AnalyzePOSTBodyLines (wipePOSTData g) e (length p) = Inr k" and k: "t' = t\<lparr>incomingHeader := k\<rparr>"
      and flags: "ok" "decoded"
      by (auto simp: map_sum_eq_Inr)
    then have "body_lines (wipePOSTData g) e (length p) 0 0 = Inr k" by (simp add: AnalyzePOSTBodyLines_def)
    from body_lines_step [OF this] have "\<exists>items. k = (wipePOSTData g)\<lparr>POSTItem := items\<rparr>"
      using assms(4,5) by (simp add: wipePOSTData_def g_def e_def)
    then have "\<exists>items. k = g\<lparr>POSTItem := items\<rparr>" by (simp add: wipePOSTData_def)
    then show ?thesis using flags k assms(3) by simp
  next
    case False
    then have "Inr (t\<lparr>incomingHeader := g\<rparr>, True, True) = (Inr (t', ok, decoded) :: (http_transaction \<times> bool \<times> bool) checked)"
      using run by (simp only: kept if_False)
    then show ?thesis using assms(3) items_same [of g] by auto
  qed
  have buflen: "length p \<le> length buf" using buf by (metis length_take min.cobounded2 min.commute)
  have e: "length (take e (headerBytes h)) = e" using assms(6) size by simp
  define r where "r = drop (length p) buf @ drop (e + n) (headerBytes h)"
  have "buf @ drop (e + n) (headerBytes h) = p @ r" using buf unfolding r_def by (metis append.assoc append_take_drop_id)
  then have "bytes = (take e (headerBytes h) @ p @ r)[length (take e (headerBytes h)) + length p := NUL]"
    by (simp only: bytes_def e)
  then have bytes: "bytes = take e (headerBytes h) @ p @ r[0 := NUL]"
    by (simp add: list_update_append del: length_take)
  have "r \<noteq> []" using assms(6) size by (simp add: r_def)
  then have "r[0 := NUL] ! 0 = NUL" by (simp add: nth_list_update)
  then have "bytes ! (e + length p) = NUL" "slice bytes e (length p) = p" "take e bytes = take e (headerBytes h)"
    using e by (simp_all add: bytes slice_def nth_append)
  then show ?thesis using step by (auto simp: g_def e_def)
qed

definition sample_chunked :: http_transaction where
  "sample_chunked =
     \<lparr>incomingHeader = clearHeader\<lparr>requestType := POST, chunked := True, headerRAW := Some 100, headerRAWHeadSize := 1,
        headerBytes := [LF, LF] @ (''5'' @ crlf @ ''hello'' @ crlf @ ''0'' @ crlf @ crlf) @ [NUL], headerRAWSize := 17\<rparr>,
      clientDisconnected = False, statuses = []\<rparr>"

theorem chunked_body_delivered_witness:
  "\<exists>t'. decode_body (initial_settings ''www'') sample_chunked = Inr (t', True, True)
     \<and> slice (headerBytes (incomingHeader t')) 2 5 = ''hello'' \<and> ContentLength (incomingHeader t') = 5"
proof -
  let ?s = "initial_settings ''www''" and ?m = "''5'' @ crlf @ ''hello'' @ crlf @ ''0'' @ crlf @ crlf"
  have limits: "length ''hello'' \<le> MAX_POST_TRANSACTION_SIZE ?s" "MAX_POST_TRANSACTION_SIZE ?s < 2 ^ 64"
    by (simp_all add: initial_settings_def DEFAULT_MAX_HTTP_POST_REQUEST_HEADER_def)
  have body: "slice (headerBytes (incomingHeader sample_chunked)) (headerRAWHeadSize (incomingHeader sample_chunked) + 1)
      (headerRAWSize (incomingHeader sample_chunked) - (headerRAWHeadSize (incomingHeader sample_chunked) + 1)) = ?m @ []"
    by (simp add: sample_chunked_def slice_def)
  have "slice (headerBytes (incomingHeader sample_chunked)) 2 15 = ?m" by (simp add: sample_chunked_def slice_def)
  then obtain buf where "HTTPChunkedBodyDecode (Some (slice (headerBytes (incomingHeader sample_chunked)) 2 15))
      (MAX_POST_TRANSACTION_SIZE ?s) = (HTTP_CHUNKED_COMPLETE, Some buf, Some 5)"
    using chunked_decode_payload [OF hello_msg limits, of "[]"] by auto
  then obtain t' where run: "decode_body ?s sample_chunked = Inr (t', True, True)"
    by (simp add: decode_body_def sample_chunked_def clearHeader_def Let_def numeral_2_eq_2)
  have at: "headerRAWHeadSize (incomingHeader sample_chunked) + 1 = 2" "length ''hello'' = 5"
    by (simp_all add: sample_chunked_def)
  have "headerRAW (incomingHeader sample_chunked) = Some 100" "0 < headerRAWHeadSize (incomingHeader sample_chunked)"
    "headerRAWSize (incomingHeader sample_chunked) < length (headerBytes (incomingHeader sample_chunked))"
    "headerRAWHeadSize (incomingHeader sample_chunked) < headerRAWSize (incomingHeader sample_chunked)"
    by (simp_all add: sample_chunked_def)
  from chunked_body_delivered [OF run refl refl this body hello_msg limits]
  have "slice (headerBytes (incomingHeader t')) 2 5 = ''hello'' \<and> ContentLength (incomingHeader t') = 5"
    unfolding at by blast
  with run show ?thesis by blast
qed

section \<open>A request that failed\<close>

definition cookie_pointers :: "http_header \<Rightarrow> ptr list" where
  "cookie_pointers h = concat (map (\<lambda>it. [g_name it, g_value it]) (filter g_realloc (COOKIEItem h)))"

text \<open>
  C6: A request that fails gives up its buffer: nothing is left in it, and of all pointers into it
  only those of the cookies remain, which still hold their addresses.
\<close>

theorem failed_request_released:
  assumes "finish_request s success t = Inr (t', False)"
  shows "headerRAW (incomingHeader t') = None \<and> headerBytes (incomingHeader t') = [] \<and> headerRAWSize (incomingHeader t') = 0
    \<and> fst (GETrequest (incomingHeader t')) = None \<and> fst (POSTrequestBody (incomingHeader t')) = None
    \<and> set (header_pointers (incomingHeader t')) = {None} \<union> set (cookie_pointers (incomingHeader t'))"
proof -
  obtain u ok decoded g where "close_request s ok decoded u g = (t', False)"
    using assms by (auto simp: finish_request_def attempt_eq_Inr)
  define h where "h = (if ok \<and> \<not> failed g \<and> requestType g = POST \<and> ENABLE_POST s \<and> MASTER_ENABLE_POST
      then finalize_form decoded g else g)"
  have "(u\<lparr>incomingHeader := if ok \<and> \<not> failed h then h else released h\<rparr>, ok \<and> \<not> failed h) = (t', False)"
    using \<open>close_request s ok decoded u g = (t', False)\<close> by (simp only: close_request_def Let_def h_def)
  then have "incomingHeader t' = released h" by auto
  then show ?thesis
    by (auto simp: released_def wipePOSTData_def wipeGETData_def header_pointers_def cookie_pointers_def)
qed

theorem failed_request_released_witness:
  "finish_request (initial_settings ''www'') False sample_chunked
     = Inr (sample_chunked\<lparr>incomingHeader := released (incomingHeader sample_chunked)\<rparr>, False)
   \<and> headerRAW (released (incomingHeader sample_chunked)) = None"
proof -
  have run: "finish_request (initial_settings ''www'') False sample_chunked
      = Inr (sample_chunked\<lparr>incomingHeader := released (incomingHeader sample_chunked)\<rparr>, False)"
    by (simp add: finish_request_def close_request_def attempt_def)
  from failed_request_released [OF run] run show ?thesis by simp
qed

text \<open>The length of a body that was not chunked counts one byte too many.\<close>

lemma plain_body_size:
  assumes "headerRAW h = Some a" and "headerRAWHeadSize h < headerRAWSize h" and "headerRAWSize h < 2 ^ 32"
  shows "POSTrequestBody (finalize_form False h)
    = (Some (a + (headerRAWHeadSize h + 1)), headerRAWSize h - (headerRAWHeadSize h + 1) + 1)"
proof -
  have "POSTrequestBody (fst (finalizePOSTData g)) = POSTrequestBody g" for g
    by (simp add: finalizePOSTData_def Let_def split: prod.split)
  moreover have "(headerRAWSize h + 2 ^ 32 - headerRAWHeadSize h) mod 2 ^ 32 = headerRAWSize h - headerRAWHeadSize h"
    using assms(2,3) by (simp add: mod_if)
  ultimately show ?thesis using assms(1,2) by (simp add: finalize_form_def Let_def)
qed

end
