(* ===== verification/Tokens.thy ===== *)
theory Tokens
  imports HeaderLines
begin

text \<open>
  Credentials and tokens: the base64 encoder and the generator of session tokens of
  \<open>src/AmmServerlib/tools/http_tools.c\<close>, and \<open>SetUsernameAndPassword\<close> of
  \<open>src/AmmServerlib/server_configuration.c\<close>, whose text the Authorization header of a request is
  compared to.
\<close>

section \<open>Base64\<close>

definition base64 :: string where
  "base64 = ''ABCDEFGHIJKLMNOPQRSTUVWXYZabcdefghijklmnopqrstuvwxyz0123456789+/''"

text \<open>One to three bytes, and the four characters they become; the switch falls through its cases.\<close>

definition triad_bits :: "string \<Rightarrow> nat" where
  "triad_bits src =
     (let sr = foldl (\<lambda>sr c. sr * 2 ^ 8 + byte_val c) 0 src
      in sr * 2 ^ ((6 - (8 * length src) mod 6) mod 6))"

definition triad_chars :: "string \<Rightarrow> string" where
  "triad_chars src =
     (let sr = triad_bits src; byte = length src;
          (d3, sr) = (if byte = 3 then (base64 ! (sr mod 64), sr div 64) else (CHR ''='', sr));
          (d2, sr) = (if byte \<ge> 2 then (base64 ! (sr mod 64), sr div 64) else (CHR ''='', sr));
          (d1, sr) = (base64 ! (sr mod 64), sr div 64)
      in [base64 ! (sr mod 64), d1, d2, d3])"

function base64_loop :: "string \<Rightarrow> nat \<Rightarrow> string \<times> bool" where
  "base64_loop src d_len =
     (if src = [] then ([], True)
      else if d_len < 4 then ([], False)
      else (case base64_loop (drop 3 src) (d_len - 4) of (dst, ok) \<Rightarrow> (triad_chars (take 3 src) @ dst, ok)))"
  by pat_completeness auto
termination
  by (relation "measure (\<lambda>(src, d_len). length src)") auto

declare base64_loop.simps [simp del]

text \<open>The \<open>d_len\<close> bytes of the destination and the answer.\<close>

definition encodeToBase64 :: "string \<Rightarrow> nat \<Rightarrow> string \<times> bool" where
  "encodeToBase64 src d_len =
     (case base64_loop src d_len of (dst, ok) \<Rightarrow> (dst @ replicate (d_len - length dst) NUL, ok))"

section \<open>Credentials\<close>

text \<open>
  \<open>malloc1\<close> and \<open>malloc2\<close> say whether the two buffers could be allocated, \<open>malloc3\<close> whether the copy
  for the settings could.
\<close>

definition AssignStr :: "bool \<Rightarrow> string option \<Rightarrow> string option \<times> bool" where
  "AssignStr malloc source =
     (case source of None \<Rightarrow> (None, True) | Some s \<Rightarrow> if malloc then (Some s, True) else (None, False))"

text \<open>
  The buffer of the encoded text has one byte that is never cleared; a text that fills the rest of it has
  no end.
\<close>

definition SetUsernameAndPassword ::
    "bool \<Rightarrow> bool \<Rightarrow> bool \<Rightarrow> http_settings \<Rightarrow> string option \<Rightarrow> string option \<Rightarrow> (http_settings \<times> bool) checked" where
  "SetUsernameAndPassword malloc1 malloc2 malloc3 s username password =
     (let user = (case username of None \<Rightarrow> [] | Some u \<Rightarrow> u);
          pass = (case password of None \<Rightarrow> [] | Some p \<Rightarrow> p);
          pass_size = 2 + length user + length pass
      in if pass_size > MAX_QUERY then Inr (s, False)
         else if \<not> malloc1 then Inr (s, False)
         else if \<not> malloc2 then Inr (s, False)
         else
           (let mixed_string = user @ CHR '':'' # pass
            in case encodeToBase64 mixed_string (pass_size * 2) of
                 (base64pass, result) \<Rightarrow>
                   if \<not> result then Inr (s, False)
                   else if NUL \<notin> set base64pass then Inl Out_of_bounds
                   else Inr (s\<lparr>BASE64PASSWORD := fst (AssignStr malloc3 (Some (cstring base64pass))),
                               PASSWORD_PROTECTION := True\<rparr>, True)))"

section \<open>Tokens\<close>

definition base64url :: string where
  "base64url = ''ABCDEFGHIJKLMNOPQRSTUVWXYZabcdefghijklmnopqrstuvwxyz0123456789-_''"

text \<open>The six highest of the \<open>bitCount\<close> bits that wait, as long as there are six.\<close>

function token_emit :: "nat \<Rightarrow> nat \<Rightarrow> string \<times> nat" where
  "token_emit bitBuffer bitCount =
     (if bitCount \<ge> 6 then
        (case token_emit bitBuffer (bitCount - 6) of
           (out, n) \<Rightarrow> (base64url ! ((bitBuffer div 2 ^ (bitCount - 6)) mod 64) # out, n))
      else ([], bitCount))"
  by pat_completeness auto
termination
  by (relation "measure (\<lambda>(b, n). n)") auto

declare token_emit.simps [simp del]

fun token_loop :: "nat \<Rightarrow> nat \<Rightarrow> string \<Rightarrow> string" where
  "token_loop bitBuffer bitCount [] =
     (if bitCount > 0 then [base64url ! ((bitBuffer * 2 ^ (6 - bitCount)) mod 2 ^ 32 mod 64)] else [])"
| "token_loop bitBuffer bitCount (c # raw) =
     (let bitBuffer = (bitBuffer * 2 ^ 8) mod 2 ^ 32 + byte_val c
      in case token_emit bitBuffer (bitCount + 8) of (out, n) \<Rightarrow> out @ token_loop bitBuffer n raw)"

text \<open>
  \<open>raw\<close> is what the random source of the system delivers, None when it fails; the C string that is
  written to \<open>out\<close>, or None for the answer 0.
\<close>

definition AmmServer_GenerateSecureToken :: "string option \<Rightarrow> nat \<Rightarrow> nat \<Rightarrow> bool \<Rightarrow> string option" where
  "AmmServer_GenerateSecureToken raw outSize numRandomBytes malloc =
     (if numRandomBytes = 0 then None
      else if outSize < (((numRandomBytes * 8 + 5) mod 2 ^ 32) div 6 + 1) mod 2 ^ 32 then None
      else if \<not> malloc then None
      else (case raw of None \<Rightarrow> None | Some raw \<Rightarrow> Some (token_loop 0 0 (take numRandomBytes raw))))"

section \<open>Decoding\<close>

definition place_in :: "string \<Rightarrow> char \<Rightarrow> nat" where
  "place_in table c = length (takeWhile (\<lambda>x. x \<noteq> c) table)"

lemma place_in_nth: "distinct table \<Longrightarrow> i < length table \<Longrightarrow> place_in table (table ! i) = i"
proof (induction table arbitrary: i)
  case (Cons x table)
  then show ?case by (cases i) (auto simp: place_in_def)
qed simp

lemma base64_table: "distinct base64" "length base64 = 64" "CHR ''='' \<notin> set base64"
  "list_all (\<lambda>c. 33 \<le> byte_val c \<and> byte_val c < 127) base64"
  unfolding base64_def by code_simp+

lemma base64url_table: "distinct base64url" "length base64url = 64"
  unfolding base64url_def by code_simp+

lemma base64_place: "place_in base64 (base64 ! (n mod 64)) = n mod 64"
  by (rule place_in_nth) (simp_all add: base64_table)

lemma base64url_place: "place_in base64url (base64url ! (n mod 64)) = n mod 64"
  by (rule place_in_nth) (simp_all add: base64url_table)

lemma base64_nth: "base64 ! (n mod 64) \<noteq> CHR ''=''" "33 \<le> byte_val (base64 ! (n mod 64))" "byte_val (base64 ! (n mod 64)) < 127"
proof -
  have "base64 ! (n mod 64) \<in> set base64" by (simp add: base64_table)
  then show "base64 ! (n mod 64) \<noteq> CHR ''=''" "33 \<le> byte_val (base64 ! (n mod 64))" "byte_val (base64 ! (n mod 64)) < 127"
    using base64_table(3,4) by (auto simp: list_all_iff)
qed

text \<open>The decoder of RFC 4648, for the text of whole quadruples.\<close>

definition sextets :: "string \<Rightarrow> nat" where
  "sextets cs = foldl (\<lambda>v c. v * 64 + place_in base64 c) 0 cs"

fun base64_decode :: "string \<Rightarrow> string" where
  "base64_decode (a # b # c # d # rest) =
     (if c = CHR ''='' then [char_of (sextets [a, b] div 16)]
      else if d = CHR ''='' then [char_of (sextets [a, b, c] div 1024), char_of (sextets [a, b, c] div 4 mod 256)]
      else [char_of (sextets [a, b, c, d] div 65536), char_of (sextets [a, b, c, d] div 256 mod 256),
            char_of (sextets [a, b, c, d] mod 256)])
     @ base64_decode rest"
| "base64_decode _ = []"

lemma base64_digits:
  "v < 64 ^ 2 \<Longrightarrow> v div 64 mod 64 * 64 + v mod 64 = v"
  "v < 64 ^ 3 \<Longrightarrow> (v div 64 div 64 mod 64 * 64 + v div 64 mod 64) * 64 + v mod 64 = v"
  "v < 64 ^ 4 \<Longrightarrow> ((v div 64 div 64 div 64 mod 64 * 64 + v div 64 div 64 mod 64) * 64 + v div 64 mod 64) * 64 + v mod 64 = v"
  for v :: nat
proof -
  show two: "v < 64 ^ 2 \<Longrightarrow> v div 64 mod 64 * 64 + v mod 64 = v" for v :: nat
    by (simp add: less_mult_imp_div_less)
  show three: "v < 64 ^ 3 \<Longrightarrow> (v div 64 div 64 mod 64 * 64 + v div 64 mod 64) * 64 + v mod 64 = v" for v :: nat
    by (subst two) (simp_all add: less_mult_imp_div_less)
  show "v < 64 ^ 4 \<Longrightarrow> ((v div 64 div 64 div 64 mod 64 * 64 + v div 64 div 64 mod 64) * 64 + v div 64 mod 64) * 64 + v mod 64 = v"
    by (subst three) (simp_all add: less_mult_imp_div_less)
qed

lemma byte_below:
  fixes q z :: nat
  assumes "z < 256"
  shows "(q * 256 + z) div 256 = q" "(q * 256 + z) mod 256 = z"
  using assms by simp_all

lemma bytes_of_value:
  fixes x y z :: nat
  assumes "x < 256" and "y < 256" and "z < 256"
  shows "(x * 256 + y) * 256 + z < 64 ^ 4" and "((x * 256 + y) * 256 + z) div 65536 = x"
    and "((x * 256 + y) * 256 + z) div 256 mod 256 = y" and "((x * 256 + y) * 256 + z) mod 256 = z"
    and "(x * 256 + y) * 4 < 64 ^ 3" and "(x * 256 + y) * 4 div 1024 = x" and "(x * 256 + y) * 4 div 4 mod 256 = y"
    and "x * 16 < 64 ^ 2"
proof -
  show "(x * 256 + y) * 256 + z < 64 ^ 4" "(x * 256 + y) * 4 < 64 ^ 3" "x * 16 < 64 ^ 2" using assms by simp_all
  show "((x * 256 + y) * 256 + z) div 256 mod 256 = y" "((x * 256 + y) * 256 + z) mod 256 = z"
    by (simp_all only: byte_below [OF assms(2)] byte_below [OF assms(3)])
  have "((x * 256 + y) * 256 + z) div (256 * 256) = x" by (simp only: div_mult2_eq byte_below [OF assms(2)] byte_below [OF assms(3)])
  then show "((x * 256 + y) * 256 + z) div 65536 = x" by simp
  have "(x * 256 + y) * 4 div (4 * 256) = x" by (simp only: div_mult2_eq) (simp add: assms(2))
  then show "(x * 256 + y) * 4 div 1024 = x" by simp
  have "(x * 256 + y) * 4 div 4 = x * 256 + y" by simp
  then show "(x * 256 + y) * 4 div 4 mod 256 = y" by (simp only: byte_below [OF assms(2)])
qed

lemma sextets_of:
  "v < 64 ^ 2 \<Longrightarrow> sextets [base64 ! (v div 64 mod 64), base64 ! (v mod 64)] = v"
  "v < 64 ^ 3 \<Longrightarrow> sextets [base64 ! (v div 64 div 64 mod 64), base64 ! (v div 64 mod 64), base64 ! (v mod 64)] = v"
  "v < 64 ^ 4 \<Longrightarrow> sextets [base64 ! (v div 64 div 64 div 64 mod 64), base64 ! (v div 64 div 64 mod 64),
      base64 ! (v div 64 mod 64), base64 ! (v mod 64)] = v"
  by (simp_all only: sextets_def foldl.simps base64_place base64_digits mult_0 add_0)

lemma decode_quad:
  assumes "triad_bits src = v"
  shows "length src = 1 \<Longrightarrow> triad_chars src = [base64 ! (v div 64 mod 64), base64 ! (v mod 64), CHR ''='', CHR ''='']"
    and "length src = 2 \<Longrightarrow> triad_chars src
      = [base64 ! (v div 64 div 64 mod 64), base64 ! (v div 64 mod 64), base64 ! (v mod 64), CHR ''='']"
    and "length src = 3 \<Longrightarrow> triad_chars src
      = [base64 ! (v div 64 div 64 div 64 mod 64), base64 ! (v div 64 div 64 mod 64), base64 ! (v div 64 mod 64),
         base64 ! (v mod 64)]"
  by (simp_all add: triad_chars_def assms Let_def)

lemma triad_decode:
  assumes "src \<noteq> []" and "length src \<le> 3"
  shows "base64_decode (triad_chars src @ rest) = src @ base64_decode rest"
proof -
  note lt = byte_val_lt
  have char: "char_of (byte_val c) = c" for c by simp
  consider (one) x where "src = [x]" | (two) x y where "src = [x, y]" | (three) x y z where "src = [x, y, z]"
  proof (cases src)
    case (Cons x r)
    then show ?thesis using assms(2) that by (cases r; cases "tl r") auto
  qed (use assms(1) in simp)
  then show ?thesis
  proof cases
    case one
    have v: "triad_bits src = byte_val x * 16" by (simp add: triad_bits_def one)
    have "length src = 1" by (simp add: one)
    then show ?thesis
      by (simp only: decode_quad(1) [OF v] append_Cons append_Nil base64_decode.simps if_True
          sextets_of(1) [OF bytes_of_value(8) [OF lt lt lt]]) (simp add: one)
  next
    case two
    have v: "triad_bits src = (byte_val x * 256 + byte_val y) * 4" by (simp add: triad_bits_def two)
    have "length src = 2" by (simp add: two)
    then show ?thesis
      by (simp only: decode_quad(2) [OF v] append_Cons append_Nil base64_decode.simps if_True if_False base64_nth
          sextets_of(2) [OF bytes_of_value(5) [OF lt lt lt]] bytes_of_value(6,7) [OF lt lt lt] char) (simp add: two)
  next
    case three
    have v: "triad_bits src = (byte_val x * 256 + byte_val y) * 256 + byte_val z" by (simp add: triad_bits_def three)
    have "length src = 3" by (simp add: three)
    then show ?thesis
      by (simp only: decode_quad(3) [OF v] append_Cons append_Nil base64_decode.simps if_False base64_nth
          sextets_of(3) [OF bytes_of_value(1) [OF lt lt lt]] bytes_of_value(2-4) [OF lt lt lt] char) (simp add: three)
  qed
qed

section \<open>What is encoded\<close>

lemma triad_chars_printable:
  "list_all (\<lambda>c. 33 \<le> byte_val c \<and> byte_val c < 127) (triad_chars src) \<and> length (triad_chars src) = 4"
  using base64_nth(2,3) by (simp add: triad_chars_def Let_def)

definition encoded_length :: "nat \<Rightarrow> nat" where "encoded_length n = 4 * ((n + 2) div 3)"

lemma encoded_length_step: "0 < n \<Longrightarrow> encoded_length n = 4 + encoded_length (n - 3)"
proof (cases "3 \<le> n")
  case True
  then have "n + 2 = n - 3 + 2 + 3" by simp
  then have "(n + 2) div 3 = (n - 3 + 2 + 3) div 3" by (simp only:)
  also have "\<dots> = (n - 3 + 2) div 3 + 1" by (rule div_add_self2) simp
  finally show ?thesis by (simp add: encoded_length_def)
next
  case False
  assume "0 < n"
  with False have "n = 1 \<or> n = 2" by auto
  then show ?thesis by (auto simp: encoded_length_def)
qed

lemma base64_loop_spec:
  "if encoded_length (length src) \<le> d
   then snd (base64_loop src d) \<and> base64_decode (fst (base64_loop src d)) = src
     \<and> length (fst (base64_loop src d)) = encoded_length (length src)
     \<and> list_all (\<lambda>c. 33 \<le> byte_val c \<and> byte_val c < 127) (fst (base64_loop src d))
   else \<not> snd (base64_loop src d)"
proof (induction "length src" arbitrary: src d rule: less_induct)
  case less
  show ?case
  proof (cases "src = []")
    case True
    then show ?thesis by (simp add: base64_loop.simps encoded_length_def)
  next
    case False
    then have "0 < length src" by simp
    then have len: "encoded_length (length src) = 4 + encoded_length (length (drop 3 src))"
      unfolding length_drop by (rule encoded_length_step)
    have IH: "if encoded_length (length (drop 3 src)) \<le> d - 4
      then snd (base64_loop (drop 3 src) (d - 4)) \<and> base64_decode (fst (base64_loop (drop 3 src) (d - 4))) = drop 3 src
        \<and> length (fst (base64_loop (drop 3 src) (d - 4))) = encoded_length (length (drop 3 src))
        \<and> list_all (\<lambda>c. 33 \<le> byte_val c \<and> byte_val c < 127) (fst (base64_loop (drop 3 src) (d - 4)))
      else \<not> snd (base64_loop (drop 3 src) (d - 4))"
      using less [of "drop 3 src" "d - 4"] False by simp
    have step: "base64_loop src d = (if d < 4 then ([], False)
        else (triad_chars (take 3 src) @ fst (base64_loop (drop 3 src) (d - 4)), snd (base64_loop (drop 3 src) (d - 4))))"
      using False by (subst base64_loop.simps) (simp split: prod.split)
    have "base64_decode (triad_chars (take 3 src) @ r) = take 3 src @ base64_decode r" for r
      using False by (intro triad_decode) simp_all
    then show ?thesis using IH len triad_chars_printable [of "take 3 src"] by (auto simp: step)
  qed
qed

lemma base64_loop_same:
  "base64_loop src d = (a, True) \<Longrightarrow> base64_loop src d' = (b, True) \<Longrightarrow> a = b"
proof (induction "length src" arbitrary: src d d' a b rule: less_induct)
  case less
  show ?case
  proof (cases "src = []")
    case True
    then show ?thesis using less.prems by (simp add: base64_loop.simps)
  next
    case False
    obtain a1 b1 where a1: "base64_loop (drop 3 src) (d - 4) = (a1, True)" "a = triad_chars (take 3 src) @ a1"
      and b1: "base64_loop (drop 3 src) (d' - 4) = (b1, True)" "b = triad_chars (take 3 src) @ b1"
      using less.prems False by (subst (asm) base64_loop.simps, subst (asm) (2) base64_loop.simps)
        (auto split: if_splits prod.splits)
    have "a1 = b1" by (rule less.hyps [OF _ a1(1) b1(1)]) (use False in simp)
    then show ?thesis using a1 b1 by simp
  qed
qed

lemma printable_cstring:
  assumes "list_all (\<lambda>c. 33 \<le> byte_val c \<and> byte_val c < 127) cs"
  shows "cstring (cs @ replicate k NUL) = cs" and "NUL \<notin> set cs"
proof -
  show nul: "NUL \<notin> set cs" using assms by (auto simp: list_all_iff)
  have "takeWhile (\<lambda>c. c \<noteq> NUL) (cs @ replicate k NUL) = cs"
    using nul by (subst takeWhile_append2) auto
  then show "cstring (cs @ replicate k NUL) = cs" by (simp add: cstring_def)
qed

text \<open>
  The encoder of credentials answers that it succeeded exactly when the destination has room for
  four characters per started group of three bytes, and then decoding what it wrote, as RFC 4648
  says, gives the source back.
\<close>

lemma base64_roundtrip:
  "if encoded_length (length src) \<le> d_len
   then snd (encodeToBase64 src d_len) \<and> base64_decode (cstring (fst (encodeToBase64 src d_len))) = src
     \<and> length (fst (encodeToBase64 src d_len)) = d_len
   else \<not> snd (encodeToBase64 src d_len)"
proof -
  obtain dst ok where loop: "base64_loop src d_len = (dst, ok)" by fastforce
  then show ?thesis using base64_loop_spec [of src d_len] printable_cstring(1) [of dst "d_len - length dst"]
    by (auto simp: encodeToBase64_def)
qed

lemma base64_roundtrip_witness:
  "snd (encodeToBase64 ''admin:ammar'' 26) \<and> base64_decode (cstring (fst (encodeToBase64 ''admin:ammar'' 26))) = ''admin:ammar''"
proof -
  have "encoded_length (length ''admin:ammar'') \<le> 26" by (simp add: encoded_length_def)
  then show ?thesis using base64_roundtrip [of "''admin:ammar''" 26] by simp
qed

section \<open>Who is let in\<close>

lemma authorized_line:
  assumes "drop offset (headerBytes h) = ''Authorization: Basic '' @ cs @ CR # rest"
    and "list_all (\<lambda>c. 33 \<le> byte_val c \<and> byte_val c < 127) cs" and "cs \<noteq> []"
  shows "\<exists>h'. ProcessAuthorizationHTTPLine s h offset (21 + length cs) 14 = Inr (h', True)
    \<and> (authorized h' \<longleftrightarrow> BASE64PASSWORD s = Some cs)"
proof -
  define r where "r = drop offset (headerBytes h)"
  let ?n = "21 + length cs"
  obtain c cr where cs: "cs = c # cr" using assms(3) by (cases cs) auto
  have c: "c \<noteq> SPC" using assms(2) by (auto simp: cs)
  have r: "r = ''Authorization: Basic '' @ cs @ CR # rest" using assms(1) by (simp add: r_def)
  have at: "r ! 15 = CHR ''B''" "r ! 20 = SPC" "r ! 21 = c" by (simp_all add: r cs)
  have one: "scan_while (\<lambda>c. c = SPC) r ?n 15 = 15" by (subst scan_while.simps) (simp add: at)
  have two: "scan_while (\<lambda>c. c = SPC) r ?n 20 = 21"
    using c by (subst scan_while.simps, simp add: at cs, subst scan_while.simps) (simp add: at)
  define t where "t = trim_last_empty_chars r ?n"
  have word: "length ''Basic'' = 5" by simp
  have len: "length ''Authorization: Basic '' = 21" by simp
  have "take ?n r = ''Authorization: Basic '' @ cs" "drop ?n r = CR # rest"
    unfolding r by (simp_all only: len [symmetric]) (simp_all add: )
  then have "t = map (\<lambda>c. if schar_val c < 33 then NUL else c) (''Authorization: Basic '' @ cs) @ CR # rest"
    by (simp add: t_def trim_last_empty_chars_def)
  moreover have "map (\<lambda>c. if schar_val c < 33 then NUL else c) cs = cs"
    using assms(2) by (induction cs) (auto simp: schar_val_def)
  ultimately have t: "drop 21 t = cs @ CR # rest" "length t = 21 + length cs + 1 + length rest" by simp_all
  have "takeWhile (\<lambda>c. \<not> terminator c) (cs @ CR # rest) = cs"
  proof (subst takeWhile_append2)
    show "\<not> terminator x" if "x \<in> set cs" for x
      using that assms(2) by (auto simp: terminator_def list_all_iff)
  qed (simp add: terminator_def)
  then have pay: "takeWhile (\<lambda>c. \<not> terminator c) (drop 21 t) = cs" by (simp only: t)
  show ?thesis
    unfolding ProcessAuthorizationHTTPLine_def Let_def r_def [symmetric]
    using one two t(2) assms(3)
    by (simp add: word pay t_def [symmetric] write_at_def map_sum_eq_Inr del: append_Cons)
qed

text \<open>The text the settings hold once a user name and a password have been set.\<close>

lemma credentials_set:
  assumes "length u + length p + 2 \<le> MAX_QUERY" and "u \<noteq> [] \<or> p \<noteq> []"
  shows "\<exists>cs. SetUsernameAndPassword True True True s (Some u) (Some p)
      = Inr (s\<lparr>BASE64PASSWORD := Some cs, PASSWORD_PROTECTION := True\<rparr>, True)
    \<and> (\<exists>d. base64_loop (u @ CHR '':'' # p) d = (cs, True))"
proof -
  let ?m = "u @ CHR '':'' # p" and ?d = "(2 + length u + length p) * 2"
  obtain dst ok where loop: "base64_loop ?m ?d = (dst, ok)" by fastforce
  define n where "n = length u + length p"
  have room: "4 * q < (2 + n) * 2" if "0 < n" and "3 * q \<le> n + 1 + 2" for q using that by arith
  have "0 < n" using assms(2) by (auto simp: n_def)
  then have fits: "encoded_length (n + 1) < (2 + n) * 2" using times_div_less_eq_dividend [of 3 "n + 1 + 2"]
    unfolding encoded_length_def by (rule room)
  then have spec: "ok" "base64_decode dst = ?m" "length dst < ?d"
    "list_all (\<lambda>c. 33 \<le> byte_val c \<and> byte_val c < 127) dst"
    using base64_loop_spec [of ?m ?d] loop by (simp_all add: n_def)
  have enc: "encodeToBase64 ?m ?d = (dst @ replicate (?d - length dst) NUL, True)"
    using loop spec(1) by (simp add: encodeToBase64_def)
  have nul: "NUL \<in> set (dst @ replicate (?d - length dst) NUL)" using spec(3) by simp
  have plain: "cstring (dst @ replicate (?d - length dst) NUL) = dst" by (rule printable_cstring(1) [OF spec(4)])
  have small: "\<not> 2 + length u + length p > MAX_QUERY" using assms(1) by simp
  have "SetUsernameAndPassword True True True s (Some u) (Some p)
      = Inr (s\<lparr>BASE64PASSWORD := Some dst, PASSWORD_PROTECTION := True\<rparr>, True)"
    unfolding SetUsernameAndPassword_def Let_def option.case if_not_P [OF small] enc prod.case plain
    using nul by (simp add: AssignStr_def)
  then show ?thesis using loop spec(1) by (intro exI [of _ dst]) auto
qed

text \<open>
  C8: A request whose Authorization header carries the base64 text of some credentials is authorized
  exactly when they are the user name and the password that were set: no other pair is let in, and the
  right one always is.
\<close>

theorem credentials_checked:
  assumes "SetUsernameAndPassword True True True s (Some u) (Some p) = Inr (s', True)"
    and "length u + length p + 2 \<le> MAX_QUERY" and "u \<noteq> [] \<or> p \<noteq> []"
    and "encodeToBase64 (u' @ CHR '':'' # p') d_len = (dst, True)"
    and "drop offset (headerBytes h) = ''Authorization: Basic '' @ cstring dst @ CR # rest"
    and "CHR '':'' \<notin> set u" and "CHR '':'' \<notin> set u'"
  shows "\<exists>h'. ProcessAuthorizationHTTPLine s' h offset (21 + strlen dst) 14 = Inr (h', True)
    \<and> (authorized h' \<longleftrightarrow> u' = u \<and> p' = p)"
proof -
  let ?m = "u @ CHR '':'' # p" and ?m' = "u' @ CHR '':'' # p'"
  obtain cs d where cs: "BASE64PASSWORD s' = Some cs" "base64_loop ?m d = (cs, True)"
    using credentials_set [OF assms(2,3), of s] assms(1) by auto
  obtain dst' where dst': "base64_loop ?m' d_len = (dst', True)" "dst = dst' @ replicate (d_len - length dst') NUL"
    using assms(4) by (auto simp: encodeToBase64_def split: prod.splits)
  note spec = base64_loop_spec [of ?m d, unfolded cs(2)] base64_loop_spec [of ?m' d_len, unfolded dst'(1)]
  have plain: "cstring dst = dst'" unfolding dst'(2) using spec(2) by (intro printable_cstring(1)) (simp split: if_splits)
  have "dst' \<noteq> []" using dst'(1) by (subst (asm) base64_loop.simps) (auto simp: triad_chars_def Let_def split: if_splits prod.splits)
  have "cs = dst' \<longleftrightarrow> ?m = ?m'"
  proof
    assume "cs = dst'"
    then show "?m = ?m'" using spec by (auto split: if_splits)
  next
    assume "?m = ?m'"
    then show "cs = dst'" using base64_loop_same [OF cs(2)] dst'(1) by simp
  qed
  also have "\<dots> \<longleftrightarrow> u' = u \<and> p' = p"
    using assms(6,7) by (auto simp: append_eq_append_conv2 append_eq_Cons_conv Cons_eq_append_conv)
  finally have same: "BASE64PASSWORD s' = Some dst' \<longleftrightarrow> u' = u \<and> p' = p" using cs(1) by simp
  have "list_all (\<lambda>c. 33 \<le> byte_val c \<and> byte_val c < 127) dst'" using spec(2) by (simp split: if_splits)
  from authorized_line [OF assms(5) [unfolded plain] this \<open>dst' \<noteq> []\<close>, of s'] same show ?thesis
    by (simp only: plain)
qed

theorem credentials_checked_witness:
  "\<exists>s h. SetUsernameAndPassword True True True (initial_settings ''www'') (Some ''admin'') (Some ''ammar'') = Inr (s, True)
    \<and> ProcessAuthorizationHTTPLine s
        (clearHeader\<lparr>headerBytes := ''Authorization: Basic YWRtaW46YW1tYXI='' @ [CR, LF]\<rparr>) 0 37 14 = Inr (h, True)
    \<and> authorized h"
  (is "\<exists>s h. ?set s \<and> ?line s h \<and> _")
proof -
  let ?dst = "''YWRtaW46YW1tYXI='' @ replicate 10 NUL"
  have enc: "encodeToBase64 (''admin'' @ CHR '':'' # ''ammar'') 26 = (?dst, True)"
    by (simp add: encodeToBase64_def base64_loop.simps triad_chars_def triad_bits_def base64_def)
  have plain: "cstring ?dst = ''YWRtaW46YW1tYXI=''" by (rule printable_cstring(1)) simp
  obtain s where s: "?set s" using credentials_set [of "''admin''" "''ammar''" "initial_settings ''www''"] by (auto simp: MAX_QUERY_def)
  have "\<exists>h. ProcessAuthorizationHTTPLine s
      (clearHeader\<lparr>headerBytes := ''Authorization: Basic YWRtaW46YW1tYXI='' @ [CR, LF]\<rparr>) 0 (21 + strlen ?dst) 14 = Inr (h, True)
      \<and> (authorized h \<longleftrightarrow> ''admin'' = ''admin'' \<and> ''ammar'' = ''ammar'')"
    by (rule credentials_checked [OF s _ _ enc, where rest = "[LF]"]) (simp_all add: MAX_QUERY_def plain [simplified])
  then show ?thesis using s by (auto simp: plain [simplified])
qed

section \<open>What a token carries\<close>

text \<open>The number a text of the second alphabet stands for, the number a text of bytes stands for, and back.\<close>

definition url_sextets :: "string \<Rightarrow> nat" where
  "url_sextets cs = foldl (\<lambda>v c. v * 64 + place_in base64url c) 0 cs"

definition bytes_number :: "string \<Rightarrow> nat" where
  "bytes_number cs = foldl (\<lambda>v c. v * 256 + byte_val c) 0 cs"

primrec number_bytes :: "nat \<Rightarrow> nat \<Rightarrow> string" where
  "number_bytes 0 v = []"
| "number_bytes (Suc n) v = number_bytes n (v div 256) @ [char_of (v mod 256)]"

definition token_decode :: "nat \<Rightarrow> string \<Rightarrow> string" where
  "token_decode n cs = number_bytes n (url_sextets cs div 2 ^ (6 * length cs - 8 * n))"

lemma foldl_base: "foldl (\<lambda>v c. v * B + f c) a cs = a * B ^ length cs + foldl (\<lambda>v c. v * B + f c) 0 cs"
  for a B :: nat
proof (induction cs arbitrary: a)
  case (Cons c cs)
  show ?case using Cons.IH [of "a * B + f c"] Cons.IH [of "f c"] by (simp add: algebra_simps)
qed simp

lemma url_sextets_append: "url_sextets (a @ b) = url_sextets a * 64 ^ length b + url_sextets b"
  unfolding url_sextets_def by (simp add: foldl_base [of 64 _ "foldl _ _ _"])

lemma url_sextets_char: "url_sextets [base64url ! (n mod 64)] = n mod 64"
  by (simp add: url_sextets_def base64url_place)

lemma bytes_number_Cons: "bytes_number (c # cs) = byte_val c * 256 ^ length cs + bytes_number cs"
  unfolding bytes_number_def by (simp add: foldl_base [of 256 _ "byte_val c"])

lemma bytes_number_snoc: "bytes_number (cs @ [c]) = bytes_number cs * 256 + byte_val c"
  by (simp add: bytes_number_def)

lemma number_bytes_number: "number_bytes (length cs) (bytes_number cs) = cs"
  by (induction cs rule: rev_induct) (simp_all add: bytes_number_snoc byte_below)

lemma low_bits_split:
  fixes b :: nat
  assumes "6 \<le> k"
  shows "b mod 2 ^ k = (b div 2 ^ (k - 6) mod 64) * 2 ^ (k - 6) + b mod 2 ^ (k - 6)"
proof -
  have "(2 :: nat) ^ k = 2 ^ (k - 6) * 64" using power_add [of "2 :: nat" "k - 6" 6] assms by simp
  then show ?thesis by (simp only: mod_mult2_eq) simp
qed

lemma token_emit_spec:
  "token_emit b k = (out, n) \<Longrightarrow>
    n = k mod 6 \<and> length out = k div 6 \<and> url_sextets out = (b mod 2 ^ k) div 2 ^ n"
proof (induction k arbitrary: out rule: less_induct)
  case (less k)
  show ?case
  proof (cases "6 \<le> k")
    case False
    then show ?thesis using less.prems by (subst (asm) token_emit.simps) (simp add: url_sextets_def)
  next
    case True
    obtain o' where rest: "token_emit b (k - 6) = (o', n)" and out: "out = base64url ! (b div 2 ^ (k - 6) mod 64) # o'"
      using less.prems True by (subst (asm) token_emit.simps) (auto split: prod.splits)
    have IH: "n = (k - 6) mod 6" "length o' = (k - 6) div 6" "url_sextets o' = (b mod 2 ^ (k - 6)) div 2 ^ n"
      using less.IH [OF _ rest] True by simp_all
    define j where "j = b div 2 ^ (k - 6) mod 64"
    have "k - 6 = 6 * length o' + n" using IH(1,2) by simp
    then have pow: "(2 :: nat) ^ (k - 6) = 64 ^ length o' * 2 ^ n" by (simp add: power_add power_mult)
    have "url_sextets out = j * 64 ^ length o' + url_sextets o'"
      using url_sextets_append [of "[base64url ! (b div 2 ^ (k - 6) mod 64)]" o']
      unfolding url_sextets_char by (simp add: out j_def)
    also have "\<dots> = (j * 2 ^ (k - 6) + b mod 2 ^ (k - 6)) div 2 ^ n"
      unfolding pow by (simp add: IH(3) pow mult.assoc [symmetric])
    also have "\<dots> = (b mod 2 ^ k) div 2 ^ n" unfolding low_bits_split [OF True, of b] j_def ..
    finally show ?thesis using IH(1,2) True by (simp add: out le_mod_geq le_div_geq)
  qed
qed

lemma next_bits:
  fixes b :: nat
  assumes "k < 6"
  shows "((b * 2 ^ 8) mod 2 ^ 32 + byte_val c) mod 2 ^ (k + 8) = (b mod 2 ^ k) * 256 + byte_val c"
proof -
  have "(2 :: nat) ^ (k + 8) dvd 2 ^ 32" using assms by (intro le_imp_power_dvd) simp
  then have "((b * 2 ^ 8) mod 2 ^ 32 + byte_val c) mod 2 ^ (k + 8) = (b * 2 ^ 8 + byte_val c) mod 2 ^ (k + 8)"
    by (simp only: mod_add_left_eq [symmetric, of "b * 2 ^ 8 mod 2 ^ 32"] mod_mod_cancel mod_add_left_eq)
  also have "\<dots> = (b * 256 + byte_val c) mod (256 * 2 ^ k)" by (simp add: power_add mult.commute)
  also have "\<dots> = (b mod 2 ^ k) * 256 + byte_val c"
    using byte_below [of "byte_val c" b] by (simp add: mod_mult2_eq)
  finally show ?thesis .
qed

text \<open>How many bits are added at the end, and what the loop writes from any state between two bytes.\<close>

definition token_pad :: "nat \<Rightarrow> nat" where
  "token_pad bits = (6 - bits mod 6) mod 6"

lemma token_pad_full: "token_pad (6 * m + bits) = token_pad bits"
  by (simp add: token_pad_def)

lemma token_pad_div: "6 * l = bits + token_pad bits \<Longrightarrow> l = (bits + 5) div 6"
proof -
  assume l: "6 * l = bits + token_pad bits"
  define r where "r = token_pad bits"
  have "r < 6" by (simp add: r_def token_pad_def)
  have "(6 * l - r + 5) div 6 = l" if "r < 6" using that by (cases l) simp_all
  moreover have "bits = 6 * l - r" using l by (simp add: r_def)
  ultimately show ?thesis using \<open>r < 6\<close> by simp
qed

lemma token_loop_spec:
  "k < 6 \<Longrightarrow> 6 * length (token_loop b k raw) = k + 8 * length raw + token_pad (k + 8 * length raw)
    \<and> url_sextets (token_loop b k raw)
      = ((b mod 2 ^ k) * 256 ^ length raw + bytes_number raw) * 2 ^ token_pad (k + 8 * length raw)"
proof (induction raw arbitrary: b k)
  case Nil
  show ?case
  proof (cases "k = 0")
    case False
    then have "(b * 2 ^ (6 - k)) mod 2 ^ 32 mod 64 = (b mod 2 ^ k) * 2 ^ (6 - k)"
    proof -
      have "(64 :: nat) dvd 2 ^ 32" by simp
      then have "(b * 2 ^ (6 - k)) mod 2 ^ 32 mod 64 = (b * 2 ^ (6 - k)) mod 64" by (rule mod_mod_cancel)
      moreover have "(64 :: nat) = 2 ^ k * 2 ^ (6 - k)" using Nil by (simp add: power_add [symmetric])
      ultimately show ?thesis using mod_mult_mult2 [of b "2 ^ (6 - k)" "2 ^ k"] by simp
    qed
    then show ?thesis using Nil False url_sextets_char [of "b * 2 ^ (6 - k) mod 2 ^ 32"]
      by (simp add: token_pad_def bytes_number_def)
  qed (simp add: token_pad_def bytes_number_def url_sextets_def)
next
  case (Cons c raw)
  define w where "w = (b * 2 ^ 8) mod 2 ^ 32 + byte_val c"
  obtain out n where emit: "token_emit w (k + 8) = (out, n)" by fastforce
  note e = token_emit_spec [OF emit]
  define v where "v = w mod 2 ^ (k + 8)"
  have v: "v = (b mod 2 ^ k) * 256 + byte_val c" unfolding v_def w_def by (rule next_bits [OF Cons.prems])
  define rest where "rest = token_loop w n raw"
  define pad where "pad = token_pad (n + 8 * length raw)"
  have "n < 6" using e by simp
  note IH = Cons.IH [OF this, of w, folded rest_def pad_def]
  have split: "k + 8 = 6 * length out + n" using e by simp
  have "k + 8 * length (c # raw) = 6 * length out + (n + 8 * length raw)" using split by simp
  then have pads: "token_pad (k + 8 * length (c # raw)) = pad" by (simp only: token_pad_full pad_def)
  have run: "token_loop b k (c # raw) = out @ rest"
    using emit by (simp add: w_def rest_def)
  have low: "w mod 2 ^ n = v mod 2 ^ n"
    unfolding v_def by (rule mod_mod_cancel [symmetric]) (intro le_imp_power_dvd, use split in simp)
  have outv: "url_sextets out = v div 2 ^ n" using e by (simp add: v_def)
  have restv: "url_sextets rest = (v mod 2 ^ n * 256 ^ length raw + bytes_number raw) * 2 ^ pad"
    using IH by (simp only: low)
  have "(64 :: nat) ^ length rest = 2 ^ (n + 8 * length raw + pad)"
    using power_mult [of "2 :: nat" 6 "length rest"] IH by simp
  then have shift: "(64 :: nat) ^ length rest = 2 ^ n * 256 ^ length raw * 2 ^ pad"
    by (simp add: power_add power_mult)
  have "url_sextets (out @ rest)
      = ((v div 2 ^ n * 2 ^ n + v mod 2 ^ n) * 256 ^ length raw + bytes_number raw) * 2 ^ pad"
    by (simp only: url_sextets_append outv restv shift add_mult_distrib mult.assoc)
  then have "url_sextets (out @ rest) = (v * 256 ^ length raw + bytes_number raw) * 2 ^ pad"
    by (simp only: div_mult_mod_eq)
  then show ?case unfolding run pads using IH split by (simp add: v bytes_number_Cons algebra_simps)
qed

text \<open>
  C9: The generator of session tokens refuses exactly the destinations that cannot hold the text and its
  end; otherwise the text has one character for every started group of six bits, and all the random
  bytes can be read back from it: no randomness is lost, and different bytes give different tokens.
\<close>

theorem secure_token_keeps_bytes:
  assumes "0 < length raw" and "8 * length raw + 11 < 2 ^ 32"
  shows "if (8 * length raw + 5) div 6 < outSize
    then (\<exists>token. AmmServer_GenerateSecureToken (Some raw) outSize (length raw) True = Some token
      \<and> length token = (8 * length raw + 5) div 6 \<and> token_decode (length raw) token = raw)
    else AmmServer_GenerateSecureToken (Some raw) outSize (length raw) True = None"
proof -
  let ?n = "8 * length raw" and ?t = "token_loop 0 0 raw"
  have t: "6 * length ?t = ?n + token_pad ?n" "url_sextets ?t = bytes_number raw * 2 ^ token_pad ?n"
    using token_loop_spec [of 0 0 raw] by simp_all
  have "length ?t = (?n + 5) div 6" using t(1) by (rule token_pad_div)
  moreover have "token_decode (length raw) ?t = raw"
    using t by (simp add: token_decode_def number_bytes_number)
  moreover have "((length raw * 8 + 5) mod 2 ^ 32 div 6 + 1) mod 2 ^ 32 = (?n + 5) div 6 + 1"
  proof -
    have a: "length raw * 8 + 5 < 2 ^ 32" and b: "(length raw * 8 + 5) div 6 + 1 < 2 ^ 32" using assms(2) by simp_all
    show ?thesis unfolding mod_less [OF a] mod_less [OF b] by (simp only: mult.commute)
  qed
  ultimately show ?thesis
    using assms(1) unfolding AmmServer_GenerateSecureToken_def by (simp only: take_all order_refl option.case) auto
qed

theorem secure_token_keeps_bytes_witness:
  "\<exists>token. AmmServer_GenerateSecureToken (Some ''Ammar'') 8 5 True = Some token \<and> length token = 7 \<and> token_decode 5 token = ''Ammar''"
proof -
  have "length ''Ammar'' = 5" by simp
  then show ?thesis using secure_token_keeps_bytes [of "''Ammar''" 8] by (simp del: list.size)
qed

end
