(* ===== verification/Sha256.thy ===== *)
theory Sha256
  imports Prelude
begin

text \<open>
  SHA-256 as \<open>src/UserAccounts/sha256.c\<close> computes it: a context with a buffer of 64 bytes, the number of
  bytes that wait in it, the number of bits that were absorbed, and the eight words of the state.  The
  reference is FIPS 180-4: the message is padded, cut into blocks, and folded with the compression
  function.  Words have their width, so that every addition wraps as in C.
\<close>

unbundle bit_operations_syntax

section \<open>The code\<close>

record sha256_context =
  ctx_data :: string
  datalen :: nat
  bitlen :: u64
  ctx_state :: "u32 list"

definition ROTRIGHT :: "u32 \<Rightarrow> nat \<Rightarrow> u32" where
  "ROTRIGHT a b = drop_bit b a OR push_bit (32 - b) a"

definition CH :: "u32 \<Rightarrow> u32 \<Rightarrow> u32 \<Rightarrow> u32" where
  "CH x y z = (x AND y) XOR (NOT x AND z)"

definition MAJ :: "u32 \<Rightarrow> u32 \<Rightarrow> u32 \<Rightarrow> u32" where
  "MAJ x y z = (x AND y) XOR (x AND z) XOR (y AND z)"

definition EP0 :: "u32 \<Rightarrow> u32" where
  "EP0 x = ROTRIGHT x 2 XOR ROTRIGHT x 13 XOR ROTRIGHT x 22"

definition EP1 :: "u32 \<Rightarrow> u32" where
  "EP1 x = ROTRIGHT x 6 XOR ROTRIGHT x 11 XOR ROTRIGHT x 25"

definition SIG0 :: "u32 \<Rightarrow> u32" where
  "SIG0 x = ROTRIGHT x 7 XOR ROTRIGHT x 18 XOR drop_bit 3 x"

definition SIG1 :: "u32 \<Rightarrow> u32" where
  "SIG1 x = ROTRIGHT x 17 XOR ROTRIGHT x 19 XOR drop_bit 10 x"

definition sha_k :: "u32 list" where
  "sha_k = concat
    [[0x428a2f98, 0x71374491, 0xb5c0fbcf, 0xe9b5dba5], [0x3956c25b, 0x59f111f1, 0x923f82a4, 0xab1c5ed5],
     [0xd807aa98, 0x12835b01, 0x243185be, 0x550c7dc3], [0x72be5d74, 0x80deb1fe, 0x9bdc06a7, 0xc19bf174],
     [0xe49b69c1, 0xefbe4786, 0x0fc19dc6, 0x240ca1cc], [0x2de92c6f, 0x4a7484aa, 0x5cb0a9dc, 0x76f988da],
     [0x983e5152, 0xa831c66d, 0xb00327c8, 0xbf597fc7], [0xc6e00bf3, 0xd5a79147, 0x06ca6351, 0x14292967],
     [0x27b70a85, 0x2e1b2138, 0x4d2c6dfc, 0x53380d13], [0x650a7354, 0x766a0abb, 0x81c2c92e, 0x92722c85],
     [0xa2bfe8a1, 0xa81a664b, 0xc24b8b70, 0xc76c51a3], [0xd192e819, 0xd6990624, 0xf40e3585, 0x106aa070],
     [0x19a4c116, 0x1e376c08, 0x2748774c, 0x34b0bcb5], [0x391c0cb3, 0x4ed8aa4a, 0x5b9cca4f, 0x682e6ff3],
     [0x748f82ee, 0x78a5636f, 0x84c87814, 0x8cc70208], [0x90befffa, 0xa4506ceb, 0xbef9a3f7, 0xc67178f2]]"

text \<open>The sixteen words of a block, big end first, and the words that are computed from them.\<close>

definition block_word :: "string \<Rightarrow> nat \<Rightarrow> u32" where
  "block_word d j =
     push_bit 24 (word_of_nat (byte_val (d ! j))) OR push_bit 16 (word_of_nat (byte_val (d ! (j + 1))))
     OR push_bit 8 (word_of_nat (byte_val (d ! (j + 2)))) OR word_of_nat (byte_val (d ! (j + 3)))"

definition next_word :: "u32 list \<Rightarrow> u32 list" where
  "next_word m =
     (let i = length m in m @ [SIG1 (m ! (i - 2)) + m ! (i - 7) + SIG0 (m ! (i - 15)) + m ! (i - 16)])"

definition schedule :: "string \<Rightarrow> u32 list" where
  "schedule d = (next_word ^^ 48) (map (\<lambda>i. block_word d (4 * i)) [0..<16])"

text \<open>One of the 64 rounds on the eight variables.\<close>

type_synonym working = "u32 \<times> u32 \<times> u32 \<times> u32 \<times> u32 \<times> u32 \<times> u32 \<times> u32"

definition sha_round :: "u32 list \<Rightarrow> working \<Rightarrow> nat \<Rightarrow> working" where
  "sha_round m w i =
     (case w of (a, b, c, d, e, f, g, h) \<Rightarrow>
       (let t1 = h + EP1 e + CH e f g + sha_k ! i + m ! i;
            t2 = EP0 a + MAJ a b c
        in (t1 + t2, a, b, c, d + t1, e, f, g)))"

definition SHA256_Transform :: "sha256_context \<Rightarrow> string \<Rightarrow> sha256_context" where
  "SHA256_Transform ctx d =
     (let s = ctx_state ctx; m = schedule d
      in case foldl (sha_round m) (s ! 0, s ! 1, s ! 2, s ! 3, s ! 4, s ! 5, s ! 6, s ! 7) [0..<64] of
           (a, b, c, d, e, f, g, h) \<Rightarrow>
             ctx\<lparr>ctx_state := [s ! 0 + a, s ! 1 + b, s ! 2 + c, s ! 3 + d, s ! 4 + e, s ! 5 + f, s ! 6 + g, s ! 7 + h]\<rparr>)"

definition SHA256_Init :: "sha256_context \<Rightarrow> sha256_context" where
  "SHA256_Init ctx =
     ctx\<lparr>datalen := 0, bitlen := 0,
         ctx_state := [0x6a09e667, 0xbb67ae85, 0x3c6ef372, 0xa54ff53a, 0x510e527f, 0x9b05688c, 0x1f83d9ab, 0x5be0cd19]\<rparr>"

definition update_byte :: "sha256_context \<Rightarrow> char \<Rightarrow> sha256_context" where
  "update_byte ctx c =
     (let ctx = ctx\<lparr>ctx_data := (ctx_data ctx)[datalen ctx := c], datalen := datalen ctx + 1\<rparr>
      in if datalen ctx = 64
         then (let ctx = SHA256_Transform ctx (ctx_data ctx) in ctx\<lparr>bitlen := bitlen ctx + 512, datalen := 0\<rparr>)
         else ctx)"

definition SHA256_Update :: "sha256_context \<Rightarrow> string \<Rightarrow> sha256_context" where
  "SHA256_Update ctx d = foldl update_byte ctx d"

text \<open>\<open>while (i<n) { data[i++]=0; }\<close>\<close>

definition zero_upto :: "string \<Rightarrow> nat \<Rightarrow> nat \<Rightarrow> string" where
  "zero_upto d i n = take i d @ replicate (n - i) NUL @ drop n d"

definition low_byte :: "'a::len word \<Rightarrow> char" where
  "low_byte w = char_of (unat (w AND 0xff))"

definition put_length :: "string \<Rightarrow> u64 \<Rightarrow> string" where
  "put_length d n = foldl (\<lambda>d j. d[63 - j := low_byte (drop_bit (8 * j) n)]) d [0..<8]"

definition SHA256_Final :: "sha256_context \<Rightarrow> string" where
  "SHA256_Final ctx =
     (let d = (ctx_data ctx)[datalen ctx := char_of (0x80 :: nat)];
          ctx = (if datalen ctx < 56 then ctx\<lparr>ctx_data := zero_upto d (datalen ctx + 1) 56\<rparr>
                 else (let ctx = ctx\<lparr>ctx_data := zero_upto d (datalen ctx + 1) 64\<rparr>;
                           ctx = SHA256_Transform ctx (ctx_data ctx)
                       in ctx\<lparr>ctx_data := zero_upto (ctx_data ctx) 0 56\<rparr>));
          ctx = ctx\<lparr>bitlen := bitlen ctx + word_of_nat (datalen ctx) * 8\<rparr>;
          ctx = ctx\<lparr>ctx_data := put_length (ctx_data ctx) (bitlen ctx)\<rparr>;
          s = ctx_state (SHA256_Transform ctx (ctx_data ctx))
      in map (\<lambda>p. low_byte (drop_bit (24 - 8 * (p mod 4)) (s ! (p div 4)))) [0..<32])"

text \<open>The context of \<open>SHA256_Hash\<close> is a local variable: \<open>ctx\<close> is what it holds before.\<close>

definition SHA256_Hash :: "sha256_context \<Rightarrow> string \<Rightarrow> string" where
  "SHA256_Hash ctx d = SHA256_Final (SHA256_Update (SHA256_Init ctx) d)"

definition hexChars :: string where "hexChars = ''0123456789abcdef''"

text \<open>The C string that is written, or None when there is not even room for its end.\<close>

definition SHA256_ToHex :: "string \<Rightarrow> nat \<Rightarrow> string option" where
  "SHA256_ToHex d outHexSize =
     (if outHexSize < (length d * 2 + 1) mod 2 ^ 32 then (if outHexSize > 0 then Some [] else None)
      else Some (concat (map (\<lambda>c. [hexChars ! (byte_val c div 16 mod 16), hexChars ! (byte_val c mod 16)]) d)))"

section \<open>FIPS 180-4\<close>

definition be_word :: "string \<Rightarrow> u32" where
  "be_word cs = word_of_nat (horner_sum byte_val 256 (rev cs))"

definition fips_sigma :: "nat \<Rightarrow> nat \<Rightarrow> nat \<Rightarrow> u32 \<Rightarrow> u32" where
  "fips_sigma p q r x = word_rotr p x XOR word_rotr q x XOR drop_bit r x"

definition fips_Sigma :: "nat \<Rightarrow> nat \<Rightarrow> nat \<Rightarrow> u32 \<Rightarrow> u32" where
  "fips_Sigma p q r x = word_rotr p x XOR word_rotr q x XOR word_rotr r x"

fun fips_W :: "string \<Rightarrow> nat \<Rightarrow> u32" where
  "fips_W M t =
     (if t < 16 then be_word (take 4 (drop (4 * t) M))
      else fips_sigma 17 19 10 (fips_W M (t - 2)) + fips_W M (t - 7)
           + fips_sigma 7 18 3 (fips_W M (t - 15)) + fips_W M (t - 16))"

declare fips_W.simps [simp del]

text \<open>
  The constants are the first 32 bits of the fractional parts of the cube roots of the first 64 primes and
  of the square roots of the first eight.
\<close>

definition primes64 :: "nat list" where
  "primes64 =
    [2, 3, 5, 7, 11, 13, 17, 19, 23, 29, 31, 37, 41, 43, 47, 53,
     59, 61, 67, 71, 73, 79, 83, 89, 97, 101, 103, 107, 109, 113, 127, 131,
     137, 139, 149, 151, 157, 163, 167, 173, 179, 181, 191, 193, 197, 199, 211, 223,
     227, 229, 233, 239, 241, 251, 257, 263, 269, 271, 277, 281, 283, 293, 307, 311]"

definition root_fraction :: "nat \<Rightarrow> nat \<Rightarrow> u32" where
  "root_fraction n p = word_of_nat (Max {r. r ^ n \<le> p * 2 ^ (32 * n)})"

definition fips_K :: "u32 list" where
  "fips_K = map (root_fraction 3) primes64"

definition fips_H0 :: "u32 list" where
  "fips_H0 = map (root_fraction 2) (take 8 primes64)"

fun fips_rounds :: "string \<Rightarrow> nat \<Rightarrow> u32 list \<Rightarrow> u32 list" where
  "fips_rounds M 0 H = H"
| "fips_rounds M (Suc t) H =
     (let v = fips_rounds M t H; a = v ! 0; e = v ! 4;
          T1 = v ! 7 + fips_Sigma 6 11 25 e + ((e AND v ! 5) XOR (NOT e AND v ! 6)) + fips_K ! t + fips_W M t;
          T2 = fips_Sigma 2 13 22 a + ((a AND v ! 1) XOR (a AND v ! 2) XOR (v ! 1 AND v ! 2))
      in [T1 + T2, a, v ! 1, v ! 2, v ! 3 + T1, e, v ! 5, v ! 6])"

definition fips_compress :: "u32 list \<Rightarrow> string \<Rightarrow> u32 list" where
  "fips_compress H M = map2 (+) H (fips_rounds M 64 H)"

definition be_bytes :: "nat \<Rightarrow> nat \<Rightarrow> string" where
  "be_bytes n v = map (\<lambda>i. char_of (v div 256 ^ (n - 1 - i) mod 256)) [0..<n]"

definition fips_pad :: "string \<Rightarrow> string" where
  "fips_pad msg =
     msg @ [char_of (0x80 :: nat)] @ replicate ((119 - length msg mod 64) mod 64) NUL @ be_bytes 8 (8 * length msg)"

function fips_blocks :: "string \<Rightarrow> string list" where
  "fips_blocks s = (if s = [] then [] else take 64 s # fips_blocks (drop 64 s))"
  by pat_completeness auto
termination
  by (relation "measure length") auto

declare fips_blocks.simps [simp del]

definition fips_sha256 :: "string \<Rightarrow> string" where
  "fips_sha256 msg = concat (map (\<lambda>w. be_bytes 4 (unat w)) (foldl fips_compress fips_H0 (fips_blocks (fips_pad msg))))"

section \<open>The code computes it\<close>

lemma ROTRIGHT_rotr:
  assumes "n < 32"
  shows "ROTRIGHT x n = word_rotr n x"
proof (rule bit_word_eqI)
  fix m assume "m < LENGTH(32)"
  then have m: "m < 32" by simp
  have code: "bit (ROTRIGHT x n) m \<longleftrightarrow> bit x (n + m) \<or> 32 - n \<le> m \<and> bit x (m - (32 - n))"
    using m by (simp add: ROTRIGHT_def bit_or_iff bit_drop_bit_eq bit_push_bit_iff)
  have rotr: "bit (word_rotr n x) m \<longleftrightarrow> bit x ((m + n) mod 32)" using m by (simp add: bit_word_rotr_iff)
  show "bit (ROTRIGHT x n) m \<longleftrightarrow> bit (word_rotr n x) m"
  proof (cases "m + n < 32")
    case True
    then show ?thesis unfolding code rotr using assms by (auto simp: add.commute)
  next
    case False
    then have "(m + n) mod 32 = m - (32 - n)" using assms m by (simp add: le_mod_geq)
    moreover have "\<not> bit x (n + m)" using False by (auto dest: bit_imp_le_length)
    moreover have "32 - n \<le> m" using False by simp
    ultimately show ?thesis unfolding code rotr by simp
  qed
qed

lemma sha_functions:
  "EP0 x = fips_Sigma 2 13 22 x" "EP1 x = fips_Sigma 6 11 25 x"
  "SIG0 x = fips_sigma 7 18 3 x" "SIG1 x = fips_sigma 17 19 10 x"
  by (simp_all add: EP0_def EP1_def SIG0_def SIG1_def fips_Sigma_def fips_sigma_def ROTRIGHT_rotr)

text \<open>The constants.\<close>

lemma root_fraction_eq:
  assumes "r ^ n \<le> p * 2 ^ (32 * n)" and "p * 2 ^ (32 * n) < Suc r ^ n"
  shows "root_fraction n p = word_of_nat r"
proof -
  have "x \<le> r" if "x ^ n \<le> p * 2 ^ (32 * n)" for x
  proof (rule ccontr)
    assume "\<not> x \<le> r"
    then have "Suc r ^ n \<le> x ^ n" by (intro power_mono) simp_all
    then show False using that assms(2) by simp
  qed
  then have "Max {r. r ^ n \<le> p * 2 ^ (32 * n)} = r" using assms(1)
    by (intro Max_eqI) (auto intro: finite_subset [of _ "{..r}"])
  then show ?thesis by (simp add: root_fraction_def)
qed

definition root_digits :: "nat \<Rightarrow> nat \<Rightarrow> u32 \<Rightarrow> bool" where
  "root_digits n p w \<longleftrightarrow>
     list_ex (\<lambda>c. let r = c * 2 ^ 32 + unat w in r ^ n \<le> p * 2 ^ (32 * n) \<and> p * 2 ^ (32 * n) < Suc r ^ n) [1..<7]"

lemma root_digits_eq: "root_digits n p w \<Longrightarrow> root_fraction n p = w"
proof -
  assume "root_digits n p w"
  then obtain c where "root_fraction n p = word_of_nat (c * 2 ^ 32 + unat w)"
    by (auto simp: root_digits_def Let_def list_ex_iff root_fraction_eq)
  also have "\<dots> = word_of_nat (unat w)" unfolding word_of_nat_eq_iff by (simp add: take_bit_eq_mod)
  also have "\<dots> = w" by simp
  finally show ?thesis .
qed

lemma roots_eq: "list_all2 (root_digits n) ps ws \<Longrightarrow> map (root_fraction n) ps = ws"
  by (induction rule: list_all2_induct) (simp_all add: root_digits_eq)

lemma sha_k_fips: "fips_K = sha_k"
  unfolding fips_K_def
  by (rule roots_eq) (simp add: primes64_def sha_k_def root_digits_def upt_rec)

lemma sha_H0_fips:
  "fips_H0 = [0x6a09e667, 0xbb67ae85, 0x3c6ef372, 0xa54ff53a, 0x510e527f, 0x9b05688c, 0x1f83d9ab, 0x5be0cd19]"
  unfolding fips_H0_def
  by (rule roots_eq) (simp add: primes64_def root_digits_def upt_rec)

text \<open>The words of a block.\<close>

lemma or_byte:
  fixes x :: nat
  shows "push_bit 8 x OR byte_val c = x * 256 + byte_val c"
proof -
  have "take_bit 8 (byte_val c) = byte_val c" using byte_val_lt [of c] by (simp add: take_bit_nat_eq_self)
  then have "push_bit 8 x AND byte_val c = 0"
    by (intro bit_eqI) (metis bit_0_eq bit_and_iff bit_push_bit_iff bit_take_bit_iff bot_apply bot_bool_def not_less)
  then have "push_bit 8 x OR byte_val c = push_bit 8 x + byte_val c"
    by (simp add: disjunctive_add_eq_or)
  then show ?thesis by (simp add: push_bit_eq_mult)
qed

lemma block_word_be:
  assumes "j + 4 \<le> length d"
  shows "block_word d j = be_word (take 4 (drop j d))"
proof -
  let ?b = "\<lambda>i. byte_val (d ! (j + i))"
  have cut: "take 4 (drop j d) = [d ! j, d ! (j + 1), d ! (j + 2), d ! (j + 3)]"
    using assms by (intro nth_equalityI) (auto simp: less_Suc_eq numeral_eq_Suc)
  have "block_word d j = push_bit 8 (push_bit 8 (push_bit 8 (word_of_nat (?b 0)) OR word_of_nat (?b 1))
      OR word_of_nat (?b 2)) OR word_of_nat (?b 3)"
    by (simp add: block_word_def push_bit_or push_bit_push_bit or.assoc)
  also have "\<dots> = word_of_nat (push_bit 8 (push_bit 8 (push_bit 8 (?b 0) OR ?b 1) OR ?b 2) OR ?b 3)"
    by (simp add: of_nat_or_eq of_nat_push_bit)
  also have "\<dots> = be_word (take 4 (drop j d))"
    by (simp only: or_byte) (simp add: cut be_word_def algebra_simps)
  finally show ?thesis .
qed

lemma schedule_W:
  assumes "length d = 64"
  shows "schedule d = map (fips_W d) [0..<64]"
proof -
  have "(next_word ^^ n) (map (\<lambda>i. block_word d (4 * i)) [0..<16]) = map (fips_W d) [0..<16 + n]" for n
  proof (induction n)
    case 0
    show ?case using assms by (auto simp: block_word_be fips_W.simps)
  next
    case (Suc n)
    have "fips_W d (16 + n) = SIG1 (fips_W d (14 + n)) + fips_W d (9 + n) + SIG0 (fips_W d (1 + n)) + fips_W d n"
      by (subst fips_W.simps) (simp add: sha_functions)
    moreover have "[0..<16 + Suc n] = [0..<16 + n] @ [16 + n]" by (simp only: add_Suc_right upt_Suc_append le_add1)
    ultimately show ?case using Suc by (simp add: next_word_def Let_def nth_append del: upt_Suc)
  qed
  from this [of 48] show ?thesis by (simp add: schedule_def)
qed

text \<open>The rounds, and the whole of one block.\<close>

lemma fips_rounds_length: "length H = 8 \<Longrightarrow> length (fips_rounds M t H) = 8"
  by (induction t) (simp_all add: Let_def)

lemma sha_rounds:
  assumes "length d = 64" and "length H = 8" and "t \<le> 64"
  shows "foldl (sha_round (schedule d)) (H ! 0, H ! 1, H ! 2, H ! 3, H ! 4, H ! 5, H ! 6, H ! 7) [0..<t]
    = (let v = fips_rounds d t H in (v ! 0, v ! 1, v ! 2, v ! 3, v ! 4, v ! 5, v ! 6, v ! 7))"
  using assms(3)
proof (induction t)
  case (Suc t)
  then show ?case
    by (simp add: Let_def sha_round_def schedule_W [OF assms(1)] sha_functions sha_k_fips CH_def MAJ_def ac_simps)
qed simp

lemma eight_words: "length v = 8 \<Longrightarrow> v = [v ! 0, v ! 1, v ! 2, v ! 3, v ! 4, v ! 5, v ! 6, v ! 7]"
  by (auto simp: numeral_eq_Suc length_Suc_conv)

lemma SHA256_Transform_compress:
  assumes "length d = 64" and "length (ctx_state ctx) = 8"
  shows "SHA256_Transform ctx d = ctx\<lparr>ctx_state := fips_compress (ctx_state ctx) d\<rparr>"
proof -
  let ?H = "ctx_state ctx" and ?v = "fips_rounds d 64 (ctx_state ctx)"
  have "fips_compress ?H d = map2 (+) [?H ! 0, ?H ! 1, ?H ! 2, ?H ! 3, ?H ! 4, ?H ! 5, ?H ! 6, ?H ! 7]
      [?v ! 0, ?v ! 1, ?v ! 2, ?v ! 3, ?v ! 4, ?v ! 5, ?v ! 6, ?v ! 7]"
    unfolding fips_compress_def
    using eight_words [OF assms(2)] eight_words [OF fips_rounds_length [OF assms(2), of d 64]] by metis
  then show ?thesis
    unfolding SHA256_Transform_def Let_def sha_rounds [OF assms order_refl] by simp
qed

lemma fips_compress_length: "length H = 8 \<Longrightarrow> length (fips_compress H d) = 8"
  by (simp add: fips_compress_def fips_rounds_length)

text \<open>What the context holds after it has absorbed a message.\<close>

lemma fips_blocks_full: "length b = 64 \<Longrightarrow> fips_blocks (b @ s) = b # fips_blocks s"
  by (subst fips_blocks.simps) auto

lemma fips_blocks_append: "64 dvd length a \<Longrightarrow> fips_blocks (a @ s) = fips_blocks a @ fips_blocks s"
proof (induction "length a" arbitrary: a rule: less_induct)
  case less
  show ?case
  proof (cases "a = []")
    case False
    then have len: "64 \<le> length a" using less.prems by (auto intro: dvd_imp_le)
    have "64 dvd length (drop 64 a)" using less.prems len by (simp add: dvd_diff_nat)
    then have IH: "fips_blocks (drop 64 a @ s) = fips_blocks (drop 64 a) @ fips_blocks s"
      using less.hyps [of "drop 64 a"] False by simp
    have split: "a = take 64 a @ drop 64 a" and full: "length (take 64 a) = 64" using len by simp_all
    have "fips_blocks a = take 64 a # fips_blocks (drop 64 a)"
      using fips_blocks_full [OF full, of "drop 64 a"] by simp
    moreover have "fips_blocks (a @ s) = take 64 a # fips_blocks (drop 64 a @ s)"
      using fips_blocks_full [OF full, of "drop 64 a @ s"] by (simp add: append_assoc [symmetric] del: append_assoc)
    ultimately show ?thesis using IH by simp
  qed (simp add: fips_blocks.simps [of "[]"])
qed

definition absorbed :: "sha256_context \<Rightarrow> string \<Rightarrow> bool" where
  "absorbed ctx msg \<longleftrightarrow>
     length (ctx_data ctx) = 64
     \<and> (\<exists>full rest. msg = full @ rest \<and> 64 dvd length full \<and> length rest < 64
          \<and> datalen ctx = length rest \<and> take (length rest) (ctx_data ctx) = rest
          \<and> bitlen ctx = word_of_nat (8 * length full)
          \<and> length (ctx_state ctx) = 8 \<and> ctx_state ctx = foldl fips_compress fips_H0 (fips_blocks full))"

lemma absorbed_init: "length (ctx_data ctx) = 64 \<Longrightarrow> absorbed (SHA256_Init ctx) []"
  by (simp add: absorbed_def SHA256_Init_def sha_H0_fips fips_blocks.simps [of "[]"])

lemma absorbed_byte:
  assumes "absorbed ctx msg"
  shows "absorbed (update_byte ctx c) (msg @ [c])"
proof -
  from assms obtain full rest where msg: "msg = full @ rest" "64 dvd length full" "length rest < 64"
    and ctx: "length (ctx_data ctx) = 64" "datalen ctx = length rest" "take (length rest) (ctx_data ctx) = rest"
      "bitlen ctx = word_of_nat (8 * length full)" "length (ctx_state ctx) = 8"
      "ctx_state ctx = foldl fips_compress fips_H0 (fips_blocks full)"
    by (auto simp: absorbed_def)
  define d where "d = (ctx_data ctx)[length rest := c]"
  have d: "length d = 64" "take (Suc (length rest)) d = rest @ [c]"
    using ctx(1,3) msg(3) by (simp_all add: d_def take_Suc_conv_app_nth take_update_cancel)
  show ?thesis
  proof (cases "Suc (length rest) = 64")
    case False
    then have "update_byte ctx c = ctx\<lparr>ctx_data := d, datalen := Suc (length rest)\<rparr>"
      by (simp add: update_byte_def Let_def ctx(2) d_def)
    then show ?thesis using False msg ctx d
      unfolding absorbed_def by (intro conjI exI [of _ full] exI [of _ "rest @ [c]"]) simp_all
  next
    case True
    then have whole: "d = rest @ [c]" using d by simp
    have "update_byte ctx c = ctx\<lparr>ctx_data := d, datalen := 0, bitlen := bitlen ctx + 512,
        ctx_state := fips_compress (ctx_state ctx) d\<rparr>"
      using True d(1) ctx(5)
      by (auto simp: update_byte_def Let_def ctx(2) d_def SHA256_Transform_compress)
    moreover have "fips_blocks (full @ d) = fips_blocks full @ [d]"
      using fips_blocks_append [OF msg(2), of d] fips_blocks_full [OF d(1), of "[]"]
      by (simp add: fips_blocks.simps [of "[]"])
    ultimately show ?thesis using True msg ctx d(1)
      unfolding absorbed_def
      by (intro conjI exI [of _ "full @ d"] exI [of _ "[]"]) (simp_all add: whole fips_compress_length)
  qed
qed

lemma absorbed_update: "absorbed ctx msg \<Longrightarrow> absorbed (SHA256_Update ctx d) (msg @ d)"
  unfolding SHA256_Update_def
proof (induction d arbitrary: ctx msg)
  case (Cons c d)
  show ?case using Cons.IH [OF absorbed_byte [OF Cons.prems]] by simp
qed simp

lemma absorbed_updates: "absorbed ctx msg \<Longrightarrow> absorbed (foldl SHA256_Update ctx ds) (msg @ concat ds)"
proof (induction ds arbitrary: ctx msg)
  case (Cons d ds)
  show ?case using Cons.IH [OF absorbed_update [OF Cons.prems, of d]] by simp
qed simp

text \<open>The last blocks and the digest.\<close>

lemma low_byte_shift: "low_byte (drop_bit (8 * j) w) = char_of (unat w div 256 ^ j mod 256)"
proof -
  let ?v = "drop_bit (8 * j) w"
  have "?v AND 0xff = take_bit 8 ?v" by (simp add: take_bit_eq_mask mask_eq_exp_minus_1)
  then have "unat (?v AND 0xff) = take_bit 8 (unat ?v)" by (simp only: unsigned_take_bit_eq)
  moreover have "unat ?v = unat w div 256 ^ j" 
    by (simp only: unsigned_drop_bit_eq) (simp add: drop_bit_eq_div power_mult take_bit_nat_eq_self)
  ultimately show ?thesis by (simp add: low_byte_def take_bit_eq_mod)
qed

lemma zero_upto_fill:
  assumes "i \<le> n" and "n \<le> length d"
  shows "take n (zero_upto d i n) = take i d @ replicate (n - i) NUL" and "length (zero_upto d i n) = length d"
  using assms by (simp_all add: zero_upto_def)

lemma put_length_be:
  assumes "length d = 64"
  shows "put_length d n = take 56 d @ be_bytes 8 (unat n)"
proof -
  have "length (foldl (\<lambda>d j. d[63 - j := low_byte (drop_bit (8 * j) n)]) d [0..<m]) = 64
      \<and> (\<forall>i<64. foldl (\<lambda>d j. d[63 - j := low_byte (drop_bit (8 * j) n)]) d [0..<m] ! i
          = (if i < 64 - m then d ! i else low_byte (drop_bit (8 * (63 - i)) n)))" if "m \<le> 8" for m
    using that
  proof (induction m)
    case (Suc m)
    then show ?case by (auto simp: nth_list_update)
  qed (use assms in simp)
  from this [of 8] show ?thesis
    unfolding put_length_def
    by (intro nth_equalityI) (auto simp: assms be_bytes_def nth_append low_byte_shift)
qed

lemma digest_words:
  fixes H :: "u32 list"
  assumes "length H = 8"
  shows "map (\<lambda>p. low_byte (drop_bit (24 - 8 * (p mod 4)) (H ! (p div 4)))) [0..<32] = concat (map (\<lambda>w. be_bytes 4 (unat w)) H)"
proof -
  have four: "be_bytes 4 (unat w) = map (\<lambda>q. low_byte (drop_bit (24 - 8 * q) w)) [0..<4]" for w :: u32
    using low_byte_shift [of 3 w] low_byte_shift [of 2 w] low_byte_shift [of 1 w] low_byte_shift [of 0 w]
    by (simp add: be_bytes_def upt_rec)
  show ?thesis
    by (subst (2) eight_words [OF assms]) (simp add: four upt_rec)
qed

lemma pad_split:
  assumes "64 dvd length full" and "length rest < 64"
  shows "fips_pad (full @ rest) = full @ (if length rest < 56
      then rest @ [char_of (0x80 :: nat)] @ replicate (55 - length rest) NUL
      else (rest @ [char_of (0x80 :: nat)] @ replicate (63 - length rest) NUL) @ replicate 56 NUL)
    @ be_bytes 8 (8 * (length full + length rest))"
proof -
  have "length (full @ rest) mod 64 = length rest" using assms by (auto elim: dvdE)
  moreover have "replicate ((119 - r) mod 64) NUL
      = (if r < 56 then replicate (55 - r) NUL else replicate (63 - r) NUL @ replicate 56 NUL)" if "r < 64" for r
  proof (cases "r < 56")
    case False
    then have "(119 - r) mod 64 = (63 - r) + 56" using that by simp
    then show ?thesis using False by (simp only: replicate_add if_False)
  qed (simp add: le_mod_geq)
  ultimately show ?thesis using assms(2) unfolding fips_pad_def by simp
qed

lemma SHA256_Final_fips:
  assumes "absorbed ctx msg" and "length msg < 2 ^ 61"
  shows "SHA256_Final ctx = fips_sha256 msg"
proof -
  from assms(1) obtain full rest where msg: "msg = full @ rest" "64 dvd length full" "length rest < 64"
    and ctx: "length (ctx_data ctx) = 64" "datalen ctx = length rest" "take (length rest) (ctx_data ctx) = rest"
      "bitlen ctx = word_of_nat (8 * length full)" "length (ctx_state ctx) = 8"
      "ctx_state ctx = foldl fips_compress fips_H0 (fips_blocks full)"
    by (auto simp: absorbed_def)
  let ?r = "length rest" and ?L = "be_bytes 8 (8 * length msg)"
  define d where "d = (ctx_data ctx)[?r := char_of (0x80 :: nat)]"
  have d: "length d = 64" "take (Suc ?r) d = rest @ [char_of (0x80 :: nat)]"
    using ctx(1,3) msg(3) by (simp_all add: d_def take_Suc_conv_app_nth take_update_cancel)
  define N where "N = (word_of_nat (8 * length msg) :: u64)"
  have bits: "bitlen ctx + word_of_nat ?r * 8 = N" by (simp add: N_def ctx(4) msg(1) algebra_simps)
  have "unat N = 8 * length msg" unfolding N_def unfolding unat_of_nat using assms(2) by (intro mod_less) simp
  then have put: "put_length s N = take 56 s @ ?L" if "length s = 64" for s
    by (simp add: put_length_be [OF that])
  have L: "length ?L = 8" by (simp add: be_bytes_def)
  have one: "fips_blocks (s @ ?L) = [s @ ?L]" if "length s = 56" for s
    using fips_blocks_full [of "s @ ?L" "[]"] that L by (simp add: fips_blocks.simps [of "[]"])
  define H where "H = foldl fips_compress fips_H0 (fips_blocks (fips_pad msg))"
  have "ctx_state (SHA256_Transform ctx' (ctx_data ctx')) = H"
    if "ctx' = (let ctx = (if ?r < 56 then ctx\<lparr>ctx_data := zero_upto d (?r + 1) 56\<rparr>
             else (let ctx = ctx\<lparr>ctx_data := zero_upto d (?r + 1) 64\<rparr>; ctx = SHA256_Transform ctx (ctx_data ctx)
                   in ctx\<lparr>ctx_data := zero_upto (ctx_data ctx) 0 56\<rparr>));
           ctx = ctx\<lparr>bitlen := bitlen ctx + word_of_nat (datalen ctx) * 8\<rparr>
         in ctx\<lparr>ctx_data := put_length (ctx_data ctx) (bitlen ctx)\<rparr>)" for ctx'
  proof (cases "?r < 56")
    case True
    let ?s = "rest @ [char_of (0x80 :: nat)] @ replicate (55 - ?r) NUL"
    have "take 56 (zero_upto d (Suc ?r) 56) = ?s" "length (zero_upto d (Suc ?r) 56) = 64"
      using True d zero_upto_fill [of "Suc ?r" 56 d] by simp_all
    then have "ctx_data ctx' = ?s @ ?L" "ctx_state ctx' = ctx_state ctx"
      using True that by (simp_all add: Let_def ctx(2) bits put)
    moreover have "fips_blocks (fips_pad msg) = fips_blocks full @ [?s @ ?L]"
      using True one [of ?s] pad_split [OF msg(2,3)] fips_blocks_append [OF msg(2), of "?s @ ?L"] by (simp add: msg(1))
    moreover have "length (?s @ ?L) = 64" using True L by simp
    ultimately show ?thesis using ctx(5,6) unfolding H_def by (simp add: SHA256_Transform_compress del: append_assoc)
  next
    case False
    let ?b = "rest @ [char_of (0x80 :: nat)] @ replicate (63 - ?r) NUL" and ?z = "replicate 56 NUL"
    have b: "zero_upto d (Suc ?r) 64 = ?b" "length ?b = 64" using False msg(3) d by (simp_all add: zero_upto_def)
    have "take 56 (zero_upto s 0 56) = ?z" "length (zero_upto s 0 56) = 64" if "length s = 64" for s
      using that by (simp_all add: zero_upto_def)
    then have "ctx_data ctx' = ?z @ ?L" "ctx_state ctx' = fips_compress (ctx_state ctx) ?b"
      using False that b ctx(5) by (simp_all add: Let_def ctx(2) bits put SHA256_Transform_compress del: append_assoc)
    moreover have "fips_blocks (fips_pad msg) = fips_blocks full @ [?b, ?z @ ?L]"
      using False one [of ?z] pad_split [OF msg(2,3)] fips_blocks_append [OF msg(2), of "?b @ ?z @ ?L"]
        fips_blocks_full [OF b(2), of "?z @ ?L"] by (simp add: msg(1))
    moreover have "length (?z @ ?L) = 64" using L by simp
    ultimately show ?thesis using ctx(5,6) unfolding H_def
      by (simp add: SHA256_Transform_compress fips_compress_length del: append_assoc)
  qed
  moreover have "length H = 8"
  proof -
    have "length (foldl fips_compress H0 bs) = 8" if "length H0 = 8" for H0 bs
      using that by (induction bs arbitrary: H0) (simp_all add: fips_compress_length)
    then show ?thesis unfolding H_def by (simp add: sha_H0_fips)
  qed
  ultimately show ?thesis
    unfolding SHA256_Final_def fips_sha256_def H_def [symmetric] digest_words [of H, symmetric] ctx(2) d_def [symmetric]
    by (simp only: Let_def digest_words)
qed

text \<open>
  C20: Whatever pieces a message is handed over in, and whatever the context held before, the digest is the
  one FIPS 180-4 defines for the whole message: schedule, rounds, constants, padding and length agree.
\<close>

theorem sha256_is_fips:
  assumes "length (ctx_data ctx) = 64" and "length (concat pieces) < 2 ^ 61"
  shows "SHA256_Final (foldl SHA256_Update (SHA256_Init ctx) pieces) = fips_sha256 (concat pieces)"
  using SHA256_Final_fips [OF absorbed_updates [OF absorbed_init [OF assms(1)], of pieces]] assms(2) by simp

theorem sha256_is_fips_witness:
  "SHA256_Final (foldl SHA256_Update
      (SHA256_Init \<lparr>ctx_data = replicate 64 NUL, datalen = 0, bitlen = 0, ctx_state = []\<rparr>) [''a'', ''bc''])
    = fips_sha256 ''abc''"
  using sha256_is_fips [of "\<lparr>ctx_data = replicate 64 NUL, datalen = 0, bitlen = 0, ctx_state = []\<rparr>" "[''a'', ''bc'']"]
  by simp

lemma SHA256_Hash_fips:
  assumes "length (ctx_data ctx) = 64" and "length d < 2 ^ 61"
  shows "SHA256_Hash ctx d = fips_sha256 d"
  using SHA256_Final_fips [OF absorbed_update [OF absorbed_init [OF assms(1)], of d]] assms(2)
  by (simp add: SHA256_Hash_def)

end
