(* ===== verification/UserAccounts.thy ===== *)
theory UserAccounts
  imports Sha256 TimeProvider
begin

text \<open>
  The user accounts of \<open>src/UserAccounts/userAccounts.c\<close> and the checks of \<open>userAccountsWeb.c\<close>: salted and
  iterated password hashes, the list of registered users, and the file it is saved to and read from.
  A fixed array of characters is the C string in it.  What the system delivers (random bytes, memory,
  whether a file opens) is an argument.
\<close>

unbundle bit_operations_syntax

section \<open>Passwords\<close>

definition PASSWORD_HASH_ITERATIONS :: nat where "PASSWORD_HASH_ITERATIONS = 10000"

definition PASSWORD_SALT_BYTES :: nat where "PASSWORD_SALT_BYTES = 16"

definition SHA256_DIGEST_SIZE :: nat where "SHA256_DIGEST_SIZE = 32"

text \<open>\<open>snprintf(s, n, "%s", t)\<close> for an array of \<open>n\<close> characters, and the text of an array.\<close>

definition into_array :: "nat \<Rightarrow> string \<Rightarrow> string" where
  "into_array n t = take (n - 1) t"

definition hex_text :: "string \<Rightarrow> nat \<Rightarrow> string" where
  "hex_text d outHexSize = (case SHA256_ToHex d outHexSize of None \<Rightarrow> [] | Some t \<Rightarrow> t)"

text \<open>\<open>ctx\<close> is the memory of the contexts on the stack, which is not initialised.\<close>

definition hashPassword :: "sha256_context \<Rightarrow> string \<Rightarrow> string \<Rightarrow> nat \<Rightarrow> string" where
  "hashPassword ctx password salt outStorageStringSize =
     (let mixed = salt @ take 256 password;
          digest = (SHA256_Hash ctx ^^ (PASSWORD_HASH_ITERATIONS - 1)) (SHA256_Hash ctx mixed);
          saltHex = hex_text salt (PASSWORD_SALT_BYTES * 2 + 1);
          hashHex = hex_text digest (SHA256_DIGEST_SIZE * 2 + 1)
      in into_array outStorageStringSize (saltHex @ CHR '':'' # hashHex))"

text \<open>
  \<open>sscanf(s,"%2x",&v)\<close>: blanks are skipped, then at most two characters are read, which may be a sign and
  a digit or the prefix of a hexadecimal number.
\<close>

definition xdigit_val :: "char \<Rightarrow> nat option" where
  "xdigit_val c =
     (if is_digit c then Some (byte_val c - 48)
      else if 97 \<le> byte_val c \<and> byte_val c \<le> 102 then Some (byte_val c - 87)
      else if 65 \<le> byte_val c \<and> byte_val c \<le> 70 then Some (byte_val c - 55) else None)"

definition scan_2x :: "string \<Rightarrow> nat option" where
  "scan_2x s =
     (let (neg, w) = skip_sign (take 2 (dropWhile isspace s));
          ds = takeWhile (\<lambda>c. xdigit_val c \<noteq> None) w;
          v = foldl (\<lambda>v c. 16 * v + the (xdigit_val c)) 0 ds
      in if ds = [] then None else Some (if neg then (2 ^ 32 - v) mod 2 ^ 32 else v))"

text \<open>The salt in a stored value, two characters a byte.\<close>

fun read_salt :: "string \<Rightarrow> nat \<Rightarrow> string option" where
  "read_salt s 0 = Some []"
| "read_salt s (Suc n) =
     (case scan_2x s of
        None \<Rightarrow> None
      | Some v \<Rightarrow> map_option (\<lambda>r. char_of (v mod 256) # r) (read_salt (drop 2 s) n))"

definition strings_differ :: "string \<Rightarrow> string \<Rightarrow> u8" where
  "strings_differ s t =
     foldl (\<lambda>diff i. diff OR (word_of_nat (byte_val (s ! i)) XOR word_of_nat (byte_val (t ! i)))) 0 [0..<length s]"

definition verifyPassword :: "sha256_context \<Rightarrow> string \<Rightarrow> string \<Rightarrow> bool" where
  "verifyPassword ctx password storedValue =
     (let saltHexLen = length (takeWhile (\<lambda>c. c \<noteq> CHR '':'') storedValue)
      in if CHR '':'' \<notin> set storedValue then False
         else if saltHexLen \<noteq> PASSWORD_SALT_BYTES * 2 then False
         else (case read_salt storedValue PASSWORD_SALT_BYTES of
                 None \<Rightarrow> False
               | Some salt \<Rightarrow>
                   (let recomputed = hashPassword ctx password salt (PASSWORD_SALT_BYTES * 2 + 1 + SHA256_DIGEST_SIZE * 2 + 1)
                    in if length recomputed \<noteq> length storedValue then False
                       else strings_differ recomputed storedValue = 0)))"

section \<open>The database\<close>

record RegisteredUser =
  username :: string
  password :: string
  sessionID :: string

record UserAccountDatabase =
  userList :: "RegisteredUser list"
  userListMaxSize :: nat

record UserAccountAuthenticationToken =
  token_user :: RegisteredUser
  uid :: nat

text \<open>\<open>userListSize\<close> is the length of \<open>userList\<close>; the entries behind it are not initialised.\<close>

abbreviation userListSize :: "UserAccountDatabase \<Rightarrow> nat" where
  "userListSize uadb \<equiv> length (userList uadb)"

definition uadb_getUserTokenFromUserID ::
    "UserAccountDatabase option \<Rightarrow> nat \<Rightarrow> UserAccountAuthenticationToken option checked" where
  "uadb_getUserTokenFromUserID uadb userID =
     (case uadb of
        None \<Rightarrow> Inr None
      | Some uadb \<Rightarrow>
          if userID < userListSize uadb then Inr (Some \<lparr>token_user = userList uadb ! userID, uid = userID\<rparr>)
          else Inl Out_of_bounds)"

text \<open>The loop over the users, from number \<open>i\<close>.\<close>

fun authenticate_from :: "sha256_context \<Rightarrow> string \<Rightarrow> string \<Rightarrow> nat \<Rightarrow> RegisteredUser list \<Rightarrow> UserAccountAuthenticationToken option" where
  "authenticate_from ctx name pass i [] = None"
| "authenticate_from ctx name pass i (u # us) =
     (if username u = name \<and> verifyPassword ctx pass (password u)
      then Some \<lparr>token_user = u, uid = i\<rparr>
      else authenticate_from ctx name pass (i + 1) us)"

definition uadb_authenticateUser ::
    "sha256_context \<Rightarrow> UserAccountDatabase option \<Rightarrow> string \<Rightarrow> string \<Rightarrow> UserAccountAuthenticationToken option" where
  "uadb_authenticateUser ctx uadb name pass =
     (case uadb of None \<Rightarrow> None | Some uadb \<Rightarrow> authenticate_from ctx name pass 0 (userList uadb))"

definition uadb_loginUser ::
    "sha256_context \<Rightarrow> UserAccountDatabase option \<Rightarrow> string \<Rightarrow> string \<Rightarrow> UserAccountAuthenticationToken option" where
  "uadb_loginUser ctx uadb name pass = uadb_authenticateUser ctx uadb name pass"

fun session_from :: "string \<Rightarrow> nat \<Rightarrow> RegisteredUser list \<Rightarrow> nat option" where
  "session_from sid i [] = None"
| "session_from sid i (u # us) = (if sessionID u = sid then Some i else session_from sid (i + 1) us)"

definition uadb_getUserIDFromSessionID :: "UserAccountDatabase option \<Rightarrow> string \<Rightarrow> nat option" where
  "uadb_getUserIDFromSessionID uadb sid =
     (case uadb of None \<Rightarrow> None | Some uadb \<Rightarrow> session_from sid 0 (userList uadb))"

definition uadb_getUserTokenFromSessionID ::
    "UserAccountDatabase option \<Rightarrow> string \<Rightarrow> UserAccountAuthenticationToken option checked" where
  "uadb_getUserTokenFromSessionID uadb sid =
     (case uadb_getUserIDFromSessionID uadb sid of
        None \<Rightarrow> Inr None
      | Some userID \<Rightarrow> uadb_getUserTokenFromUserID uadb userID)"

definition uadbWeb_userAccountExists :: "UserAccountDatabase option \<Rightarrow> string option \<Rightarrow> bool" where
  "uadbWeb_userAccountExists uadb name =
     (case (uadb, name) of (Some uadb, Some name) \<Rightarrow> list_ex (\<lambda>u. username u = name) (userList uadb) | _ \<Rightarrow> False)"

definition isalnum :: "char \<Rightarrow> bool" where
  "isalnum c \<longleftrightarrow> is_digit c \<or> 65 \<le> byte_val c \<and> byte_val c \<le> 90 \<or> 97 \<le> byte_val c \<and> byte_val c \<le> 122"

definition uadbWeb_isValidUsername :: "string option \<Rightarrow> bool" where
  "uadbWeb_isValidUsername name =
     (case name of
        None \<Rightarrow> False
      | Some u \<Rightarrow> \<not> (length u < 3 \<or> length u > 31)
                  \<and> list_all (\<lambda>c. isalnum c \<or> c = CHR ''_'' \<or> c = CHR ''-'') u)"

section \<open>The file\<close>

text \<open>\<open>"%d"\<close> of an unsigned value.\<close>

definition show_d :: "nat \<Rightarrow> string" where
  "show_d n = (if n < 2 ^ 31 then show_u n else CHR ''-'' # show_u (2 ^ 32 - n))"

definition user_lines :: "RegisteredUser \<Rightarrow> string" where
  "user_lines u = username u @ [LF] @ password u @ [LF] @ sessionID u @ [LF]"

text \<open>What the file holds afterwards, and the answer; \<open>opens\<close> says whether it could be opened.\<close>

definition uadb_saveUserAccountDatabase :: "bool \<Rightarrow> UserAccountDatabase \<Rightarrow> string option \<Rightarrow> string option \<times> bool" where
  "uadb_saveUserAccountDatabase opens uadb disk =
     (if opens then (Some (show_d (userListSize uadb) @ [LF] @ concat (map user_lines (userList uadb))), True)
      else (disk, False))"

definition uadb_closeUserAccountDatabase :: "bool \<Rightarrow> UserAccountDatabase \<Rightarrow> string option \<Rightarrow> string option \<times> bool" where
  "uadb_closeUserAccountDatabase opens uadb disk = (fst (uadb_saveUserAccountDatabase opens uadb disk), False)"

text \<open>
  \<open>fscanf\<close> of \<open>"%d\n"\<close> and of \<open>"%s\n"\<close>: the value, if there is one, and the rest of the file.  A number that
  does not fit 64 bits is cut by \<open>strtol\<close>.
\<close>

definition fscan_d :: "string \<Rightarrow> nat option \<times> string" where
  "fscan_d f =
     (let (neg, r) = skip_sign (dropWhile isspace f); ds = takeWhile is_digit r; n = dec_val ds
      in if ds = [] then (None, r)
         else (Some (if neg then nat (- int (min n (2 ^ 63)) mod 2 ^ 32) else min n (2 ^ 63 - 1) mod 2 ^ 32),
               dropWhile isspace (drop (length ds) r)))"

definition fscan_s :: "string \<Rightarrow> string option \<times> string" where
  "fscan_s f =
     (let f = dropWhile isspace f; t = takeWhile (\<lambda>c. \<not> isspace c) f
      in if t = [] then (None, []) else (Some t, dropWhile isspace (drop (length t) f)))"

text \<open>A word that is read into an array of \<open>n\<close> characters, whose old text is \<open>old\<close>.\<close>

definition scan_field :: "nat \<Rightarrow> string \<Rightarrow> string \<Rightarrow> (string \<times> string) checked" where
  "scan_field n old f =
     (case fscan_s f of
        (None, f) \<Rightarrow> Inr (old, f)
      | (Some t, f) \<Rightarrow> if length t < n then Inr (t, f) else Inl Out_of_bounds)"

definition scan_user :: "RegisteredUser \<Rightarrow> string \<Rightarrow> (RegisteredUser \<times> string) checked" where
  "scan_user old f =
     (case scan_field 32 (username old) f of Inl e \<Rightarrow> Inl e | Inr (name, f) \<Rightarrow>
       (case scan_field 128 (password old) f of Inl e \<Rightarrow> Inl e | Inr (pass, f) \<Rightarrow>
         (case scan_field 32 (sessionID old) f of Inl e \<Rightarrow> Inl e | Inr (sid, f) \<Rightarrow>
           Inr (\<lparr>username = name, password = pass, sessionID = sid\<rparr>, f))))"

text \<open>The loop that reads the users; \<open>room\<close> entries are left in the list.\<close>

fun scan_users :: "RegisteredUser \<Rightarrow> nat \<Rightarrow> nat \<Rightarrow> string \<Rightarrow> RegisteredUser list checked" where
  "scan_users old 0 room f = Inr []"
| "scan_users old (Suc n) room f =
     (if room = 0 then Inl Out_of_bounds
      else (case scan_user old f of Inl e \<Rightarrow> Inl e | Inr (u, f) \<Rightarrow>
             map_sum id (\<lambda>us. u # us) (scan_users old n (room - 1) f)))"

text \<open>
  \<open>memory\<close> is the number and the entry that the allocated memory happens to hold; \<open>malloc1\<close> and \<open>malloc2\<close>
  say whether the two allocations succeed.  A list of no users that could not be allocated is not told
  from an empty one.
\<close>

definition uadb_initializeUserAccountDatabase ::
    "bool \<Rightarrow> bool \<Rightarrow> nat \<times> RegisteredUser \<Rightarrow> string option \<Rightarrow> UserAccountDatabase option checked" where
  "uadb_initializeUserAccountDatabase malloc1 malloc2 memory file =
     (case file of
        Some f \<Rightarrow>
          if \<not> malloc1 then Inl Null_deref
          else (case fscan_d f of (n, f) \<Rightarrow>
                 (let size = (case n of None \<Rightarrow> fst memory | Some n \<Rightarrow> n); maxSize = (size + 100) mod 2 ^ 32
                  in if \<not> malloc2 \<and> size > 0 then Inl Null_deref
                     else map_sum id (\<lambda>us. Some \<lparr>userList = us, userListMaxSize = maxSize\<rparr>)
                            (scan_users (snd memory) size maxSize f)))
      | None \<Rightarrow>
          Inr (if malloc1 \<and> malloc2 then Some \<lparr>userList = [], userListMaxSize = 100\<rparr> else None))"

section \<open>New accounts\<close>

text \<open>The fallback for a session identifier: letters from \<open>rand\<close>.\<close>

definition uadb_getBackRandomFileDigitsInplace :: "nat list \<Rightarrow> nat \<Rightarrow> string" where
  "uadb_getBackRandomFileDigitsInplace rands numberOfDigits =
     map (\<lambda>i. char_of (97 + (rands ! i) mod 25)) [0..<numberOfDigits]"

text \<open>What the system does while an account is made.\<close>

record signup_env =
  realloc_ok :: bool
  salt_bytes :: "string option"
  seed_bytes :: "string option"
  rands :: "nat list"
  file_opens :: bool

definition uadb_addUser ::
    "sha256_context \<Rightarrow> signup_env \<Rightarrow> UserAccountDatabase \<Rightarrow> string option \<Rightarrow> string \<Rightarrow> string
      \<Rightarrow> UserAccountDatabase \<times> string option \<times> bool" where
  "uadb_addUser ctx env uadb disk name pass =
     (if list_ex (\<lambda>u. username u = name) (userList uadb) then (uadb, disk, False)
      else if userListSize uadb \<ge> userListMaxSize uadb \<and> \<not> realloc_ok env then (uadb, disk, False)
      else
        (let uadb = (if userListSize uadb \<ge> userListMaxSize uadb
                     then uadb\<lparr>userListMaxSize := (userListMaxSize uadb + 100) mod 2 ^ 32\<rparr> else uadb)
         in case salt_bytes env of
              None \<Rightarrow> (uadb, disk, False)
            | Some salt \<Rightarrow>
                (let user = \<lparr>username = into_array 32 name, password = hashPassword ctx pass salt 128,
                             sessionID = (case seed_bytes env of
                                            Some seed \<Rightarrow> hex_text seed 32
                                          | None \<Rightarrow> uadb_getBackRandomFileDigitsInplace (rands env) 31)\<rparr>;
                     uadb = uadb\<lparr>userList := userList uadb @ [user]\<rparr>
                 in (uadb, fst (uadb_saveUserAccountDatabase (file_opens env) uadb disk), True))))"

section \<open>Hexadecimal text\<close>

definition hex_bytes :: "string \<Rightarrow> string" where
  "hex_bytes d = concat (map (\<lambda>c. [hexChars ! (byte_val c div 16 mod 16), hexChars ! (byte_val c mod 16)]) d)"

lemma hex_text_bytes: "length d < 2 ^ 30 \<Longrightarrow> length d * 2 + 1 \<le> n \<Longrightarrow> hex_text d n = hex_bytes d"
  by (simp add: hex_text_def SHA256_ToHex_def hex_bytes_def)

lemma hexChars_nth:
  assumes "n < 16"
  shows "xdigit_val (hexChars ! n) = Some n" and "\<not> isspace (hexChars ! n)" and "hexChars ! n \<noteq> CHR ''+''"
    and "hexChars ! n \<noteq> CHR ''-''" and "hexChars ! n \<noteq> CHR '':''"
proof -
  have "list_all (\<lambda>n. xdigit_val (hexChars ! n) = Some n \<and> \<not> isspace (hexChars ! n) \<and> hexChars ! n \<noteq> CHR ''+''
      \<and> hexChars ! n \<noteq> CHR ''-'' \<and> hexChars ! n \<noteq> CHR '':'') [0..<16]"
    by (simp add: upt_rec hexChars_def xdigit_val_def isspace_def is_digit_def)
  then show "xdigit_val (hexChars ! n) = Some n" "\<not> isspace (hexChars ! n)" "hexChars ! n \<noteq> CHR ''+''"
    "hexChars ! n \<noteq> CHR ''-''" "hexChars ! n \<noteq> CHR '':''"
    using assms by (auto simp: list_all_iff)
qed

lemma scan_2x_hex:
  assumes "a < 16" and "b < 16"
  shows "scan_2x (hexChars ! a # hexChars ! b # r) = Some (16 * a + b)"
  using hexChars_nth [OF assms(1)] hexChars_nth [OF assms(2)]
  by (simp add: scan_2x_def skip_sign_def numeral_2_eq_2)

lemma read_salt_hex: "read_salt (hex_bytes d @ r) (length d) = Some d"
proof (induction d)
  case (Cons c d)
  have "byte_val c div 16 mod 16 = byte_val c div 16" using byte_val_lt [of c] by (intro mod_less less_mult_imp_div_less) simp
  then have "16 * (byte_val c div 16 mod 16) + byte_val c mod 16 = byte_val c" by simp
  then show ?case using Cons scan_2x_hex [of "byte_val c div 16 mod 16" "byte_val c mod 16" "hex_bytes d @ r"]
    by (simp add: hex_bytes_def)
qed (simp add: hex_bytes_def)

lemma hex_bytes_inj: "length a = length b \<Longrightarrow> hex_bytes a = hex_bytes b \<longleftrightarrow> a = b"
  by (metis append_Nil2 option.inject read_salt_hex)

lemma hex_bytes_length: "length (hex_bytes d) = 2 * length d"
  by (induction d) (simp_all add: hex_bytes_def)

lemma hex_bytes_chars:
  assumes "c \<in> set (hex_bytes d)"
  shows "\<not> isspace c \<and> c \<noteq> CHR '':''"
proof -
  have "\<exists>n<16. c = hexChars ! n"
    using assms unfolding hex_bytes_def by (force intro: mod_less_divisor)
  then obtain n where "n < 16" "c = hexChars ! n" by blast
  then show ?thesis by (simp add: hexChars_nth)
qed

section \<open>The check of a password\<close>

lemma or_fold_zero:
  "foldl (\<lambda>diff i. diff OR f i) a is = (0 :: 'a::len word) \<longleftrightarrow> a = 0 \<and> (\<forall>i\<in>set is. f i = 0)"
  by (induction "is" arbitrary: a) (auto simp: or_eq_0_iff)

lemma strings_differ_zero: "length s = length t \<Longrightarrow> strings_differ s t = 0 \<longleftrightarrow> s = t"
proof -
  assume len: "length s = length t"
  have byte: "(word_of_nat (byte_val c) :: u8) XOR word_of_nat (byte_val d) = 0 \<longleftrightarrow> c = d" for c d
  proof -
    have "a XOR b = 0 \<longleftrightarrow> a = b" for a b :: u8 by (auto simp: bit_eq_iff bit_xor_iff)
    then show ?thesis
      using byte_val_lt [of c] byte_val_lt [of d]
      by (simp only: word_of_nat_eq_iff char_eq_byte_val) (simp add: take_bit_nat_eq_self)
  qed
  have "strings_differ s t = 0 \<longleftrightarrow> (\<forall>i\<in>set [0..<length s]. s ! i = t ! i)"
    unfolding strings_differ_def or_fold_zero byte by (simp only: simp_thms)
  then have "strings_differ s t = 0 \<longleftrightarrow> (\<forall>i<length s. s ! i = t ! i)" by auto
  then show ?thesis using len nth_equalityI [of s t] by blast
qed

definition stretched :: "string \<Rightarrow> string \<Rightarrow> string" where
  "stretched salt pass = (fips_sha256 ^^ PASSWORD_HASH_ITERATIONS) (salt @ take 256 pass)"

lemma SHA256_Hash_length: "length (SHA256_Hash ctx d) = 32"
  by (simp add: SHA256_Hash_def SHA256_Final_def Let_def)

lemma SHA256_Hash_iterated:
  assumes "length (ctx_data ctx) = 64" and "length d < 2 ^ 61"
  shows "(SHA256_Hash ctx ^^ n) d = (fips_sha256 ^^ n) d \<and> length ((fips_sha256 ^^ n) d) < 2 ^ 61"
proof (induction n)
  case (Suc n)
  then have "SHA256_Hash ctx ((fips_sha256 ^^ n) d) = fips_sha256 ((fips_sha256 ^^ n) d)"
    using assms(1) by (intro SHA256_Hash_fips) simp_all
  moreover from this have "length (fips_sha256 ((fips_sha256 ^^ n) d)) = 32" by (metis SHA256_Hash_length)
  ultimately show ?case using Suc by simp
qed (use assms in simp)

lemma hashPassword_text:
  assumes "length (ctx_data ctx) = 64" and "length salt = 16" and "98 \<le> n"
  shows "hashPassword ctx p salt n = hex_bytes salt @ CHR '':'' # hex_bytes (stretched salt p)"
    and "length (stretched salt p) = 32"
proof -
  let ?m = "salt @ take 256 p" and ?N = PASSWORD_HASH_ITERATIONS
  have one: "0 < ?N" by (simp add: PASSWORD_HASH_ITERATIONS_def)
  have "length ?m < 2 ^ 61" using assms(2) by simp
  then have all: "(SHA256_Hash ctx ^^ ?N) ?m = stretched salt p"
    using SHA256_Hash_iterated [OF assms(1), of ?m ?N] by (simp add: stretched_def)
  moreover have "(SHA256_Hash ctx ^^ ?N) x = (SHA256_Hash ctx ^^ (?N - 1)) (SHA256_Hash ctx x)" for x
  proof -
    have "?N = Suc (?N - 1)" using one by simp
    then show ?thesis by (metis funpow_swap1 funpow.simps(2) comp_apply)
  qed
  ultimately have dig: "(SHA256_Hash ctx ^^ (?N - 1)) (SHA256_Hash ctx ?m) = stretched salt p" by simp
  show len: "length (stretched salt p) = 32"
  proof -
    have "?N = Suc (?N - 1)" using one by simp
    then show ?thesis unfolding all [symmetric] by (metis SHA256_Hash_length funpow.simps(2) comp_apply)
  qed
  have "length (hex_bytes salt @ CHR '':'' # hex_bytes (stretched salt p)) = 97"
    using len assms(2) by (simp add: hex_bytes_length)
  then have "into_array n (hex_bytes salt @ CHR '':'' # hex_bytes (stretched salt p))
      = hex_bytes salt @ CHR '':'' # hex_bytes (stretched salt p)"
    unfolding into_array_def by (rule take_all [OF order_trans [OF eq_refl]]) (use assms(3) in simp)
  then show "hashPassword ctx p salt n = hex_bytes salt @ CHR '':'' # hex_bytes (stretched salt p)"
    unfolding hashPassword_def Let_def dig using len assms(2)
    by (simp add: hex_text_bytes PASSWORD_SALT_BYTES_def SHA256_DIGEST_SIZE_def)
qed

lemma password_verified:
  assumes "length (ctx_data ctx) = 64" and "length (ctx_data ctx') = 64" and "length salt = PASSWORD_SALT_BYTES"
  shows "verifyPassword ctx p (hashPassword ctx' p0 salt 128) \<longleftrightarrow> stretched salt p = stretched salt p0"
proof -
  have salt: "length salt = 16" using assms(3) by (simp add: PASSWORD_SALT_BYTES_def)
  note stored = hashPassword_text [OF assms(2) salt, of 128 p0]
  note again = hashPassword_text [OF assms(1) salt, of 98 p]
  let ?v = "hex_bytes salt @ CHR '':'' # hex_bytes (stretched salt p0)"
  have colon: "takeWhile (\<lambda>c. c \<noteq> CHR '':'') ?v = hex_bytes salt"
    using hex_bytes_chars [of _ salt] by (subst takeWhile_append2) auto
  have salted: "read_salt ?v 16 = Some salt" using read_salt_hex [of salt] salt by simp
  have "verifyPassword ctx p ?v \<longleftrightarrow> hex_bytes salt @ CHR '':'' # hex_bytes (stretched salt p) = ?v"
    using again stored salt
    by (simp add: verifyPassword_def Let_def colon PASSWORD_SALT_BYTES_def SHA256_DIGEST_SIZE_def salted hex_bytes_length
        strings_differ_zero)
  also have "\<dots> \<longleftrightarrow> stretched salt p = stretched salt p0" using again stored by (simp add: hex_bytes_inj)
  finally show ?thesis using stored by simp
qed

text \<open>
  C10: A password is accepted against the stored value of an account exactly when 10000 rounds of SHA-256 over
  the salt and at most 256 characters of it give the digest that was stored; the stored value can always
  be read back, whatever the salt.
\<close>

theorem password_checked:
  assumes "length (ctx_data ctx) = 64" and "length (ctx_data ctx') = 64" and "length salt = PASSWORD_SALT_BYTES"
  shows "verifyPassword ctx p (hashPassword ctx' p0 salt 128) \<longleftrightarrow> stretched salt p = stretched salt p0"
  using assms by (rule password_verified)

abbreviation fresh_context :: sha256_context where
  "fresh_context \<equiv> \<lparr>ctx_data = replicate 64 NUL, datalen = 0, bitlen = 0, ctx_state = []\<rparr>"

theorem password_checked_witness:
  "verifyPassword fresh_context ''secret'' (hashPassword fresh_context ''secret'' ''0123456789abcdef'' 128)"
  using password_checked [of fresh_context fresh_context "''0123456789abcdef''" "''secret''" "''secret''"]
  by (simp add: PASSWORD_SALT_BYTES_def)

section \<open>Signing up and signing in\<close>

lemma addUser_cases:
  assumes "uadb_addUser ctx env uadb disk name pass = (uadb', disk', True)" and "salt_bytes env = Some salt"
  obtains u where "userList uadb' = userList uadb @ [u]" and "username u = into_array 32 name"
    and "password u = hashPassword ctx pass salt 128"
    and "sessionID u = (case seed_bytes env of Some seed \<Rightarrow> hex_text seed 32
                        | None \<Rightarrow> uadb_getBackRandomFileDigitsInplace (rands env) 31)"
    and "\<not> list_ex (\<lambda>u. username u = name) (userList uadb)"
    and "disk' = fst (uadb_saveUserAccountDatabase (file_opens env) uadb' disk)"
proof -
  let ?u = "\<lparr>username = into_array 32 name, password = hashPassword ctx pass salt 128,
    sessionID = (case seed_bytes env of Some seed \<Rightarrow> hex_text seed 32
                 | None \<Rightarrow> uadb_getBackRandomFileDigitsInplace (rands env) 31)\<rparr>"
  have "userList uadb' = userList uadb @ [?u] \<and> \<not> list_ex (\<lambda>u. username u = name) (userList uadb)
      \<and> disk' = fst (uadb_saveUserAccountDatabase (file_opens env) uadb' disk)"
    using assms by (auto simp: uadb_addUser_def Let_def split: if_splits)
  then show ?thesis by (intro that [of ?u]) simp_all
qed

lemma authenticate_from_append:
  "authenticate_from ctx name pass i (us @ vs)
    = (case authenticate_from ctx name pass i us of
         Some t \<Rightarrow> Some t
       | None \<Rightarrow> authenticate_from ctx name pass (i + length us) vs)"
  by (induction us arbitrary: i) (auto split: option.split)

lemma authenticate_from_absent:
  "\<not> list_ex (\<lambda>u. username u = name) us \<Longrightarrow> authenticate_from ctx name pass i us = None"
  by (induction us arbitrary: i) auto

lemma session_from_user: "session_from sid i us = Some j \<Longrightarrow> i \<le> j \<and> j < i + length us \<and> sessionID (us ! (j - i)) = sid"
proof (induction us arbitrary: i)
  case (Cons u us)
  then show ?case
    by (cases "sessionID u = sid") (auto simp: Suc_diff_le nth_Cons' dest!: Cons.IH split: if_splits)
qed simp

text \<open>A session identifier never leads out of the list, and only to a user who has it.\<close>

lemma session_token:
  "\<exists>t. uadb_getUserTokenFromSessionID uadb sid = Inr t \<and> (\<forall>tok. t = Some tok \<longrightarrow> sessionID (token_user tok) = sid)"
proof (cases "uadb_getUserIDFromSessionID uadb sid")
  case (Some j)
  then obtain db where "uadb = Some db" "session_from sid 0 (userList db) = Some j"
    by (auto simp: uadb_getUserIDFromSessionID_def split: option.splits)
  then show ?thesis using Some session_from_user [of sid 0 "userList db" j]
    by (simp add: uadb_getUserTokenFromSessionID_def uadb_getUserTokenFromUserID_def)
qed (simp add: uadb_getUserTokenFromSessionID_def)

text \<open>
  C11: After a user of at most 31 characters has signed up, that name signs in with exactly the passwords that
  hash to the stored digest, as the last user of the list, and every other name signs in as before.
\<close>

theorem signup_signs_in:
  assumes "uadb_addUser ctx env uadb disk name pass = (uadb', disk', True)" and "salt_bytes env = Some salt"
    and "length salt = PASSWORD_SALT_BYTES" and "length name \<le> 31" and "length (ctx_data ctx) = 64"
  shows "uadb_authenticateUser ctx (Some uadb') u p
    = (if u = name
       then (if stretched salt p = stretched salt pass
             then Some \<lparr>token_user = last (userList uadb'), uid = userListSize uadb\<rparr> else None)
       else uadb_authenticateUser ctx (Some uadb) u p)"
proof -
  obtain v where v: "userList uadb' = userList uadb @ [v]" "username v = into_array 32 name"
    "password v = hashPassword ctx pass salt 128" "\<not> list_ex (\<lambda>u. username u = name) (userList uadb)"
    using addUser_cases [OF assms(1,2)] .
  have name: "username v = name" using v(2) assms(4) by (simp add: into_array_def)
  have check: "verifyPassword ctx p (password v) \<longleftrightarrow> stretched salt p = stretched salt pass"
    unfolding v(3) using assms(3,5) by (intro password_verified) simp_all
  show ?thesis
    using authenticate_from_absent [OF v(4)]
    by (auto simp: uadb_authenticateUser_def v(1) authenticate_from_append name check split: option.split)
qed

theorem signup_signs_in_witness:
  "\<exists>uadb' disk'. uadb_addUser fresh_context
      \<lparr>realloc_ok = True, salt_bytes = Some ''0123456789abcdef'', seed_bytes = Some ''0123456789abcde'', rands = [], file_opens = True\<rparr>
      \<lparr>userList = [], userListMaxSize = 100\<rparr> None ''ammar'' ''secret'' = (uadb', disk', True)
    \<and> uadb_authenticateUser fresh_context (Some uadb') ''ammar'' ''secret'' \<noteq> None"
  (is "\<exists>uadb' disk'. uadb_addUser _ ?env ?db _ _ _ = _ \<and> _")
proof -
  obtain uadb' disk' where run: "uadb_addUser fresh_context ?env ?db None ''ammar'' ''secret'' = (uadb', disk', True)"
    by (auto simp: uadb_addUser_def Let_def)
  have "uadb_authenticateUser fresh_context (Some uadb') ''ammar'' ''secret''
      = Some \<lparr>token_user = last (userList uadb'), uid = userListSize ?db\<rparr>"
    by (subst signup_signs_in [OF run, of "''0123456789abcdef''"]) (simp_all add: PASSWORD_SALT_BYTES_def)
  then show ?thesis using run by blast
qed

text \<open>A longer name is cut when it is stored, and whoever chose it can never sign in.\<close>

lemma long_name_locked_out:
  assumes "uadb_addUser ctx env uadb disk name pass = (uadb', disk', True)" and "salt_bytes env = Some salt"
    and "31 < length name"
  shows "uadb_authenticateUser ctx (Some uadb') name p = None"
proof -
  obtain v where v: "userList uadb' = userList uadb @ [v]" "username v = into_array 32 name"
    "\<not> list_ex (\<lambda>u. username u = name) (userList uadb)"
    using addUser_cases [OF assms(1,2)] .
  have "length (username v) = 31" using assms(3) by (simp add: v(2) into_array_def)
  then have "username v \<noteq> name" using assms(3) by auto
  then show ?thesis
    using authenticate_from_absent [OF v(3), of ctx p 0] by (simp add: uadb_authenticateUser_def v(1) authenticate_from_append)
qed

section \<open>The file of accounts\<close>

text \<open>A field of the file, and an account whose fields come back from it.\<close>

definition field_ok :: "nat \<Rightarrow> string \<Rightarrow> bool" where
  "field_ok n t \<longleftrightarrow> t \<noteq> [] \<and> length t < n \<and> list_all (\<lambda>c. \<not> isspace c) t"

definition user_ok :: "RegisteredUser \<Rightarrow> bool" where
  "user_ok u \<longleftrightarrow> field_ok 32 (username u) \<and> field_ok 128 (password u) \<and> field_ok 32 (sessionID u)"

lemma word_not_blank: "field_ok n t \<Longrightarrow> dropWhile isspace (t @ f) = t @ f"
  by (cases t) (auto simp: field_ok_def)

lemma field_word:
  assumes "field_ok n t" and "isspace c"
  shows "fscan_s (t @ c # f) = (Some t, dropWhile isspace f)"
proof -
  have "takeWhile (\<lambda>c. \<not> isspace c) (t @ c # f) = t"
    using assms by (subst takeWhile_append2) (auto simp: field_ok_def list_all_iff)
  then show ?thesis using assms word_not_blank [OF assms(1), of "c # f"] by (simp add: fscan_s_def field_ok_def)
qed

lemma scan_field_word: "field_ok n t \<Longrightarrow> isspace c \<Longrightarrow> scan_field n old (t @ c # f) = Inr (t, dropWhile isspace f)"
  using field_word [of n t c f] by (simp add: scan_field_def field_ok_def)

lemma scan_field_long:
  "field_ok m t \<Longrightarrow> isspace c \<Longrightarrow> \<not> length t < n \<Longrightarrow> scan_field n old (t @ c # f) = Inl Out_of_bounds"
  using field_word [of m t c f] by (simp add: scan_field_def)

lemma isspace_LF [simp]: "isspace LF"
  by (simp add: isspace_def)

lemma scan_user_lines:
  assumes "user_ok u"
  shows "scan_user old (user_lines u @ f) = Inr (u, dropWhile isspace f)"
  using assms scan_field_word [of 32 "username u" LF] scan_field_word [of 128 "password u" LF]
    scan_field_word [of 32 "sessionID u" LF] word_not_blank [of 128 "password u"] word_not_blank [of 32 "sessionID u"]
  by (simp add: scan_user_def user_lines_def user_ok_def)

lemma lines_not_blank:
  "list_all user_ok us \<Longrightarrow> dropWhile isspace f = f
    \<Longrightarrow> dropWhile isspace (concat (map user_lines us) @ f) = concat (map user_lines us) @ f"
proof (cases us)
  case (Cons u us')
  assume "list_all user_ok us"
  then show ?thesis using Cons word_not_blank [of 32 "username u"] by (simp add: user_lines_def user_ok_def)
qed simp

lemma scan_users_lines:
  "list_all user_ok us \<Longrightarrow> length us \<le> room \<Longrightarrow> dropWhile isspace f = f
    \<Longrightarrow> scan_users old (length us + n) room (concat (map user_lines us) @ f)
      = map_sum id (\<lambda>vs. us @ vs) (scan_users old n (room - length us) f)"
proof (induction us arbitrary: room)
  case Nil
  show ?case by (cases "scan_users old n room f") simp_all
next
  case (Cons u us)
  obtain m where "room = Suc m" "length us \<le> m" using Cons.prems(2) by (cases room) auto
  then show ?case
    using Cons scan_user_lines [of u old "concat (map user_lines us) @ f"] lines_not_blank [of us f]
    by (cases "scan_users old n (m - length us) f") simp_all
qed

lemma fscan_d_show:
  assumes "n < 2 ^ 31"
  shows "fscan_d (show_d n @ LF # f) = (Some n, dropWhile isspace f)"
proof -
  note ds = show_u_digits [of n]
  obtain d ds' where d: "show_u n = d # ds'" "is_digit d" using ds by (cases "show_u n") auto
  then have "skip_sign (dropWhile isspace (show_u n @ LF # f)) = (False, show_u n @ LF # f)"
    using digit_not_blank [OF d(2)] by (simp add: skip_sign_def)
  moreover have "takeWhile is_digit (show_u n @ LF # f) = show_u n"
    using ds by (intro takeWhile_digits) (simp_all add: is_digit_def)
  moreover have "isspace LF" by (simp add: isspace_def)
  ultimately show ?thesis using ds assms by (simp add: fscan_d_def show_d_def)
qed

lemma load_saved:
  assumes "list_all user_ok (userList uadb)" and "userListSize uadb + 100 < 2 ^ 31"
  shows "uadb_initializeUserAccountDatabase True True memory (fst (uadb_saveUserAccountDatabase True uadb disk))
    = Inr (Some \<lparr>userList = userList uadb, userListMaxSize = userListSize uadb + 100\<rparr>)"
proof -
  let ?f = "concat (map user_lines (userList uadb))"
  have "fscan_d (show_d (userListSize uadb) @ LF # ?f) = (Some (userListSize uadb), ?f)"
    using fscan_d_show [of "userListSize uadb" ?f] lines_not_blank [OF assms(1), of "[]"] assms(2) by simp
  moreover have "scan_users (snd memory) (userListSize uadb) (userListSize uadb + 100) ?f = Inr (userList uadb)"
    using scan_users_lines [OF assms(1), of "userListSize uadb + 100" "[]" "snd memory" 0] by simp
  ultimately show ?thesis using assms(2)
    by (simp add: uadb_initializeUserAccountDatabase_def uadb_saveUserAccountDatabase_def Let_def)
qed

text \<open>
  C12: An account that was made with a name the server considers valid survives a restart: the file that was
  written is read back as the same list of users, and the user signs in again.
\<close>

theorem signup_survives_restart:
  assumes "uadb_addUser ctx env uadb disk name pass = (uadb', disk', True)" and "uadbWeb_isValidUsername (Some name)"
    and "salt_bytes env = Some salt" and "length salt = PASSWORD_SALT_BYTES"
    and "\<forall>seed. seed_bytes env = Some seed \<longrightarrow> length seed = 15" and "file_opens env"
    and "list_all user_ok (userList uadb)" and "userListSize uadb + 101 < 2 ^ 31" and "length (ctx_data ctx) = 64"
  shows "\<exists>uadb''. uadb_initializeUserAccountDatabase True True memory disk' = Inr (Some uadb'')
    \<and> userList uadb'' = userList uadb' \<and> list_all user_ok (userList uadb'')
    \<and> uadb_authenticateUser ctx (Some uadb'') name pass \<noteq> None"
proof -
  obtain v where v: "userList uadb' = userList uadb @ [v]" "username v = into_array 32 name"
    "password v = hashPassword ctx pass salt 128"
    "sessionID v = (case seed_bytes env of Some seed \<Rightarrow> hex_text seed 32
                    | None \<Rightarrow> uadb_getBackRandomFileDigitsInplace (rands env) 31)"
    "disk' = fst (uadb_saveUserAccountDatabase (file_opens env) uadb' disk)"
    using addUser_cases [OF assms(1,3)] .
  have name: "3 \<le> length name" "length name \<le> 31" "list_all (\<lambda>c. isalnum c \<or> c = CHR ''_'' \<or> c = CHR ''-'') name"
    using assms(2) by (auto simp: uadbWeb_isValidUsername_def)
  have "\<not> isspace c" if "isalnum c \<or> c = CHR ''_'' \<or> c = CHR ''-''" for c
    using that by (auto simp: isalnum_def is_digit_def isspace_def)
  then have "list_all (\<lambda>c. \<not> isspace c) name" using name(3) by (rule list.pred_mono_strong [rotated]) blast
  moreover have "name \<noteq> []" using name(1) by (cases name) simp_all
  ultimately have "field_ok 32 name" using name(2) by (simp add: field_ok_def)
  then have one: "field_ok 32 (username v)" using name(2) by (simp add: v(2) into_array_def)
  have salt: "length salt = 16" using assms(4) by (simp add: PASSWORD_SALT_BYTES_def)
  have "field_ok 128 (hex_bytes salt @ CHR '':'' # hex_bytes (stretched salt pass))"
    using hashPassword_text(2) [OF assms(9) salt, of 128 pass] salt hex_bytes_chars
    by (auto simp: field_ok_def hex_bytes_length list_all_iff isspace_def)
  then have two: "field_ok 128 (password v)" unfolding v(3) using hashPassword_text(1) [OF assms(9) salt, of 128 pass] by simp
  have three: "field_ok 32 (sessionID v)"
  proof (cases "seed_bytes env")
    case None
    have "\<not> isspace (char_of (97 + r mod 25))" for r :: nat by (simp add: isspace_def)
    then show ?thesis by (simp add: v(4) None field_ok_def uadb_getBackRandomFileDigitsInplace_def list_all_iff)
  next
    case (Some seed)
    then have "length seed = 15" using assms(5) by simp
    then show ?thesis using hex_bytes_chars hex_bytes_length [of seed]
      by (auto simp: v(4) Some hex_text_bytes field_ok_def list_all_iff)
  qed
  have all: "list_all user_ok (userList uadb')" using assms(7) one two three by (simp add: v(1) user_ok_def)
  have "userListSize uadb' + 100 < 2 ^ 31" using assms(8) by (simp add: v(1))
  then obtain db where db: "uadb_initializeUserAccountDatabase True True memory disk' = Inr (Some db)"
      "userList db = userList uadb'"
    using load_saved [OF all, of memory disk] assms(6) by (auto simp: v(5))
  have "authenticate_from ctx name pass 0 (userList uadb') \<noteq> None"
    using password_verified [OF assms(9,9,4), of pass pass] name(2)
    by (simp add: v(1) authenticate_from_append v(2,3) into_array_def split: option.split)
  then show ?thesis using db all by (auto simp: uadb_authenticateUser_def)
qed

abbreviation sample_env :: signup_env where
  "sample_env \<equiv> \<lparr>realloc_ok = True, salt_bytes = Some ''0123456789abcdef'', seed_bytes = Some ''0123456789abcde'',
     rands = [], file_opens = True\<rparr>"

theorem signup_survives_restart_witness:
  "\<exists>uadb' disk' uadb''. uadb_addUser fresh_context sample_env \<lparr>userList = [], userListMaxSize = 100\<rparr> None ''ammar'' ''secret''
      = (uadb', disk', True)
    \<and> uadb_initializeUserAccountDatabase True True (0, undefined) disk' = Inr (Some uadb'')
    \<and> userList uadb'' = userList uadb' \<and> uadb_authenticateUser fresh_context (Some uadb'') ''ammar'' ''secret'' \<noteq> None"
proof -
  obtain uadb' disk' where run: "uadb_addUser fresh_context sample_env \<lparr>userList = [], userListMaxSize = 100\<rparr> None
      ''ammar'' ''secret'' = (uadb', disk', True)"
    by (auto simp: uadb_addUser_def Let_def)
  have "uadbWeb_isValidUsername (Some ''ammar'')" by (simp add: uadbWeb_isValidUsername_def isalnum_def is_digit_def)
  then show ?thesis
    using signup_survives_restart [OF run, of "''0123456789abcdef''" "(0, undefined)"] run
    by (auto simp: PASSWORD_SALT_BYTES_def)
qed

text \<open>
  C13: A name with a blank in it, which the function that makes accounts does not refuse, makes the file
  unreadable: on the next start the hash of the password is read into the 32 characters of the session
  identifier and written past them.
\<close>

theorem blank_name_overflows:
  assumes "uadb_addUser ctx env uadb disk (a @ SPC # b) pass = (uadb', disk', True)" and "salt_bytes env = Some salt"
    and "length salt = PASSWORD_SALT_BYTES" and "file_opens env" and "length (a @ SPC # b) \<le> 31"
    and "field_ok 32 a" and "field_ok 32 b"
    and "list_all user_ok (userList uadb)" and "userListSize uadb + 101 < 2 ^ 31" and "length (ctx_data ctx) = 64"
  shows "uadb_initializeUserAccountDatabase True True memory disk' = Inl Out_of_bounds"
proof -
  obtain v where v: "userList uadb' = userList uadb @ [v]" "username v = into_array 32 (a @ SPC # b)"
    "password v = hashPassword ctx pass salt 128" "disk' = fst (uadb_saveUserAccountDatabase (file_opens env) uadb' disk)"
    using addUser_cases [OF assms(1,2)] .
  let ?n = "userListSize uadb" and ?us = "userList uadb"
  let ?h = "hex_bytes salt @ CHR '':'' # hex_bytes (stretched salt pass)"
  have salt: "length salt = 16" using assms(3) by (simp add: PASSWORD_SALT_BYTES_def)
  note hash = hashPassword_text [OF assms(10) salt, of 128 pass]
  have "length ?h = 97" using hash(2) salt by (simp add: hex_bytes_length)
  moreover have "list_all (\<lambda>c. \<not> isspace c) ?h" using hex_bytes_chars by (auto simp: list_all_iff isspace_def)
  ultimately have h: "field_ok 98 ?h" "\<not> length ?h < 32" by (auto simp: field_ok_def)
  have lines: "user_lines v = a @ SPC # b @ LF # ?h @ LF # sessionID v @ [LF]"
    using hash(1) assms(5) by (simp add: user_lines_def v(2,3) into_array_def)
  have stop: "dropWhile isspace (?h @ f) = ?h @ f" "dropWhile isspace (b @ f) = b @ f" "dropWhile isspace (a @ f) = a @ f" for f
    using word_not_blank [OF h(1)] word_not_blank [OF assms(7)] word_not_blank [OF assms(6)] by blast+
  have "field_ok 128 b" using assms(7) by (simp add: field_ok_def)
  then have wrong: "scan_user old (user_lines v) = Inl Out_of_bounds" for old
    using scan_field_word [OF assms(6) isspace_SPC] scan_field_word [OF _ isspace_LF, of 128 b]
      scan_field_long [OF h(1) isspace_LF h(2)]
    unfolding lines scan_user_def by (simp add: stop del: append_assoc)
  define N where "N = ?n + 1"
  let ?f = "concat (map user_lines ?us) @ user_lines v"
  have parts: "concat (map user_lines (userList uadb')) = ?f" "length (userList uadb') = N" by (simp_all add: v(1) N_def)
  have "scan_users old N (N + 100) ?f = Inl Out_of_bounds" for old
    using scan_users_lines [OF assms(8), of "N + 100" "user_lines v" old 1] wrong by (simp add: lines stop N_def)
  moreover have "fscan_d (show_d N @ LF # ?f) = (Some N, ?f)"
    using fscan_d_show [of N] assms(9) lines_not_blank [OF assms(8), of "user_lines v"] by (simp add: lines stop N_def)
  moreover have "(N + 100) mod 2 ^ 32 = N + 100" using assms(9) by (simp add: N_def)
  ultimately show ?thesis using assms(4)
    by (simp add: uadb_initializeUserAccountDatabase_def uadb_saveUserAccountDatabase_def v(4) parts Let_def)
qed

theorem blank_name_overflows_witness:
  "\<exists>uadb' disk'. uadb_addUser fresh_context sample_env \<lparr>userList = [], userListMaxSize = 100\<rparr> None ''mr ammar'' ''secret''
      = (uadb', disk', True)
    \<and> uadb_initializeUserAccountDatabase True True (0, undefined) disk' = Inl Out_of_bounds"
proof -
  obtain uadb' disk' where run: "uadb_addUser fresh_context sample_env \<lparr>userList = [], userListMaxSize = 100\<rparr> None
      (''mr'' @ SPC # ''ammar'') ''secret'' = (uadb', disk', True)"
    by (auto simp: uadb_addUser_def Let_def)
  then show ?thesis
    using blank_name_overflows [OF run, of "''0123456789abcdef''" "(0, undefined)"]
    by (auto simp: PASSWORD_SALT_BYTES_def field_ok_def isspace_def)
qed

end
