(* ===== verification/Sessions.thy ===== *)
theory Sessions
  imports Hashmap Tokens UserAccounts
begin

text \<open>
  Sessions of visitors: the table of \<open>src/AmmServerlib/cache/session_list.c\<close> (a string hash map from tokens
  to the addresses of entries, each with a hash map of its own), the functions of \<open>src/AmmServerlib/main.c\<close>
  a page uses (\<open>_SESSION\<close>, the tokens against forged requests, \<open>AmmServer_SetCookie\<close>), and signing in and out
  (\<open>src/UserAccounts/userAccountsWeb.c\<close>).  The two locks make every operation one step and are left out.
\<close>

section \<open>The table of sessions\<close>

definition SESSION_TOKEN_RANDOM_BYTES :: nat where "SESSION_TOKEN_RANDOM_BYTES = 32"

definition SESSION_TOKEN_STRING_SIZE :: nat where "SESSION_TOKEN_STRING_SIZE = 64"

definition SESSION_COOKIE_NAME :: string where "SESSION_COOKIE_NAME = ''AMMSESSID''"

definition SESSION_IDLE_TIMEOUT_SECONDS :: int where "SESSION_IDLE_TIMEOUT_SECONDS = 1800"

definition MAX_SESSIONS :: nat where "MAX_SESSIONS = 10000"

definition SESSION_VALUE_SCRATCH_SIZE :: nat where "SESSION_VALUE_SCRATCH_SIZE = 4096"

record sessionEntry =
  token :: string
  created :: int
  lastSeen :: int
  session_data :: hashMap

text \<open>The table, and the entries in memory by their address.\<close>

record sessionListContext =
  sessionTable :: hashMap
  entry_memory :: "u64 \<Rightarrow> sessionEntry option"

definition sessionList_initialize :: "bool \<Rightarrow> bool \<Rightarrow> bool \<Rightarrow> (u64 \<Rightarrow> sessionEntry option) \<Rightarrow> sessionListContext option checked" where
  "sessionList_initialize malloc_ok malloc_table grows memory =
     (if \<not> malloc_ok then Inr None
      else map_sum id (map_option (\<lambda>hm. \<lparr>sessionTable = hm, entry_memory = memory\<rparr>))
             (hashMap_Create malloc_table grows 64 64 True False))"

text \<open>What the table hands back is given to \<open>destroySessionEntryCallback\<close>.\<close>

definition destroySessionEntryCallback :: "release \<Rightarrow> (u64 \<Rightarrow> sessionEntry option) \<Rightarrow> u64 \<Rightarrow> sessionEntry option" where
  "destroySessionEntryCallback r memory =
     (case r of Clear_item p \<Rightarrow> if p = 0 then memory else memory(p := None) | _ \<Rightarrow> memory)"

definition sessionList_close :: "sessionListContext \<Rightarrow> u64 \<Rightarrow> sessionEntry option" where
  "sessionList_close c = fold destroySessionEntryCallback (hashMap_Destroy (sessionTable c)) (entry_memory c)"

definition sessionIsExpired :: "int \<Rightarrow> sessionEntry \<Rightarrow> bool" where
  "sessionIsExpired now e \<longleftrightarrow> now - lastSeen e > SESSION_IDLE_TIMEOUT_SECONDS"

definition remove_session :: "sessionListContext \<Rightarrow> string \<Rightarrow> (sessionListContext \<times> bool) checked" where
  "remove_session c t =
     map_sum id (\<lambda>(hm, rel, ok). (c\<lparr>sessionTable := hm, entry_memory := fold destroySessionEntryCallback rel (entry_memory c)\<rparr>, ok))
       (hashMap_RemoveKey (sessionTable c) (Some t))"

text \<open>The loop over the entries: the time and the key of the oldest one so far.\<close>

definition older :: "sessionListContext \<Rightarrow> (int \<times> string) option checked \<Rightarrow> nat \<Rightarrow> (int \<times> string) option checked" where
  "older c best i =
     (case best of
        Inl f \<Rightarrow> Inl f
      | Inr best \<Rightarrow>
          (let p = fst (hashMap_GetPayloadAtIndex (sessionTable c) i 0)
           in if p = 0 then Inr best
              else (case entry_memory c p of
                      None \<Rightarrow> Inl Out_of_bounds
                    | Some e \<Rightarrow>
                        if (case best of None \<Rightarrow> True | Some (oldest, _) \<Rightarrow> lastSeen e < oldest)
                        then Inr (Some (lastSeen e,
                               (case hashMap_GetKeyAtIndex (sessionTable c) i of
                                  Some k \<Rightarrow> into_array SESSION_TOKEN_STRING_SIZE k
                                | None \<Rightarrow> (case best of None \<Rightarrow> [] | Some (_, k) \<Rightarrow> k))))
                        else Inr best)))"

definition evictOldestSessionIfAtCapacity :: "sessionListContext \<Rightarrow> sessionListContext checked" where
  "evictOldestSessionIfAtCapacity c =
     (let n = hashMap_GetCurrentNumberOfEntries (sessionTable c)
      in if n < MAX_SESSIONS then Inr c
         else (case foldl (older c) (Inr None) [0..<n] of
                 Inl f \<Rightarrow> Inl f
               | Inr None \<Rightarrow> Inr c
               | Inr (Some (_, oldestKey)) \<Rightarrow> map_sum id fst (remove_session c oldestKey)))"

text \<open>
  What the system does while a session is made: the clock, the address of the new entry (0 when there is no
  memory), the random bytes of every draw, and whether the maps could be allocated and grown.
\<close>

record session_env =
  clock :: int
  new_entry :: u64
  draws :: "string option list"
  data_malloc :: bool
  data_realloc :: bool
  table_grows :: bool
  key_malloc :: bool

text \<open>At most five draws, until a token is not in the table.\<close>

fun draw_token :: "hashMap \<Rightarrow> nat \<Rightarrow> string option list \<Rightarrow> (hashMap \<times> string option) checked" where
  "draw_token hm tries [] = Inr (hm, None)"
| "draw_token hm tries (raw # raws) =
     (case AmmServer_GenerateSecureToken raw SESSION_TOKEN_STRING_SIZE SESSION_TOKEN_RANDOM_BYTES True of
        None \<Rightarrow> Inr (hm, None)
      | Some t \<Rightarrow>
          (case hashMap_ContainsKey hm (Some t) of
             Inl f \<Rightarrow> Inl f
           | Inr (hm, there) \<Rightarrow> if there \<and> tries + 1 < 5 then draw_token hm (tries + 1) raws else Inr (hm, Some t)))"

definition createSessionLocked :: "session_env \<Rightarrow> sessionListContext \<Rightarrow> (sessionListContext \<times> string option) checked" where
  "createSessionLocked env c =
     (case evictOldestSessionIfAtCapacity c of
        Inl f \<Rightarrow> Inl f
      | Inr c \<Rightarrow>
          if new_entry env = 0 then Inr (c, None)
          else (case draw_token (sessionTable c) 0 (draws env) of
                  Inl f \<Rightarrow> Inl f
                | Inr (hm, None) \<Rightarrow> Inr (c\<lparr>sessionTable := hm\<rparr>, None)
                | Inr (hm, Some t) \<Rightarrow>
                    (case hashMap_Create (data_malloc env) (data_realloc env) 8 8 False False of
                       Inl f \<Rightarrow> Inl f
                     | Inr None \<Rightarrow> Inr (c\<lparr>sessionTable := hm\<rparr>, None)
                     | Inr (Some d) \<Rightarrow>
                         (case hashMap_AddULong (table_grows env) (key_malloc env) hm (Some t) (new_entry env) of
                            Inl f \<Rightarrow> Inl f
                          | Inr (hm, False) \<Rightarrow> Inr (c\<lparr>sessionTable := hm\<rparr>, None)
                          | Inr (hm, True) \<Rightarrow>
                              Inr (c\<lparr>sessionTable := hm,
                                     entry_memory := (entry_memory c)(new_entry env \<mapsto>
                                       \<lparr>token = t, created = clock env, lastSeen = clock env, session_data = d\<rparr>)\<rparr>,
                                   Some t)))))"

text \<open>The address of the entry of a token, when there is one that has not expired.\<close>

definition findSessionLocked :: "int \<Rightarrow> sessionListContext \<Rightarrow> string option \<Rightarrow> (sessionListContext \<times> u64 option) checked" where
  "findSessionLocked now c t =
     (case t of
        None \<Rightarrow> Inr (c, None)
      | Some t \<Rightarrow>
          if t = [] then Inr (c, None)
          else (case hashMap_FindIndexSerial (sessionTable c) (Some t) 0 of
                  Inl f \<Rightarrow> Inl f
                | Inr (hm, i, False) \<Rightarrow> Inr (c\<lparr>sessionTable := hm\<rparr>, None)
                | Inr (hm, i, True) \<Rightarrow>
                    (let c = c\<lparr>sessionTable := hm\<rparr>; p = fst (hashMap_GetPayloadAtIndex hm i 0)
                     in if p = 0 then Inr (c, None)
                        else (case entry_memory c p of
                                None \<Rightarrow> Inl Out_of_bounds
                              | Some e \<Rightarrow>
                                  if sessionIsExpired now e
                                  then map_sum id (\<lambda>(c, ok). (c, None)) (remove_session c t)
                                  else Inr (c, Some p)))))"

text \<open>The answer is the token that was written and whether the session is new.\<close>

definition getSessionFromHeader ::
    "session_env \<Rightarrow> sessionListContext \<Rightarrow> string option \<Rightarrow> nat \<Rightarrow> (sessionListContext \<times> (string \<times> bool) option) checked" where
  "getSessionFromHeader env c cookieValue outSize =
     (case findSessionLocked (clock env) c cookieValue of
        Inl f \<Rightarrow> Inl f
      | Inr (c, Some p) \<Rightarrow>
          (case entry_memory c p of
             None \<Rightarrow> Inl Out_of_bounds
           | Some e \<Rightarrow> Inr (c\<lparr>entry_memory := (entry_memory c)(p \<mapsto> e\<lparr>lastSeen := clock env\<rparr>)\<rparr>,
                            Some (into_array outSize (token e), False)))
      | Inr (c, None) \<Rightarrow>
          (case createSessionLocked env c of
             Inl f \<Rightarrow> Inl f
           | Inr (c, None) \<Rightarrow> Inr (c, None)
           | Inr (c, Some t) \<Rightarrow> Inr (c, Some (into_array outSize t, True))))"

definition sessionList_Destroy :: "sessionListContext \<Rightarrow> string option \<Rightarrow> (sessionListContext \<times> bool) checked" where
  "sessionList_Destroy c t = (case t of None \<Rightarrow> Inr (c, False) | Some t \<Rightarrow> remove_session c t)"

section \<open>Values of a session\<close>

text \<open>An operation on the data of the session of a token.\<close>

definition with_session ::
    "int \<Rightarrow> sessionListContext \<Rightarrow> string option \<Rightarrow> 'a \<Rightarrow> (hashMap \<Rightarrow> (hashMap \<times> 'a) checked) \<Rightarrow> (sessionListContext \<times> 'a) checked" where
  "with_session now c t none f =
     (case findSessionLocked now c t of
        Inl e \<Rightarrow> Inl e
      | Inr (c, None) \<Rightarrow> Inr (c, none)
      | Inr (c, Some p) \<Rightarrow>
          (case entry_memory c p of
             None \<Rightarrow> Inl Out_of_bounds
           | Some e \<Rightarrow> map_sum id (\<lambda>(d, r). (c\<lparr>entry_memory := (entry_memory c)(p \<mapsto> e\<lparr>session_data := d\<rparr>)\<rparr>, r))
                          (f (session_data e))))"

definition get_value :: "string \<Rightarrow> hashMap \<Rightarrow> (hashMap \<times> string option) checked" where
  "get_value name d =
     (case hashMap_FindIndexSerial d (Some name) 0 of
        Inl f \<Rightarrow> Inl f
      | Inr (d, i, False) \<Rightarrow> Inr (d, None)
      | Inr (d, i, True) \<Rightarrow>
          (case hashMap_GetPayloadAtIndex d i 0 of
             (stored, len) \<Rightarrow>
               if stored = 0 then Inr (d, None)
               else (let copyLength = (if len > 0 then len - 1 else 0);
                         copyLength = (if copyLength \<ge> SESSION_VALUE_SCRATCH_SIZE then SESSION_VALUE_SCRATCH_SIZE - 1 else copyLength)
                     in Inr (d, Some (take copyLength (payloadBytes (entries d ! i)))))))"

definition sessiontList_GetInfo ::
    "int \<Rightarrow> sessionListContext \<Rightarrow> string option \<Rightarrow> string option \<Rightarrow> (sessionListContext \<times> string option) checked" where
  "sessiontList_GetInfo now c t name =
     (case (t, name) of
        (Some t, Some name) \<Rightarrow> with_session now c (Some t) None (get_value name)
      | _ \<Rightarrow> Inr (c, None))"

text \<open>\<open>ptr\<close> is the address of the copy of the value; \<open>grows\<close> and \<open>key_ok\<close> as for \<open>hashMap_Add\<close>.\<close>

definition put_value :: "bool \<Rightarrow> bool \<Rightarrow> u64 \<Rightarrow> string \<Rightarrow> string \<Rightarrow> hashMap \<Rightarrow> (hashMap \<times> bool) checked" where
  "put_value grows key_ok ptr name v d =
     (case hashMap_ContainsKey d (Some name) of
        Inl f \<Rightarrow> Inl f
      | Inr (d, there) \<Rightarrow>
          (case (if there then map_sum id fst (hashMap_RemoveKey d (Some name)) else Inr d) of
             Inl f \<Rightarrow> Inl f
           | Inr d \<Rightarrow> hashMap_Add grows key_ok ptr (\<lambda>_ _. v @ [NUL]) d (Some name) 0 (length v + 1)))"

definition sessiontList_StoreInfo ::
    "bool \<Rightarrow> bool \<Rightarrow> u64 \<Rightarrow> int \<Rightarrow> sessionListContext \<Rightarrow> string option \<Rightarrow> string option \<Rightarrow> string option \<Rightarrow> (sessionListContext \<times> bool) checked" where
  "sessiontList_StoreInfo grows key_ok ptr now c t name v =
     (case (t, name, v) of
        (Some t, Some name, Some v) \<Rightarrow> with_session now c (Some t) False (put_value grows key_ok ptr name v)
      | _ \<Rightarrow> Inr (c, False))"

definition sessiontList_UnsetInfo ::
    "int \<Rightarrow> sessionListContext \<Rightarrow> string option \<Rightarrow> string option \<Rightarrow> (sessionListContext \<times> bool) checked" where
  "sessiontList_UnsetInfo now c t name =
     (case (t, name) of
        (Some t, Some name) \<Rightarrow>
          with_session now c (Some t) False (\<lambda>d. map_sum id (\<lambda>(d, rel, ok). (d, ok)) (hashMap_RemoveKey d (Some name)))
      | _ \<Rightarrow> Inr (c, False))"

section \<open>Pages: session values, forged requests, cookies\<close>

text \<open>The fields of a dynamic request that are used here; the instance is the table of sessions.\<close>

record dynamic_request =
  sessionToken :: string
  pendingResponseHeaders :: string

definition SESSION_value :: "int \<Rightarrow> sessionListContext \<Rightarrow> dynamic_request \<Rightarrow> string \<Rightarrow> (sessionListContext \<times> string option) checked" where
  "SESSION_value now c rqst name = sessiontList_GetInfo now c (Some (sessionToken rqst)) (Some name)"

definition SESSIONcpy ::
    "int \<Rightarrow> sessionListContext \<Rightarrow> dynamic_request \<Rightarrow> string \<Rightarrow> nat \<Rightarrow> (sessionListContext \<times> string option) checked" where
  "SESSIONcpy now c rqst name destinationSize =
     map_sum id (\<lambda>(c, v). (c, (case v of None \<Rightarrow> None | Some v \<Rightarrow> if length v + 1 > destinationSize then None else Some v)))
       (SESSION_value now c rqst name)"

definition SESSIONexists :: "int \<Rightarrow> sessionListContext \<Rightarrow> dynamic_request \<Rightarrow> string \<Rightarrow> (sessionListContext \<times> bool) checked" where
  "SESSIONexists now c rqst name = map_sum id (\<lambda>(c, v). (c, v \<noteq> None)) (SESSION_value now c rqst name)"

definition SESSIONset ::
    "bool \<Rightarrow> bool \<Rightarrow> u64 \<Rightarrow> int \<Rightarrow> sessionListContext \<Rightarrow> dynamic_request \<Rightarrow> string \<Rightarrow> string \<Rightarrow> (sessionListContext \<times> bool) checked" where
  "SESSIONset grows key_ok ptr now c rqst name v =
     sessiontList_StoreInfo grows key_ok ptr now c (Some (sessionToken rqst)) (Some name) (Some v)"

definition SESSIONunset :: "int \<Rightarrow> sessionListContext \<Rightarrow> dynamic_request \<Rightarrow> string \<Rightarrow> (sessionListContext \<times> bool) checked" where
  "SESSIONunset now c rqst name = sessiontList_UnsetInfo now c (Some (sessionToken rqst)) (Some name)"

definition CSRF_SESSION_KEY :: string where "CSRF_SESSION_KEY = ''_ammserver_csrf''"

definition CSRF_TOKEN_RANDOM_BYTES :: nat where "CSRF_TOKEN_RANDOM_BYTES = 24"

definition AmmServer_GenerateCSRFToken ::
    "bool \<Rightarrow> bool \<Rightarrow> u64 \<Rightarrow> string option \<Rightarrow> int \<Rightarrow> sessionListContext \<Rightarrow> dynamic_request \<Rightarrow> nat \<Rightarrow> (sessionListContext \<times> string option) checked" where
  "AmmServer_GenerateCSRFToken grows key_ok ptr raw now c rqst outTokenSize =
     (case SESSIONcpy now c rqst CSRF_SESSION_KEY outTokenSize of
        Inl f \<Rightarrow> Inl f
      | Inr (c, Some t) \<Rightarrow> Inr (c, Some t)
      | Inr (c, None) \<Rightarrow>
          (case AmmServer_GenerateSecureToken raw 64 CSRF_TOKEN_RANDOM_BYTES True of
             None \<Rightarrow> Inr (c, None)
           | Some t \<Rightarrow>
               map_sum id (\<lambda>(c, ok). (c, if ok then Some (into_array outTokenSize t) else None))
                 (SESSIONset grows key_ok ptr now c rqst CSRF_SESSION_KEY t)))"

definition AmmServer_ValidateCSRFToken ::
    "int \<Rightarrow> sessionListContext \<Rightarrow> dynamic_request \<Rightarrow> string option \<Rightarrow> (sessionListContext \<times> bool) checked" where
  "AmmServer_ValidateCSRFToken now c rqst submittedToken =
     (case submittedToken of
        None \<Rightarrow> Inr (c, False)
      | Some t \<Rightarrow>
          if t = [] then Inr (c, False)
          else map_sum id (\<lambda>(c, expected). (c, expected = Some t)) (SESSIONcpy now c rqst CSRF_SESSION_KEY 64))"

text \<open>\<open>strncat(s, t, sizeof(s)-strlen(s)-1)\<close> for an array of \<open>n\<close> characters, and \<open>"%d"\<close>.\<close>

definition append_into :: "nat \<Rightarrow> string \<Rightarrow> string \<Rightarrow> string" where
  "append_into n s t = s @ take (n - length s - 1) t"

definition set_cookie_line :: "bool \<Rightarrow> string \<Rightarrow> string \<Rightarrow> int \<Rightarrow> bool \<Rightarrow> string" where
  "set_cookie_line ssl name v maxAgeSeconds httpOnly =
     (let line = ''Set-Cookie: '' @ name @ ''='' @ v @ ''; Path=/;'';
          line = (if maxAgeSeconds < 0 then append_into 256 line '' Max-Age=0;''
                  else if maxAgeSeconds > 0
                  then append_into 256 line (into_array 48 ('' Max-Age='' @ show_u (nat maxAgeSeconds) @ '';''))
                  else line);
          line = (if httpOnly then append_into 256 line '' HttpOnly;'' else line);
          line = (if ssl then append_into 256 line '' Secure;'' else line)
      in append_into 256 line ('' SameSite=Lax'' @ [LF]))"

definition AmmServer_SetCookie ::
    "bool \<Rightarrow> dynamic_request \<Rightarrow> string \<Rightarrow> string \<Rightarrow> int \<Rightarrow> bool \<Rightarrow> dynamic_request \<times> bool" where
  "AmmServer_SetCookie ssl rqst name v maxAgeSeconds httpOnly =
     (if length (''Set-Cookie: '' @ name @ ''='' @ v @ ''; Path=/;'') \<ge> 256 then (rqst, False)
      else
        (let newLine = set_cookie_line ssl name v maxAgeSeconds httpOnly
         in if length (pendingResponseHeaders rqst) + length newLine + 1 > 512 then (rqst, False)
            else (rqst\<lparr>pendingResponseHeaders := pendingResponseHeaders rqst @ newLine\<rparr>, True)))"

section \<open>Signing in and out\<close>

text \<open>
  For each of the two values of the new session: whether its map grows, whether there is memory for the key, and
  the address of the copy of the value.
\<close>

definition AmmServer_Login ::
    "bool \<Rightarrow> sha256_context \<Rightarrow> session_env \<Rightarrow> bool \<times> bool \<times> u64 \<Rightarrow> bool \<times> bool \<times> u64 \<Rightarrow> sessionListContext \<Rightarrow> UserAccountDatabase
      \<Rightarrow> dynamic_request \<Rightarrow> string \<Rightarrow> string \<Rightarrow> (sessionListContext \<times> dynamic_request \<times> bool) checked" where
  "AmmServer_Login ssl ctx env m1 m2 c uadb rqst name pass =
     (case uadb_authenticateUser ctx (Some uadb) name pass of
        None \<Rightarrow> Inr (c, rqst, False)
      | Some tok \<Rightarrow>
          (case (if sessionToken rqst \<noteq> [] then map_sum id fst (sessionList_Destroy c (Some (sessionToken rqst))) else Inr c) of
             Inl f \<Rightarrow> Inl f
           | Inr c \<Rightarrow>
               (case getSessionFromHeader env c None SESSION_TOKEN_STRING_SIZE of
                  Inl f \<Rightarrow> Inl f
                | Inr (c, None) \<Rightarrow> Inr (c, rqst, False)
                | Inr (c, Some (t, isNew)) \<Rightarrow>
                    (let rqst = fst (AmmServer_SetCookie ssl (rqst\<lparr>sessionToken := t\<rparr>) SESSION_COOKIE_NAME t 0 True)
                     in case SESSIONset (fst m1) (fst (snd m1)) (snd (snd m1)) (clock env) c rqst ''username'' name of
                          Inl f \<Rightarrow> Inl f
                        | Inr (c, _) \<Rightarrow>
                            map_sum id (\<lambda>(c, _). (c, rqst, True))
                              (SESSIONset (fst m2) (fst (snd m2)) (snd (snd m2)) (clock env) c rqst ''uid''
                                 (into_array 16 (show_u (uid tok))))))))"

definition AmmServer_Logout ::
    "bool \<Rightarrow> sessionListContext \<Rightarrow> dynamic_request \<Rightarrow> (sessionListContext \<times> dynamic_request \<times> bool) checked" where
  "AmmServer_Logout ssl c rqst =
     (if sessionToken rqst = [] then Inr (c, rqst, False)
      else map_sum id (\<lambda>(c, _). (c, (fst (AmmServer_SetCookie ssl rqst SESSION_COOKIE_NAME [] (-1) True))\<lparr>sessionToken := []\<rparr>, True))
             (sessionList_Destroy c (Some (sessionToken rqst))))"

definition AmmServer_CurrentUsername ::
    "int \<Rightarrow> sessionListContext \<Rightarrow> dynamic_request \<Rightarrow> nat \<Rightarrow> (sessionListContext \<times> string option) checked" where
  "AmmServer_CurrentUsername now c rqst outUsernameSize = SESSIONcpy now c rqst ''username'' outUsernameSize"

section \<open>What the maps hand back\<close>

text \<open>Everything an entry stores, by key; the view of the map is its first part.\<close>

definition stored :: "hashMapEntry \<Rightarrow> u64 \<times> nat \<times> string" where
  "stored e = (payload e, payloadLength e, payloadBytes e)"

definition hm_stored :: "hashMap \<Rightarrow> string \<Rightarrow> (u64 \<times> nat \<times> string) option" where
  "hm_stored hm s = map_of (map (\<lambda>e. (key e, stored e)) (live hm)) (Some s)"

lemma hm_view_stored: "hm_view hm s = map_option fst (hm_stored hm s)"
proof -
  have "map_of (map (\<lambda>e. (key e, payload e)) es) k = map_option fst (map_of (map (\<lambda>e. (key e, stored e)) es) k)" for es k
    by (induction es) (simp_all add: stored_def)
  then show ?thesis by (simp add: hm_view_def hm_stored_def)
qed

lemma hm_stored_hit [simp]: "hm_stored (hit i hm) = hm_stored hm"
  unfolding hm_stored_def by (subst map_hit) (simp_all add: stored_def)

lemma hm_stored_Some:
  assumes "hm_inv hm" and "i < curNumberOfEntries hm" and "key (entries hm ! i) = Some s"
  shows "hm_stored hm s = Some (stored (entries hm ! i))"
proof -
  let ?l = "map (\<lambda>e. (key e, stored e)) (live hm)"
  have "distinct (map fst ?l)" using hm_invD(4) [OF assms(1)] by (simp add: comp_def)
  moreover have "(Some s, stored (entries hm ! i)) \<in> set ?l"
    using live_at [OF assms(1,2)] assms(3) by force
  ultimately show ?thesis by (simp add: hm_stored_def)
qed

text \<open>A search: an entry with everything it stores, or nothing.\<close>

lemma FindIndexSerial_stored:
  assumes "hm_inv hm"
  shows "(hm_stored hm s = None \<and> hashMap_FindIndexSerial hm (Some s) idx = Inr (hm, idx, False))
    \<or> (\<exists>j<curNumberOfEntries hm. key (entries hm ! j) = Some s \<and> hm_stored hm s = Some (stored (entries hm ! j))
         \<and> hashMap_FindIndexSerial hm (Some s) idx = Inr (hit j hm, j, True))"
proof (cases "hm_view hm s")
  case None
  then have "hm_stored hm s = None" by (simp add: hm_view_stored)
  then show ?thesis using find_serial_missing [OF assms None]
    by (simp add: hashMap_FindIndexSerial_def hashMap_FindIndexSerialWithPrecomputedHash_def)
next
  case (Some v)
  then obtain j where j: "j < curNumberOfEntries hm" "key (entries hm ! j) = Some s" by (rule hm_view_index [OF assms])
  have "hashMap_FindIndexSerial hm (Some s) idx = Inr (hit j hm, j, True)"
    using find_serial_found [OF assms le0 j]
    by (simp add: hashMap_FindIndexSerial_def hashMap_FindIndexSerialWithPrecomputedHash_def)
  then show ?thesis using j hm_stored_Some [OF assms j] by blast
qed

lemma hm_stored_removed:
  assumes "hm_inv hm" and "mset (live hm) = add_mset e (mset (live hm'))" and "key e = Some s"
  shows "hm_stored hm' = (hm_stored hm)(s := None)"
proof
  fix t
  let ?f = "\<lambda>e. (key e, stored e)"
  have m': "mset (live hm) = mset (e # live hm')" using assms(2) by simp
  then have m: "mset (map ?f (live hm)) = mset (map ?f (e # live hm'))" by (metis mset_map)
  have d: "distinct (map fst (map ?f (live hm)))" using hm_invD(4) [OF assms(1)] by (simp add: comp_def)
  have "distinct (map key (e # live hm'))"
    using distinct_map_mset [OF m', of key] hm_invD(4) [OF assms(1)] by (simp del: mset.simps)
  then have "Some s \<notin> fst ` set (map ?f (live hm'))" using assms(3) by (simp add: image_image)
  then have "map_of (map ?f (live hm')) (Some s) = None" by (simp only: map_of_eq_None_iff not_False_eq_True)
  moreover have "map_of (map ?f (live hm)) = map_of (map ?f (e # live hm'))" by (rule map_of_perm [OF d m])
  ultimately show "hm_stored hm' t = ((hm_stored hm)(s := None)) t" using assms(3) by (simp add: hm_stored_def)
qed

text \<open>The parts of a map that no operation changes.\<close>

definition same_kind :: "hashMap \<Rightarrow> hashMap \<Rightarrow> bool" where
  "same_kind hm hm' \<longleftrightarrow>
     clearItemCallback hm' = clearItemCallback hm \<and> useSorting hm' = useSorting hm
     \<and> entryAllocationStep hm' = entryAllocationStep hm"

lemma same_kind_refl [simp]: "same_kind hm hm" "same_kind hm (hit i hm)"
  by (simp_all add: same_kind_def)

lemma same_kind_trans: "same_kind a b \<Longrightarrow> same_kind b c \<Longrightarrow> same_kind a c"
  by (simp add: same_kind_def)

lemma RemoveKey_stored:
  assumes "hm_inv hm"
  shows "\<exists>hm' rel. hashMap_RemoveKey hm (Some s) = Inr (hm', rel, hm_stored hm s \<noteq> None) \<and> hm_inv hm' \<and> same_kind hm hm'
    \<and> hm_stored hm' = (hm_stored hm)(s := None) \<and> maxNumberOfEntries hm' = maxNumberOfEntries hm
    \<and> curNumberOfEntries hm' = (if hm_stored hm s = None then curNumberOfEntries hm else curNumberOfEntries hm - 1)
    \<and> (clearItemCallback hm \<longrightarrow> rel = (case hm_stored hm s of None \<Rightarrow> [] | Some v \<Rightarrow> [Clear_item (fst v), Free_key s]))"
  using FindIndexSerial_stored [OF assms, of s 0]
proof (elim disjE exE conjE)
  assume none: "hm_stored hm s = None" and find: "hashMap_FindIndexSerial hm (Some s) 0 = Inr (hm, 0, False)"
  have "(hm_stored hm)(s := None) = hm_stored hm" using none by auto
  then show ?thesis using none find assms hm_invD(1) [OF assms] by (simp add: hashMap_RemoveKey_def)
next
  fix i
  assume i: "i < curNumberOfEntries hm" "key (entries hm ! i) = Some s"
    and st: "hm_stored hm s = Some (stored (entries hm ! i))"
    and find: "hashMap_FindIndexSerial hm (Some s) 0 = Inr (hit i hm, i, True)"
  let ?h = "hit i hm"
  have inv: "hm_inv ?h" using assms by (rule hm_inv_hit)
  define es where "es = (if i \<noteq> curNumberOfEntries ?h - 1
     then (entries ?h)[i := entries ?h ! (curNumberOfEntries ?h - 1)] else entries ?h)"
  define hm' where "hm' = ?h\<lparr>entries := es[curNumberOfEntries ?h - 1 := zero_entry],
     curNumberOfEntries := curNumberOfEntries ?h - 1, isSorted := False\<rparr>"
  have m: "mset (live ?h) = add_mset (entries ?h ! i) (mset (live hm'))"
    using i by (intro live_remove [OF inv _ es_def hm'_def]) simp
  have at: "i < maxNumberOfEntries hm" using i hm_invD(2) [OF assms] by simp
  have k: "key (entries ?h ! i) = Some s" using i at by simp
  have "hashMap_RemoveKey hm (Some s) = Inr (hm', released (clearItemCallback ?h) (entries ?h ! i), True)"
    using find hm_invD(1) [OF assms] by (simp add: hashMap_RemoveKey_def Let_def hm'_def es_def)
  moreover have "hm_inv hm'"
    using i hm_invD(2) [OF assms] by (intro hm_inv_removed [OF inv m]) (auto simp: hm'_def es_def hit_def)
  moreover have "hm_stored hm' = (hm_stored hm)(s := None)" using hm_stored_removed [OF inv m k] by simp
  moreover have "maxNumberOfEntries hm' = maxNumberOfEntries hm" "same_kind hm hm'"
      "curNumberOfEntries hm' = curNumberOfEntries hm - 1"
    by (simp_all add: hm'_def es_def same_kind_def)
  ultimately show ?thesis using st i k at by (simp add: released_def stored_def)
qed

lemma hm_stored_append:
  assumes "live hm' = live hm @ [e]" and "hm_stored hm s = None" and "key e = Some s"
  shows "hm_stored hm' = (hm_stored hm)(s \<mapsto> stored e)"
proof
  fix t
  show "hm_stored hm' t = ((hm_stored hm)(s \<mapsto> stored e)) t"
    using assms by (auto simp: hm_stored_def map_add_def split: option.splits)
qed

lemma Add_stored:
  assumes "hm_inv hm" and "has_room hm" and "hm_stored hm s = None" and "L = 0 \<or> ptr \<noteq> 0"
  shows "\<exists>hm' old. hashMap_Add True True ptr mem hm (Some s) v L = Inr (hm', True) \<and> hm_inv hm' \<and> same_kind hm hm'
    \<and> hm_stored hm' = (hm_stored hm)(s \<mapsto> (if L = 0 then (v, 0, old) else (ptr, L, mem v L)))
    \<and> curNumberOfEntries hm' = curNumberOfEntries hm + 1
    \<and> maxNumberOfEntries hm' = (if curNumberOfEntries hm < maxNumberOfEntries hm then maxNumberOfEntries hm
                                else maxNumberOfEntries hm + entryAllocationStep hm)"
proof -
  let ?n = "curNumberOfEntries hm"
  define es where "es = (if ?n < maxNumberOfEntries hm then entries hm
                         else entries hm @ replicate (entryAllocationStep hm) zero_entry)"
  define e0 where "e0 = (es ! ?n)\<lparr>index := ?n, key := Some s, keyLength := length s, keyHash := hashFunction (Some s)\<rparr>"
  define e where "e = (if L = 0 then e0\<lparr>payload := v, payloadLength := 0\<rparr>
                       else e0\<lparr>payload := ptr, payloadBytes := mem v L, payloadLength := L\<rparr>)"
  define hm' where "hm' = hm\<lparr>curNumberOfEntries := ?n + 1, entries := es[?n := e], isSorted := False\<rparr>"
  have room: "?n < length es" and le: "?n \<le> maxNumberOfEntries hm"
    using assms(2) hm_invD(2) [OF assms(1)] by (auto simp: es_def has_room_def)
  have live: "live hm' = live hm @ [e]"
    using room le by (simp add: hm'_def take_Suc_conv_app_nth) (auto simp: es_def)
  have new: "key e = Some s" "entry_ok e" by (simp_all add: e_def e0_def entry_ok_def)
  have none: "hm_view hm s = None" using assms(3) by (simp add: hm_view_stored)
  have "hashMap_Add True True ptr mem hm (Some s) v L = Inr (hm', True)"
    using assms(2,4) hm_invD(1) [OF assms(1)] le room
    by (cases "?n < maxNumberOfEntries hm"; cases "L = 0")
      (simp_all add: hashMap_Add_def hashMap_Grow_def Let_def hm'_def e_def e0_def es_def has_room_def)
  moreover have "hm_inv hm'"
    using room by (intro hm_inv_append [OF assms(1) live new(2,1) none]) (auto simp: hm'_def)
  moreover have "hm_stored hm' = (hm_stored hm)(s \<mapsto> (if L = 0 then (v, 0, payloadBytes e0) else (ptr, L, mem v L)))"
    using hm_stored_append [OF live assms(3) new(1)] by (simp add: e_def stored_def)
  ultimately show ?thesis by (auto simp: hm'_def es_def same_kind_def)
qed

section \<open>What the table stands for\<close>

text \<open>The session of a token, and what every operation keeps true of the table and the memory.\<close>

definition session_of :: "sessionListContext \<Rightarrow> string \<Rightarrow> sessionEntry option" where
  "session_of c t = (case hm_view (sessionTable c) t of None \<Rightarrow> None | Some p \<Rightarrow> entry_memory c p)"

definition data_ok :: "hashMap \<Rightarrow> bool" where
  "data_ok d \<longleftrightarrow> hm_inv d \<and> \<not> useSorting d"

definition table_ok :: "hashMap \<Rightarrow> bool" where
  "table_ok hm \<longleftrightarrow>
     hm_inv hm \<and> clearItemCallback hm \<and> \<not> useSorting hm \<and> entryAllocationStep hm = 64
     \<and> curNumberOfEntries hm \<le> MAX_SESSIONS \<and> maxNumberOfEntries hm \<le> MAX_SESSIONS + 64"

definition entry_at :: "sessionListContext \<Rightarrow> string \<Rightarrow> u64 \<Rightarrow> bool" where
  "entry_at c t p \<longleftrightarrow>
     p \<noteq> 0 \<and> t \<noteq> [] \<and> length t < SESSION_TOKEN_STRING_SIZE
     \<and> (\<exists>e. entry_memory c p = Some e \<and> token e = t \<and> data_ok (session_data e))"

definition sessions_ok :: "sessionListContext \<Rightarrow> bool" where
  "sessions_ok c \<longleftrightarrow>
     table_ok (sessionTable c) \<and> (\<forall>t p. hm_view (sessionTable c) t = Some p \<longrightarrow> entry_at c t p)"

lemma sessions_okD:
  assumes "sessions_ok c"
  shows "hm_inv (sessionTable c)" and "table_ok (sessionTable c)"
    and "hm_view (sessionTable c) t = Some p \<Longrightarrow> entry_at c t p"
    and "hm_view (sessionTable c) t = Some p \<Longrightarrow> hm_view (sessionTable c) t' = Some p \<Longrightarrow> t = t'"
proof -
  show entry: "entry_at c t p" if "hm_view (sessionTable c) t = Some p" for t p using assms that by (auto simp: sessions_ok_def)
  show "hm_view (sessionTable c) t = Some p \<Longrightarrow> hm_view (sessionTable c) t' = Some p \<Longrightarrow> t = t'"
    using entry [of t p] entry [of t' p] by (auto simp: entry_at_def)
qed (use assms in \<open>simp_all add: sessions_ok_def table_ok_def\<close>)

lemma session_of_Some:
  assumes "sessions_ok c" and "session_of c t = Some e"
  obtains p where "hm_view (sessionTable c) t = Some p" and "entry_memory c p = Some e" and "entry_at c t p"
  using assms sessions_okD(3) [OF assms(1)] by (auto simp: session_of_def split: option.splits)

lemma session_of_token:
  "sessions_ok c \<Longrightarrow> session_of c t = Some e \<Longrightarrow> token e = t \<and> t \<noteq> [] \<and> length t < SESSION_TOKEN_STRING_SIZE \<and> data_ok (session_data e)"
  by (erule (1) session_of_Some) (auto simp: entry_at_def)

lemma session_of_None: "sessions_ok c \<Longrightarrow> session_of c t = None \<longleftrightarrow> hm_view (sessionTable c) t = None"
  using sessions_okD(3) [of c t] by (fastforce simp: session_of_def entry_at_def split: option.splits)

text \<open>Writing an entry changes one session.\<close>

lemma write_entry:
  assumes "sessions_ok c" and "hm_view (sessionTable c) t = Some p" and "token e = t" and "data_ok (session_data e)"
  shows "sessions_ok (c\<lparr>entry_memory := (entry_memory c)(p \<mapsto> e)\<rparr>)"
    and "session_of (c\<lparr>entry_memory := (entry_memory c)(p \<mapsto> e)\<rparr>) = (session_of c)(t \<mapsto> e)"
proof -
  note ok = sessions_okD [OF assms(1)]
  show "sessions_ok (c\<lparr>entry_memory := (entry_memory c)(p \<mapsto> e)\<rparr>)"
    unfolding sessions_ok_def
  proof (intro conjI allI impI)
    fix u q assume u: "hm_view (sessionTable (c\<lparr>entry_memory := (entry_memory c)(p \<mapsto> e)\<rparr>)) u = Some q"
    then have "entry_at c u q" "q = p \<longrightarrow> u = t" using ok(3) [of u q] ok(4) [OF assms(2), of u] by auto
    then show "entry_at (c\<lparr>entry_memory := (entry_memory c)(p \<mapsto> e)\<rparr>) u q"
      using assms(3,4) by (auto simp: entry_at_def)
  qed (use ok(2) in simp)
  show "session_of (c\<lparr>entry_memory := (entry_memory c)(p \<mapsto> e)\<rparr>) = (session_of c)(t \<mapsto> e)"
  proof
    fix u
    show "session_of (c\<lparr>entry_memory := (entry_memory c)(p \<mapsto> e)\<rparr>) u = ((session_of c)(t \<mapsto> e)) u"
      using ok(4) [OF assms(2), of u] assms(2) by (cases "hm_view (sessionTable c) u") (auto simp: session_of_def)
  qed
qed

text \<open>A table with the same view, such as the one in which a search has counted its hits.\<close>

lemma same_table:
  assumes "sessions_ok c" and "table_ok hm" and "hm_view hm = hm_view (sessionTable c)"
  shows "sessions_ok (c\<lparr>sessionTable := hm\<rparr>)" and "session_of (c\<lparr>sessionTable := hm\<rparr>) = session_of c"
  using assms by (auto simp: sessions_ok_def entry_at_def session_of_def fun_eq_iff split: option.split)

lemma table_ok_hit: "table_ok hm \<Longrightarrow> table_ok (hit i hm)"
  by (simp add: table_ok_def hm_inv_hit)

text \<open>Removing a session gives its entry back and touches no other.\<close>

lemma remove_session_spec:
  assumes "sessions_ok c"
  shows "\<exists>c'. remove_session c t = Inr (c', session_of c t \<noteq> None) \<and> sessions_ok c'
    \<and> session_of c' = (session_of c)(t := None)
    \<and> curNumberOfEntries (sessionTable c') = (if session_of c t = None then curNumberOfEntries (sessionTable c)
                                               else curNumberOfEntries (sessionTable c) - 1)"
proof -
  let ?T = "sessionTable c"
  note ok = sessions_okD [OF assms]
  obtain hm' rel where run: "hashMap_RemoveKey ?T (Some t) = Inr (hm', rel, hm_stored ?T t \<noteq> None)"
    and inv: "hm_inv hm'" "same_kind ?T hm'" and st: "hm_stored hm' = (hm_stored ?T)(t := None)"
    and size: "maxNumberOfEntries hm' = maxNumberOfEntries ?T"
      "curNumberOfEntries hm' = (if hm_stored ?T t = None then curNumberOfEntries ?T else curNumberOfEntries ?T - 1)"
    and rel: "clearItemCallback ?T \<longrightarrow> rel = (case hm_stored ?T t of None \<Rightarrow> [] | Some v \<Rightarrow> [Clear_item (fst v), Free_key t])"
    using RemoveKey_stored [OF ok(1), of t] by blast
  define mem where "mem = fold destroySessionEntryCallback rel (entry_memory c)"
  let ?c = "c\<lparr>sessionTable := hm', entry_memory := mem\<rparr>"
  have view: "hm_view hm' = (hm_view ?T)(t := None)" using st by (auto simp: hm_view_stored fun_eq_iff)
  have none: "session_of c t = None \<longleftrightarrow> hm_stored ?T t = None" by (simp add: session_of_None [OF assms] hm_view_stored)
  have mem: "mem q = entry_memory c q" if "hm_view ?T u = Some q" "u \<noteq> t" for u q
  proof (cases "hm_stored ?T t")
    case None
    then show ?thesis using rel ok(2) by (simp add: mem_def table_ok_def)
  next
    case (Some v)
    then have "hm_view ?T t = Some (fst v)" by (simp add: hm_view_stored)
    then have "q \<noteq> fst v" using ok(4) that by blast
    then show ?thesis using rel ok(2) Some by (simp add: mem_def table_ok_def destroySessionEntryCallback_def)
  qed
  have "remove_session c t = Inr (?c, session_of c t \<noteq> None)" by (simp add: remove_session_def run mem_def none)
  moreover have "table_ok hm'" using ok(2) inv size by (auto simp: table_ok_def same_kind_def)
  then have "sessions_ok ?c" using ok(3) mem by (auto simp: sessions_ok_def view entry_at_def split: if_splits)
  moreover have "session_of ?c = (session_of c)(t := None)"
    using mem by (auto simp: session_of_def view fun_eq_iff split: option.splits)
  ultimately show ?thesis using size none by auto
qed

text \<open>Looking a session up: an expired one is removed.\<close>

lemma find_session_spec:
  assumes "sessions_ok c" and "t \<noteq> []"
  shows "\<exists>c' r. findSessionLocked now c (Some t) = Inr (c', r) \<and> sessions_ok c'
    \<and> (case session_of c t of
          None \<Rightarrow> r = None \<and> session_of c' = session_of c
        | Some e \<Rightarrow>
            if sessionIsExpired now e then r = None \<and> session_of c' = (session_of c)(t := None)
            else \<exists>p. r = Some p \<and> hm_view (sessionTable c') t = Some p \<and> entry_memory c' p = Some e
                   \<and> session_of c' = session_of c)"
  using FindIndexSerial_stored [OF sessions_okD(1) [OF assms(1)], of t 0]
proof (elim disjE exE conjE)
  assume none: "hm_stored (sessionTable c) t = None"
    and find: "hashMap_FindIndexSerial (sessionTable c) (Some t) 0 = Inr (sessionTable c, 0, False)"
  have "session_of c t = None" using none by (simp add: session_of_None [OF assms(1)] hm_view_stored)
  then show ?thesis using find assms by (simp add: findSessionLocked_def)
next
  fix i
  let ?T = "sessionTable c"
  assume i: "i < curNumberOfEntries ?T" "key (entries ?T ! i) = Some t"
    and st: "hm_stored ?T t = Some (stored (entries ?T ! i))"
    and find: "hashMap_FindIndexSerial ?T (Some t) 0 = Inr (hit i ?T, i, True)"
  note ok = sessions_okD [OF assms(1)]
  let ?p = "payload (entries ?T ! i)" and ?c = "c\<lparr>sessionTable := hit i ?T\<rparr>"
  have view: "hm_view ?T t = Some ?p" using st by (simp add: hm_view_stored stored_def)
  obtain e where e: "entry_memory c ?p = Some e" "?p \<noteq> 0" "session_of c t = Some e"
    using ok(3) [OF view] view by (auto simp: entry_at_def session_of_def)
  have c: "sessions_ok ?c" "session_of ?c = session_of c"
    using same_table [OF assms(1) table_ok_hit [OF ok(2)]] by simp_all
  have at: "fst (hashMap_GetPayloadAtIndex (hit i ?T) i 0) = ?p"
    using i hm_invD(1,2) [OF hm_inv_hit [OF ok(1), of i]] by (simp add: hashMap_GetPayloadAtIndex_def)
  have run: "findSessionLocked now c (Some t)
      = (if sessionIsExpired now e then map_sum id (\<lambda>(c, ok). (c, None)) (remove_session ?c t) else Inr (?c, Some ?p))"
    using find assms(2) e by (simp add: findSessionLocked_def Let_def at)
  show ?thesis
  proof (cases "sessionIsExpired now e")
    case True
    then show ?thesis using remove_session_spec [OF c(1), of t] c(2) e(3) by (auto simp: run)
  next
    case False
    then show ?thesis using c e view by (auto simp: run)
  qed
qed

text \<open>At capacity the session that was used least recently makes room.\<close>

definition least_recent :: "sessionListContext \<Rightarrow> nat \<Rightarrow> (int \<times> string) option \<Rightarrow> bool" where
  "least_recent c m best \<longleftrightarrow>
     (case best of
        None \<Rightarrow> m = 0
      | Some (oldest, k) \<Rightarrow>
          (\<exists>e. session_of c k = Some e \<and> lastSeen e = oldest)
          \<and> (\<forall>i<m. \<forall>u e. key (entries (sessionTable c) ! i) = Some u \<longrightarrow> session_of c u = Some e \<longrightarrow> oldest \<le> lastSeen e))"

lemma older_step:
  assumes "sessions_ok c" and "i < curNumberOfEntries (sessionTable c)" and "least_recent c i best"
  shows "\<exists>best'. older c (Inr best) i = Inr best' \<and> least_recent c (Suc i) best'"
proof -
  let ?T = "sessionTable c"
  note ok = sessions_okD [OF assms(1)]
  obtain k where k: "key (entries ?T ! i) = Some k" using hm_invD(5) [OF ok(1) assms(2)] by (auto simp: entry_ok_def)
  let ?p = "payload (entries ?T ! i)"
  have view: "hm_view ?T k = Some ?p" by (rule hm_view_Some [OF ok(1) assms(2) k])
  obtain e where e: "entry_memory c ?p = Some e" "?p \<noteq> 0" "session_of c k = Some e" "length k < 64"
    using ok(3) [OF view] view by (auto simp: entry_at_def session_of_def SESSION_TOKEN_STRING_SIZE_def)
  have at: "fst (hashMap_GetPayloadAtIndex ?T i 0) = ?p" "hashMap_GetKeyAtIndex ?T i = Some k"
    using assms(2) k hm_invD(1) [OF ok(1)] by (simp_all add: hashMap_GetPayloadAtIndex_def hashMap_GetKeyAtIndex_def)
  have key: "into_array SESSION_TOKEN_STRING_SIZE k = k" using e(4) by (simp add: into_array_def SESSION_TOKEN_STRING_SIZE_def)
  have run: "older c (Inr best) i
      = Inr (if (case best of None \<Rightarrow> True | Some (oldest, _) \<Rightarrow> lastSeen e < oldest) then Some (lastSeen e, k) else best)"
    by (simp add: older_def Let_def at e(1,2) key)
  have "least_recent c (Suc i) (if (case best of None \<Rightarrow> True | Some (oldest, _) \<Rightarrow> lastSeen e < oldest)
      then Some (lastSeen e, k) else best)"
    using assms(3) e(3) k unfolding least_recent_def
    by (cases best) (force simp: less_Suc_eq split: prod.splits)+
  then show ?thesis using run by blast
qed

lemma older_loop:
  "sessions_ok c \<Longrightarrow> m \<le> curNumberOfEntries (sessionTable c)
    \<Longrightarrow> \<exists>best. foldl (older c) (Inr None) [0..<m] = Inr best \<and> least_recent c m best"
proof (induction m)
  case (Suc m)
  then obtain best where "foldl (older c) (Inr None) [0..<m] = Inr best" "least_recent c m best" by auto
  then show ?case using older_step [of c m best] Suc.prems by simp
qed (simp add: least_recent_def)

lemma evict_spec:
  assumes "sessions_ok c"
  shows "\<exists>c'. evictOldestSessionIfAtCapacity c = Inr c' \<and> sessions_ok c' \<and> curNumberOfEntries (sessionTable c') < MAX_SESSIONS
    \<and> (if curNumberOfEntries (sessionTable c) < MAX_SESSIONS then c' = c
       else \<exists>k e. session_of c k = Some e \<and> session_of c' = (session_of c)(k := None)
              \<and> (\<forall>u e'. session_of c u = Some e' \<longrightarrow> lastSeen e \<le> lastSeen e'))"
proof -
  let ?T = "sessionTable c"
  note ok = sessions_okD [OF assms]
  have n: "hashMap_GetCurrentNumberOfEntries ?T = curNumberOfEntries ?T"
    using hm_invD(1) [OF ok(1)] by (simp add: hashMap_GetCurrentNumberOfEntries_def)
  show ?thesis
  proof (cases "curNumberOfEntries ?T < MAX_SESSIONS")
    case True
    then show ?thesis using assms by (simp add: evictOldestSessionIfAtCapacity_def n)
  next
    case False
    obtain best where best: "foldl (older c) (Inr None) [0..<curNumberOfEntries ?T] = Inr best"
      "least_recent c (curNumberOfEntries ?T) best"
      using older_loop [OF assms, of "curNumberOfEntries ?T"] by auto
    have "0 < curNumberOfEntries ?T" using False by (simp add: MAX_SESSIONS_def)
    then obtain k e where k: "best = Some (lastSeen e, k)" "session_of c k = Some e"
      "\<forall>i<curNumberOfEntries ?T. \<forall>u e'. key (entries ?T ! i) = Some u \<longrightarrow> session_of c u = Some e' \<longrightarrow> lastSeen e \<le> lastSeen e'"
      using best(2) by (cases best) (auto simp: least_recent_def)
    have least: "lastSeen e \<le> lastSeen e'" if u: "session_of c u = Some e'" for u e'
    proof -
      from u obtain p where "hm_view ?T u = Some p" by (rule session_of_Some [OF assms])
      then obtain i where "i < curNumberOfEntries ?T" "key (entries ?T ! i) = Some u" by (rule hm_view_index [OF ok(1)])
      then show ?thesis using k(3) u by blast
    qed
    obtain c' where c': "remove_session c k = Inr (c', True)" "sessions_ok c'" "session_of c' = (session_of c)(k := None)"
      "curNumberOfEntries (sessionTable c') = curNumberOfEntries ?T - 1"
      using remove_session_spec [OF assms, of k] k(2) by auto
    have "evictOldestSessionIfAtCapacity c = Inr c'"
      using False by (simp add: evictOldestSessionIfAtCapacity_def n best(1) k(1) c'(1))
    moreover have "curNumberOfEntries ?T \<le> MAX_SESSIONS" using ok(2) by (simp add: table_ok_def)
    ultimately show ?thesis using False c' k(2) least by (auto simp: MAX_SESSIONS_def)
  qed
qed

section \<open>New sessions\<close>

text \<open>The token of 32 random bytes.\<close>

definition token_of :: "string \<Rightarrow> string" where
  "token_of raw = token_loop 0 0 raw"

lemma token_generated:
  assumes "length raw = 32"
  shows "AmmServer_GenerateSecureToken (Some raw) SESSION_TOKEN_STRING_SIZE SESSION_TOKEN_RANDOM_BYTES True = Some (token_of raw)"
    and "length (token_of raw) = 43"
proof -
  have "6 * length (token_of raw) = 8 * length raw + token_pad (8 * length raw)"
    using token_loop_spec [of 0 0 raw] by (simp add: token_of_def)
  then show "length (token_of raw) = 43" using assms by (simp add: token_pad_def)
  show "AmmServer_GenerateSecureToken (Some raw) SESSION_TOKEN_STRING_SIZE SESSION_TOKEN_RANDOM_BYTES True = Some (token_of raw)"
    using assms by (simp add: AmmServer_GenerateSecureToken_def SESSION_TOKEN_STRING_SIZE_def SESSION_TOKEN_RANDOM_BYTES_def token_of_def)
qed

lemma token_failed: "AmmServer_GenerateSecureToken None n m ok = None"
  by (simp add: AmmServer_GenerateSecureToken_def)

text \<open>A search of a map that is never sorted; it may take another key with the same hash for the one it looks for.\<close>

lemma ContainsKey_unsorted:
  assumes "hm_inv hm" and "\<not> useSorting hm"
  shows "\<exists>hm' b. hashMap_ContainsKey hm (Some s) = Inr (hm', b) \<and> (hm' = hm \<or> (\<exists>i. hm' = hit i hm))
    \<and> (hm_stored hm s \<noteq> None \<longrightarrow> b)"
proof (cases "0 < curNumberOfEntries hm \<and> keyHash (entries hm ! 0) = hashFunction (Some s)")
  case True
  then show ?thesis using assms hm_invD(1) [OF assms(1)] by (auto simp: hashMap_ContainsKey_def hashMap_FindIndex_def Let_def)
next
  case False
  have "hashMap_FindIndex hm (Some s) 0 = hashMap_FindIndexSerial hm (Some s) 0"
    using False assms hm_invD(1) [OF assms(1)] by (auto simp: hashMap_FindIndex_def Let_def hashMap_FindIndexSerial_def)
  then show ?thesis using FindIndexSerial_stored [OF assms(1), of s 0]
  proof (elim disjE exE conjE)
    fix j assume "hashMap_FindIndex hm (Some s) 0 = hashMap_FindIndexSerial hm (Some s) 0"
      and "hashMap_FindIndexSerial hm (Some s) 0 = Inr (hit j hm, j, True)"
    then have "hashMap_ContainsKey hm (Some s) = Inr (hit j hm, True)" by (simp add: hashMap_ContainsKey_def)
    then show ?thesis by blast
  next
    assume "hashMap_FindIndex hm (Some s) 0 = hashMap_FindIndexSerial hm (Some s) 0" and "hm_stored hm s = None"
      and "hashMap_FindIndexSerial hm (Some s) 0 = Inr (hm, 0, False)"
    then show ?thesis by (intro exI [of _ hm] exI [of _ False]) (simp add: hashMap_ContainsKey_def)
  qed
qed

lemma draw_token_spec:
  assumes "table_ok hm" and "\<forall>r. Some r \<in> set raws \<longrightarrow> length r = 32"
  shows "\<exists>hm' r. draw_token hm tries raws = Inr (hm', r) \<and> table_ok hm' \<and> hm_stored hm' = hm_stored hm
    \<and> curNumberOfEntries hm' = curNumberOfEntries hm
    \<and> (\<forall>t. r = Some t \<longrightarrow> (\<exists>raw. Some raw \<in> set raws \<and> t = token_of raw))
    \<and> (None \<notin> set raws \<longrightarrow> tries < 5 \<longrightarrow> 5 \<le> tries + length raws \<longrightarrow> r \<noteq> None)"
  using assms
proof (induction raws arbitrary: hm tries)
  case (Cons raw raws)
  show ?case
  proof (cases raw)
    case None
    then show ?thesis using Cons.prems by (simp add: token_failed)
  next
    case (Some r)
    have r: "length r = 32" using Cons.prems(2) Some by simp
    have "hm_inv hm" "\<not> useSorting hm" using Cons.prems(1) by (simp_all add: table_ok_def)
    then obtain hm' b where hm': "hashMap_ContainsKey hm (Some (token_of r)) = Inr (hm', b)" "hm' = hm \<or> (\<exists>i. hm' = hit i hm)"
      using ContainsKey_unsorted by blast
    have same: "table_ok hm'" "hm_stored hm' = hm_stored hm" "curNumberOfEntries hm' = curNumberOfEntries hm" using hm'(2) Cons.prems(1) by (auto simp: table_ok_hit)
    have run: "draw_token hm tries (raw # raws)
        = (if b \<and> tries + 1 < 5 then draw_token hm' (tries + 1) raws else Inr (hm', Some (token_of r)))"
      using token_generated(1) [OF r] hm'(1) by (simp add: Some)
    show ?thesis
    proof (cases "b \<and> tries + 1 < 5")
      case True
      have "\<forall>r. Some r \<in> set raws \<longrightarrow> length r = 32" using Cons.prems(2) by simp
      from Cons.IH [OF same(1) this, of "tries + 1"] obtain hm2 t where
        "draw_token hm' (tries + 1) raws = Inr (hm2, t)" "table_ok hm2" "hm_stored hm2 = hm_stored hm'"
        "curNumberOfEntries hm2 = curNumberOfEntries hm'" "\<forall>u. t = Some u \<longrightarrow> (\<exists>raw. Some raw \<in> set raws \<and> u = token_of raw)"
        "None \<notin> set raws \<longrightarrow> tries + 1 < 5 \<longrightarrow> 5 \<le> tries + 1 + length raws \<longrightarrow> t \<noteq> None" by blast
      moreover from this(1) have "draw_token hm tries (raw # raws) = Inr (hm2, t)" using run True by (simp only: if_True conj_absorb)
      ultimately show ?thesis using same(2,3) True by (intro exI [of _ hm2] exI [of _ t]) auto
    next
      case False
      then show ?thesis using same run Some by auto
    qed
  qed
qed simp

text \<open>
  What is asked of the system while a session is made: \<open>malloc\<close> does not return the address of a live
  session, the random bytes are no token that is in use, and the table can grow.
\<close>

definition system_ok :: "session_env \<Rightarrow> sessionListContext \<Rightarrow> bool" where
  "system_ok env c \<longleftrightarrow>
     table_grows env \<and> key_malloc env
     \<and> (\<forall>c'. evictOldestSessionIfAtCapacity c = Inr c' \<longrightarrow> (\<forall>t. hm_view (sessionTable c') t \<noteq> Some (new_entry env)))
     \<and> (\<forall>r. Some r \<in> set (draws env) \<longrightarrow> length r = 32 \<and> session_of c (token_of r) = None)"

definition new_session :: "session_env \<Rightarrow> string \<Rightarrow> sessionEntry \<Rightarrow> bool" where
  "new_session env t e \<longleftrightarrow>
     token e = t \<and> created e = clock env \<and> lastSeen e = clock env \<and> data_ok (session_data e)
     \<and> hm_stored (session_data e) = Map.empty \<and> has_room (session_data e) \<and> entryAllocationStep (session_data e) = 8
     \<and> maxNumberOfEntries (session_data e) = 8"

text \<open>There is memory for a session and the generator answers every draw.\<close>

definition can_make :: "session_env \<Rightarrow> bool" where
  "can_make env \<longleftrightarrow> new_entry env \<noteq> 0 \<and> data_malloc env \<and> data_realloc env \<and> 5 \<le> length (draws env) \<and> None \<notin> set (draws env)"

lemma data_created:
  assumes "hashMap_Create malloc_ok grows 8 8 False False = Inr (Some d)"
  shows "data_ok d" and "hm_stored d = Map.empty" and "has_room d" and "entryAllocationStep d = 8" and "maxNumberOfEntries d = 8"
  using assms hm_inv_created [of 8 8 False False]
  by (auto simp: hashMap_Create_def hashMap_Grow_def data_ok_def hm_stored_def has_room_def split: if_splits)

lemma create_session_spec:
  assumes "sessions_ok c" and "system_ok env c"
  shows "\<exists>c' r. createSessionLocked env c = Inr (c', r) \<and> sessions_ok c'
    \<and> (case r of
          None \<Rightarrow> session_of c' \<subseteq>\<^sub>m session_of c \<and> \<not> can_make env
        | Some t \<Rightarrow> session_of c t = None \<and> length t = 43
            \<and> (\<exists>e. new_session env t e \<and> session_of c' t = Some e)
            \<and> (session_of c')(t := None) \<subseteq>\<^sub>m session_of c
            \<and> (\<exists>raw. Some raw \<in> set (draws env) \<and> t = token_of raw)
            \<and> (curNumberOfEntries (sessionTable c) < MAX_SESSIONS \<longrightarrow> (session_of c')(t := None) = session_of c))"
proof -
  obtain c1 where c1: "evictOldestSessionIfAtCapacity c = Inr c1" "sessions_ok c1" "curNumberOfEntries (sessionTable c1) < MAX_SESSIONS"
    and kept: "if curNumberOfEntries (sessionTable c) < MAX_SESSIONS then c1 = c
       else \<exists>k e. session_of c k = Some e \<and> session_of c1 = (session_of c)(k := None)
              \<and> (\<forall>u e'. session_of c u = Some e' \<longrightarrow> lastSeen e \<le> lastSeen e')"
    using evict_spec [OF assms(1)] by blast
  have sub: "session_of c1 \<subseteq>\<^sub>m session_of c" using kept by (auto simp: map_le_def split: if_splits)
  note ok1 = sessions_okD [OF c1(2)]
  show ?thesis
  proof (cases "new_entry env = 0")
    case True
    then show ?thesis using c1 sub by (simp add: createSessionLocked_def can_make_def)
  next
    case False
    have raws: "\<forall>r. Some r \<in> set (draws env) \<longrightarrow> length r = 32" using assms(2) by (simp add: system_ok_def)
    obtain hm r where draw: "draw_token (sessionTable c1) 0 (draws env) = Inr (hm, r)" and hm: "table_ok hm"
        "hm_stored hm = hm_stored (sessionTable c1)" "curNumberOfEntries hm = curNumberOfEntries (sessionTable c1)"
      and r: "\<forall>t. r = Some t \<longrightarrow> (\<exists>raw. Some raw \<in> set (draws env) \<and> t = token_of raw)"
      and answers: "None \<notin> set (draws env) \<longrightarrow> 5 \<le> length (draws env) \<longrightarrow> r \<noteq> None"
      using draw_token_spec [OF ok1(2) raws, of 0] by auto
    let ?c2 = "c1\<lparr>sessionTable := hm\<rparr>"
    have view: "hm_view hm = hm_view (sessionTable c1)" using hm(2) by (simp add: hm_view_stored fun_eq_iff)
    have c2: "sessions_ok ?c2" "session_of ?c2 = session_of c1" using same_table [OF c1(2) hm(1) view] .
    show ?thesis
    proof (cases "r = None \<or> (\<exists>t. r = Some t \<and> hashMap_Create (data_malloc env) (data_realloc env) 8 8 False False = Inr None)")
      case True
      then have "\<not> can_make env" using answers by (auto simp: can_make_def hashMap_Create_def hashMap_Grow_def)
      then show ?thesis using True c1(1) draw False c2 sub by (auto simp: createSessionLocked_def)
    next
      case some: False
      then obtain t where t: "r = Some t" by (cases r) auto
      obtain d where d: "hashMap_Create (data_malloc env) (data_realloc env) 8 8 False False = Inr (Some d)"
        using some t by (auto simp: hashMap_Create_def hashMap_Grow_def split: if_splits)
      have tok: "length t = 43" "session_of c t = None" using r t assms(2) token_generated(2) by (auto simp: system_ok_def)
      then have none: "session_of c1 t = None" using sub by (cases "session_of c1 t") (force simp: map_le_def dom_def)+
      then have free: "hm_stored hm t = None"
        using session_of_None [OF c1(2), of t] by (simp add: hm(2) hm_view_stored)
      have hk: "hm_inv hm" "entryAllocationStep hm = 64" "maxNumberOfEntries hm \<le> MAX_SESSIONS + 64"
        using hm(1) by (simp_all add: table_ok_def)
      have small: "curNumberOfEntries hm < MAX_SESSIONS" using c1(3) hm(3) by simp
      have "has_room hm" using hk small by (simp add: has_room_def MAX_SESSIONS_def)
      then obtain hm' old where add: "hashMap_AddULong True True hm (Some t) (new_entry env) = Inr (hm', True)"
        and inv: "hm_inv hm'" "same_kind hm hm'" "hm_stored hm' = (hm_stored hm)(t \<mapsto> (new_entry env, 0, old))"
          "curNumberOfEntries hm' = curNumberOfEntries hm + 1"
          "maxNumberOfEntries hm' = (if curNumberOfEntries hm < maxNumberOfEntries hm then maxNumberOfEntries hm
                                     else maxNumberOfEntries hm + entryAllocationStep hm)"
        using Add_stored [OF hk(1) _ free, of 0 0 "\<lambda>_ _. []" "new_entry env"] by (auto simp: hashMap_AddULong_def)
      have table: "table_ok hm'"
        using hm(1) inv small by (auto simp: table_ok_def same_kind_def)
      have view': "hm_view hm' = (hm_view (sessionTable c1))(t \<mapsto> new_entry env)"
        using inv(3) view by (auto simp: hm_view_stored fun_eq_iff)
      let ?e = "\<lparr>token = t, created = clock env, lastSeen = clock env, session_data = d\<rparr>"
      let ?c3 = "c1\<lparr>sessionTable := hm', entry_memory := (entry_memory c1)(new_entry env \<mapsto> ?e)\<rparr>"
      have fresh: "hm_view (sessionTable c1) u \<noteq> Some (new_entry env)" for u
        using assms(2) c1(1) by (auto simp: system_ok_def)
      have run: "createSessionLocked env c = Inr (?c3, Some t)"
        using c1(1) draw False t d add assms(2) by (simp add: createSessionLocked_def system_ok_def)
      have new: "new_session env t ?e" using data_created [OF d] by (simp add: new_session_def)
      have "t \<noteq> []" using tok(1) by auto
      then have "entry_at ?c3 t (new_entry env)"
        using False tok(1) new by (simp add: entry_at_def new_session_def SESSION_TOKEN_STRING_SIZE_def)
      moreover have "entry_at ?c3 u q" if "hm_view (sessionTable c1) u = Some q" for u q
        using ok1(3) [OF that] fresh [of u] that by (auto simp: entry_at_def)
      ultimately have "sessions_ok ?c3" using table by (auto simp: sessions_ok_def view')
      moreover have "session_of ?c3 = (session_of c1)(t \<mapsto> ?e)"
      proof
        fix u
        show "session_of ?c3 u = ((session_of c1)(t \<mapsto> ?e)) u"
          using fresh [of u] by (cases "hm_view (sessionTable c1) u") (auto simp: session_of_def view')
      qed
      moreover have "(session_of c1)(t := None) = session_of c1" using none by auto
      ultimately show ?thesis using run tok new sub kept r t by (auto simp: fun_upd_upd)
    qed
  qed
qed

section \<open>Resolving a session\<close>

text \<open>The session a cookie stands for at a time, if it has one that has not expired.\<close>

definition live_session :: "int \<Rightarrow> sessionListContext \<Rightarrow> string option \<Rightarrow> sessionEntry option" where
  "live_session now c cookie =
     (case cookie of
        None \<Rightarrow> None
      | Some t \<Rightarrow> (case session_of c t of None \<Rightarrow> None | Some e \<Rightarrow> if sessionIsExpired now e then None else Some e))"

lemma live_session_Some:
  "live_session now c (Some t) = Some e \<longleftrightarrow> session_of c t = Some e \<and> \<not> sessionIsExpired now e"
  by (auto simp: live_session_def split: option.splits)

lemma find_live:
  assumes "sessions_ok c"
  shows "\<exists>c' r. findSessionLocked now c cookie = Inr (c', r) \<and> sessions_ok c' \<and> session_of c' \<subseteq>\<^sub>m session_of c
    \<and> (case live_session now c cookie of
          None \<Rightarrow> r = None \<and> (\<forall>u. cookie \<noteq> Some u \<longrightarrow> session_of c' u = session_of c u)
        | Some e \<Rightarrow> \<exists>p. r = Some p \<and> hm_view (sessionTable c') (token e) = Some p \<and> entry_memory c' p = Some e
                   \<and> session_of c' = session_of c)"
proof (cases cookie)
  case None
  then show ?thesis using assms by (simp add: findSessionLocked_def live_session_def)
next
  case (Some t)
  show ?thesis
  proof (cases "t = []")
    case True
    then have "session_of c t = None" using session_of_token [OF assms, of t] by (cases "session_of c t") auto
    then show ?thesis using assms Some True by (simp add: findSessionLocked_def live_session_def)
  next
    case False
    obtain c' r where run: "findSessionLocked now c (Some t) = Inr (c', r)" "sessions_ok c'"
      and res: "case session_of c t of
          None \<Rightarrow> r = None \<and> session_of c' = session_of c
        | Some e \<Rightarrow>
            if sessionIsExpired now e then r = None \<and> session_of c' = (session_of c)(t := None)
            else \<exists>p. r = Some p \<and> hm_view (sessionTable c') t = Some p \<and> entry_memory c' p = Some e
                   \<and> session_of c' = session_of c"
      using find_session_spec [OF assms False, of now] by blast
    show ?thesis
    proof (cases "session_of c t")
      case None
      then show ?thesis using run res Some by (simp add: live_session_def)
    next
      case e: (Some e)
      have "token e = t" using session_of_token [OF assms e] by simp
      then show ?thesis using run res Some e
        by (cases "sessionIsExpired now e") (auto simp: live_session_def map_le_def)
    qed
  qed
qed

lemma token_text: "length t < SESSION_TOKEN_STRING_SIZE \<Longrightarrow> into_array SESSION_TOKEN_STRING_SIZE t = t"
  by (simp add: into_array_def SESSION_TOKEN_STRING_SIZE_def)

text \<open>What resolving a cookie answers and does, for every cookie.\<close>

lemma get_session_spec:
  assumes "sessions_ok c"
    and "\<forall>c1. findSessionLocked (clock env) c cookie = Inr (c1, None) \<longrightarrow> system_ok env c1"
  shows "\<exists>c' r. getSessionFromHeader env c cookie SESSION_TOKEN_STRING_SIZE = Inr (c', r) \<and> sessions_ok c'
    \<and> (case live_session (clock env) c cookie of
          Some e \<Rightarrow> r = Some (token e, False) \<and> session_of c' = (session_of c)(token e \<mapsto> e\<lparr>lastSeen := clock env\<rparr>)
        | None \<Rightarrow>
            (case r of
               None \<Rightarrow> session_of c' \<subseteq>\<^sub>m session_of c \<and> \<not> can_make env
             | Some (t, isNew) \<Rightarrow>
                 isNew \<and> length t = 43 \<and> (\<exists>e. new_session env t e \<and> session_of c' t = Some e)
                 \<and> (session_of c')(t := None) \<subseteq>\<^sub>m session_of c
                 \<and> (\<exists>raw. Some raw \<in> set (draws env) \<and> t = token_of raw)))"
proof -
  obtain c1 r1 where find: "findSessionLocked (clock env) c cookie = Inr (c1, r1)" "sessions_ok c1" "session_of c1 \<subseteq>\<^sub>m session_of c"
    and res: "case live_session (clock env) c cookie of
          None \<Rightarrow> r1 = None \<and> (\<forall>u. cookie \<noteq> Some u \<longrightarrow> session_of c1 u = session_of c u)
        | Some e \<Rightarrow> \<exists>p. r1 = Some p \<and> hm_view (sessionTable c1) (token e) = Some p \<and> entry_memory c1 p = Some e
                   \<and> session_of c1 = session_of c"
    using find_live [OF assms(1), of "clock env" cookie] by blast
  show ?thesis
  proof (cases "live_session (clock env) c cookie")
    case (Some e)
    then obtain p where p: "r1 = Some p" "hm_view (sessionTable c1) (token e) = Some p" "entry_memory c1 p = Some e"
      "session_of c1 = session_of c" using res by auto
    have e: "length (token e) < SESSION_TOKEN_STRING_SIZE" "data_ok (session_data e)"
      using sessions_okD(3) [OF find(2) p(2)] p(3) by (auto simp: entry_at_def)
    let ?c = "c1\<lparr>entry_memory := (entry_memory c1)(p \<mapsto> e\<lparr>lastSeen := clock env\<rparr>)\<rparr>"
    have "getSessionFromHeader env c cookie SESSION_TOKEN_STRING_SIZE = Inr (?c, Some (token e, False))"
      using find(1) p(1,3) token_text [OF e(1)] by (simp add: getSessionFromHeader_def)
    then show ?thesis
      using write_entry [OF find(2) p(2), of "e\<lparr>lastSeen := clock env\<rparr>"] e(2) p(4) Some by auto
  next
    case None
    then have "r1 = None" using res by simp
    then have find1: "findSessionLocked (clock env) c cookie = Inr (c1, None)" using find(1) by simp
    obtain c' r where make: "createSessionLocked env c1 = Inr (c', r)" "sessions_ok c'"
      and r: "case r of
          None \<Rightarrow> session_of c' \<subseteq>\<^sub>m session_of c1 \<and> \<not> can_make env
        | Some t \<Rightarrow> session_of c1 t = None \<and> length t = 43 \<and> (\<exists>e. new_session env t e \<and> session_of c' t = Some e)
            \<and> (session_of c')(t := None) \<subseteq>\<^sub>m session_of c1 \<and> (\<exists>raw. Some raw \<in> set (draws env) \<and> t = token_of raw)"
      using create_session_spec [OF find(2) assms(2) [rule_format, OF find1]] by (fastforce split: option.splits)
    show ?thesis
    proof (cases r)
      case none: None
      then have "getSessionFromHeader env c cookie SESSION_TOKEN_STRING_SIZE = Inr (c', None)"
        using find1 make(1) by (simp add: getSessionFromHeader_def)
      then show ?thesis using make(2) r none None map_le_trans [OF _ find(3)] by auto
    next
      case (Some t)
      then have "into_array SESSION_TOKEN_STRING_SIZE t = t" using r by (intro token_text) (simp add: SESSION_TOKEN_STRING_SIZE_def)
      then have "getSessionFromHeader env c cookie SESSION_TOKEN_STRING_SIZE = Inr (c', Some (t, True))"
        using find1 make(1) Some by (simp add: getSessionFromHeader_def)
      then show ?thesis using make(2) r Some None map_le_trans [OF _ find(3)] by auto
    qed
  qed
qed


section \<open>Every reachable table\<close>

text \<open>One call of an operation, by any request, while the system keeps its part.\<close>

inductive session_step :: "sessionListContext \<Rightarrow> sessionListContext \<Rightarrow> bool" where
  resolve: "getSessionFromHeader env c cookie n = Inr (c', r)
    \<Longrightarrow> \<forall>c1. findSessionLocked (clock env) c cookie = Inr (c1, None) \<longrightarrow> system_ok env c1 \<Longrightarrow> session_step c c'"
| destroy: "sessionList_Destroy c t = Inr (c', ok) \<Longrightarrow> session_step c c'"
| get: "sessiontList_GetInfo now c t name = Inr (c', v) \<Longrightarrow> session_step c c'"
| store: "sessiontList_StoreInfo True True ptr now c t name v = Inr (c', ok) \<Longrightarrow> ptr \<noteq> 0
    \<Longrightarrow> \<forall>u e. session_of c u = Some e \<longrightarrow> has_room (session_data e) \<Longrightarrow> session_step c c'"
| unset: "sessiontList_UnsetInfo now c t name = Inr (c', ok) \<Longrightarrow> session_step c c'"

text \<open>An operation on the data of a session.\<close>

lemma with_session_spec:
  assumes "sessions_ok c" and "\<And>e. live_session now c (Some t) = Some e \<Longrightarrow> \<exists>d r. f (session_data e) = Inr (d, r) \<and> data_ok d"
  shows "\<exists>c' r. with_session now c (Some t) none f = Inr (c', r) \<and> sessions_ok c'
    \<and> (case live_session now c (Some t) of
          None \<Rightarrow> r = none \<and> (session_of c')(t := None) = (session_of c)(t := None)
        | Some e \<Rightarrow> \<exists>d. f (session_data e) = Inr (d, r) \<and> session_of c' = (session_of c)(t \<mapsto> e\<lparr>session_data := d\<rparr>))"
proof -
  obtain c1 r1 where find: "findSessionLocked now c (Some t) = Inr (c1, r1)" "sessions_ok c1"
    and res: "case live_session now c (Some t) of
          None \<Rightarrow> r1 = None \<and> (\<forall>u. Some t \<noteq> Some u \<longrightarrow> session_of c1 u = session_of c u)
        | Some e \<Rightarrow> \<exists>p. r1 = Some p \<and> hm_view (sessionTable c1) (token e) = Some p \<and> entry_memory c1 p = Some e
                   \<and> session_of c1 = session_of c"
    using find_live [OF assms(1), of now "Some t"] by blast
  show ?thesis
  proof (cases "live_session now c (Some t)")
    case None
    then show ?thesis using find res by (auto simp: with_session_def fun_eq_iff)
  next
    case (Some e)
    then obtain p where p: "r1 = Some p" "hm_view (sessionTable c1) (token e) = Some p" "entry_memory c1 p = Some e"
      "session_of c1 = session_of c" using res by auto
    have tok: "token e = t" using Some session_of_token [OF assms(1), of t e] by (simp add: live_session_Some)
    obtain d r where d: "f (session_data e) = Inr (d, r)" "data_ok d" using assms(2) [OF Some] by blast
    let ?c = "c1\<lparr>entry_memory := (entry_memory c1)(p \<mapsto> e\<lparr>session_data := d\<rparr>)\<rparr>"
    have "with_session now c (Some t) none f = Inr (?c, r)" using find(1) p(1,3) d(1) by (simp add: with_session_def)
    then show ?thesis
      using write_entry [OF find(2) p(2), of "e\<lparr>session_data := d\<rparr>"] d p(4) tok Some by auto
  qed
qed

lemma data_hit: "data_ok d \<Longrightarrow> data_ok (hit i d)"
  by (simp add: data_ok_def hm_inv_hit)

definition value_in :: "hashMap \<Rightarrow> string \<Rightarrow> string option" where
  "value_in d name =
     (case hm_stored d name of
        None \<Rightarrow> None
      | Some (p, len, bytes) \<Rightarrow> if p = 0 then None else Some (take (min (len - 1) (SESSION_VALUE_SCRATCH_SIZE - 1)) bytes))"

lemma get_value_spec:
  assumes "data_ok d"
  shows "\<exists>d'. get_value name d = Inr (d', value_in d name) \<and> data_ok d' \<and> hm_stored d' = hm_stored d \<and> (has_room d \<longrightarrow> has_room d')"
proof -
  have inv: "hm_inv d" using assms by (simp add: data_ok_def)
  show ?thesis using FindIndexSerial_stored [OF inv, of name 0]
  proof (elim disjE exE conjE)
    assume "hm_stored d name = None" "hashMap_FindIndexSerial d (Some name) 0 = Inr (d, 0, False)"
    then show ?thesis using assms by (simp add: get_value_def value_in_def)
  next
    fix j
    assume j: "j < curNumberOfEntries d" "key (entries d ! j) = Some name" and st: "hm_stored d name = Some (stored (entries d ! j))"
      and find: "hashMap_FindIndexSerial d (Some name) 0 = Inr (hit j d, j, True)"
    have at: "j < maxNumberOfEntries d" using j hm_invD(2) [OF inv] by simp
    have bytes: "payloadBytes (entries (hit j d) ! j) = payloadBytes (entries d ! j)" using at by (simp add: hit_def)
    have "hashMap_GetPayloadAtIndex (hit j d) j 0 = (payload (entries d ! j), payloadLength (entries d ! j))"
      using j(1) at hm_invD(1) [OF hm_inv_hit [OF inv, of j]] by (simp add: hashMap_GetPayloadAtIndex_def)
    then have "get_value name d = Inr (hit j d, value_in d name)"
      using find st by (auto simp: get_value_def value_in_def stored_def bytes Let_def min_def SESSION_VALUE_SCRATCH_SIZE_def)
    then show ?thesis using data_hit [OF assms] by (simp add: has_room_def)
  qed
qed

lemma cleared_value:
  assumes "data_ok d" and "hashMap_RemoveKey d (Some name) = Inr (d', rel, ok)"
  shows "data_ok d'" and "hm_stored d' = (hm_stored d)(name := None)" and "has_room d \<Longrightarrow> has_room d'"
    and "same_kind d d'" and "maxNumberOfEntries d' = maxNumberOfEntries d"
  using RemoveKey_stored [of d name] assms by (auto simp: data_ok_def same_kind_def has_room_def split: if_splits)

lemma put_value_spec:
  assumes "data_ok d" and "has_room d" and "ptr \<noteq> 0"
  shows "\<exists>d'. put_value True True ptr name v d = Inr (d', True) \<and> data_ok d'
    \<and> hm_stored d' = (hm_stored d)(name \<mapsto> (ptr, length v + 1, v @ [NUL]))
    \<and> same_kind d d' \<and> maxNumberOfEntries d' \<le> maxNumberOfEntries d + entryAllocationStep d"
proof -
  have inv: "hm_inv d" "\<not> useSorting d" using assms(1) by (simp_all add: data_ok_def)
  obtain d1 b where d1: "hashMap_ContainsKey d (Some name) = Inr (d1, b)" "d1 = d \<or> (\<exists>i. d1 = hit i d)" "hm_stored d name \<noteq> None \<longrightarrow> b"
    using ContainsKey_unsorted [OF inv] by blast
  have ok1: "data_ok d1" "hm_stored d1 = hm_stored d" "has_room d1" "same_kind d d1" "maxNumberOfEntries d1 = maxNumberOfEntries d"
    using d1(2) assms(1,2) data_hit by (auto simp: has_room_def)
  obtain d2 where d2: "(if b then map_sum id fst (hashMap_RemoveKey d1 (Some name)) else Inr d1) = Inr d2"
    "data_ok d2" "hm_stored d2 = (hm_stored d)(name := None)" "has_room d2" "same_kind d d2" "maxNumberOfEntries d2 = maxNumberOfEntries d"
  proof (cases b)
    case True
    obtain d2 rel ok where r: "hashMap_RemoveKey d1 (Some name) = Inr (d2, rel, ok)"
      using RemoveKey_stored [of d1 name] ok1(1) by (auto simp: data_ok_def)
    show ?thesis using that [of d2] True r cleared_value [OF ok1(1) r] ok1(2-5) same_kind_trans [OF ok1(4), of d2] by simp
  next
    case False
    then have "hm_stored d name = None" using d1(3) by blast
    then have "(hm_stored d)(name := None) = hm_stored d" by (rule fun_upd_idem)
    then show ?thesis using that [of d1] False ok1 by simp
  qed
  have "hm_inv d2" "hm_stored d2 name = None" using d2(2,3) by (simp_all add: data_ok_def)
  then obtain d' where d': "hashMap_Add True True ptr (\<lambda>_ _. v @ [NUL]) d2 (Some name) 0 (length v + 1) = Inr (d', True)"
    "hm_inv d'" "same_kind d2 d'" "hm_stored d' = (hm_stored d2)(name \<mapsto> (ptr, length v + 1, v @ [NUL]))"
    "maxNumberOfEntries d' = (if curNumberOfEntries d2 < maxNumberOfEntries d2 then maxNumberOfEntries d2
                              else maxNumberOfEntries d2 + entryAllocationStep d2)"
    using Add_stored [of d2 name "length v + 1" ptr "\<lambda>_ _. v @ [NUL]" 0] d2(4) assms(3) by auto
  have "put_value True True ptr name v d = Inr (d', True)"
    using d1(1) d2(1) d'(1) by (simp add: put_value_def)
  moreover have "data_ok d'" using d2(2) d'(2,3) by (simp add: data_ok_def same_kind_def)
  moreover have "same_kind d d'" using d2(5) d'(3) by (rule same_kind_trans)
  moreover have "maxNumberOfEntries d' \<le> maxNumberOfEntries d + entryAllocationStep d"
    using d'(5) d2(5,6) by (simp add: same_kind_def)
  ultimately show ?thesis using d'(4) d2(3) by simp
qed

lemma get_session_size:
  "map_sum id fst (getSessionFromHeader env c cookie n) = map_sum id fst (getSessionFromHeader env c cookie m)"
  by (simp add: getSessionFromHeader_def split: sum.split prod.split option.split)

lemma session_step_ok:
  assumes "session_step c c'" and "sessions_ok c"
  shows "sessions_ok c'"
  using assms
proof cases
  case (resolve env cookie n r)
  have "map_sum id fst (getSessionFromHeader env c cookie SESSION_TOKEN_STRING_SIZE) = Inr c'"
    using get_session_size [of env c cookie SESSION_TOKEN_STRING_SIZE n] resolve(1) by simp
  then show ?thesis using get_session_spec [OF assms(2) resolve(2)] by auto
next
  case (destroy t ok)
  then show ?thesis using remove_session_spec [OF assms(2)] assms(2)
    by (cases t) (auto simp: sessionList_Destroy_def, metis Inr_inject Pair_inject)
next
  case (get now t name v)
  show ?thesis
  proof (cases "t = None \<or> name = None")
    case True
    then show ?thesis using get assms(2) by (auto simp: sessiontList_GetInfo_def split: option.splits)
  next
    case False
    then obtain u n where "t = Some u" "name = Some n" by auto
    moreover have "\<exists>d r. get_value n (session_data e) = Inr (d, r) \<and> data_ok d" if "live_session now c (Some u) = Some e" for e
      using that get_value_spec [of "session_data e" n] session_of_token [OF assms(2)] by (fastforce simp: live_session_Some)
    ultimately show ?thesis
      using get with_session_spec [OF assms(2), of now u "get_value n" None] by (auto simp: sessiontList_GetInfo_def)
  qed
next
  case (store ptr now t name v ok)
  show ?thesis
  proof (cases "t = None \<or> name = None \<or> v = None")
    case True
    then show ?thesis using store assms(2) by (auto simp: sessiontList_StoreInfo_def split: option.splits)
  next
    case False
    then obtain u n w where "t = Some u" "name = Some n" "v = Some w" by auto
    moreover have "\<exists>d r. put_value True True ptr n w (session_data e) = Inr (d, r) \<and> data_ok d"
      if "live_session now c (Some u) = Some e" for e
      using that put_value_spec [of "session_data e" ptr n w] session_of_token [OF assms(2)] store(2,3)
      by (fastforce simp: live_session_Some)
    ultimately show ?thesis
      using store(1) with_session_spec [OF assms(2), of now u "put_value True True ptr n w" False]
      by (auto simp: sessiontList_StoreInfo_def)
  qed
next
  case (unset now t name ok)
  show ?thesis
  proof (cases "t = None \<or> name = None")
    case True
    then show ?thesis using unset assms(2) by (auto simp: sessiontList_UnsetInfo_def split: option.splits)
  next
    case False
    then obtain u n where "t = Some u" "name = Some n" by auto
    moreover have "\<exists>d r. map_sum id (\<lambda>(d, rel, ok). (d, ok)) (hashMap_RemoveKey (session_data e) (Some n)) = Inr (d, r) \<and> data_ok d"
      if "live_session now c (Some u) = Some e" for e
    proof -
      have e: "data_ok (session_data e)" using that session_of_token [OF assms(2)] unfolding live_session_Some by blast
      then obtain d rel ok where r: "hashMap_RemoveKey (session_data e) (Some n) = Inr (d, rel, ok)"
        using RemoveKey_stored [of "session_data e" n] by (auto simp: data_ok_def)
      then show ?thesis using cleared_value(1) [OF e r] by simp
    qed
    ultimately show ?thesis
      using unset with_session_spec [OF assms(2), of now u
        "\<lambda>d. map_sum id (\<lambda>(d, rel, ok). (d, ok)) (hashMap_RemoveKey d (Some n))" False]
      by (auto simp: sessiontList_UnsetInfo_def)
  qed
qed

lemma sessions_ok_created:
  assumes "sessionList_initialize True True True memory = Inr (Some c)"
  shows "sessions_ok c" and "session_of c = Map.empty"
proof -
  have "sessionTable c = \<lparr>curNumberOfEntries = 0, entryAllocationStep = 64, entries = replicate 64 zero_entry,
      clearItemCallback = True, isSorted = False, useSorting = False\<rparr>"
    using assms by (auto simp: sessionList_initialize_def hashMap_Create_def hashMap_Grow_def)
  then have t: "table_ok (sessionTable c)" "hm_view (sessionTable c) = Map.empty"
    using hm_inv_created [of 64 64 True False] by (auto simp: table_ok_def hm_view_def MAX_SESSIONS_def)
  then show "sessions_ok c" "session_of c = Map.empty" by (auto simp: sessions_ok_def session_of_def)
qed


text \<open>A table with no session, and a system that delivers the same 32 bytes for its first one.\<close>

definition empty_sessions :: sessionListContext where
  "empty_sessions = \<lparr>sessionTable = \<lparr>curNumberOfEntries = 0, entryAllocationStep = 64, entries = replicate 64 zero_entry,
     clearItemCallback = True, isSorted = False, useSorting = False\<rparr>, entry_memory = Map.empty\<rparr>"

definition sample_system :: "int \<Rightarrow> session_env" where
  "sample_system now = \<lparr>clock = now, new_entry = 4096, draws = Some (replicate 32 (CHR ''A'')) # replicate 4 (Some (replicate 32 (CHR ''A''))), data_malloc = True,
     data_realloc = True, table_grows = True, key_malloc = True\<rparr>"

lemma empty_sessions_created: "sessionList_initialize True True True Map.empty = Inr (Some empty_sessions)"
  by (simp add: sessionList_initialize_def hashMap_Create_def hashMap_Grow_def empty_sessions_def)

lemma empty_sessions_system: "system_ok (sample_system now) empty_sessions"
proof -
  note ok = sessions_ok_created [OF empty_sessions_created]
  have "curNumberOfEntries (sessionTable empty_sessions) < MAX_SESSIONS" by (simp add: empty_sessions_def MAX_SESSIONS_def)
  then have "evictOldestSessionIfAtCapacity empty_sessions = Inr empty_sessions" using evict_spec [OF ok(1)] by auto
  moreover have "hm_view (sessionTable empty_sessions) t = None" for t by (simp add: empty_sessions_def hm_view_def)
  ultimately show ?thesis using ok(2) by (auto simp: system_ok_def sample_system_def)
qed

lemma first_session:
  "\<exists>c1 t. getSessionFromHeader (sample_system now) empty_sessions None SESSION_TOKEN_STRING_SIZE = Inr (c1, Some (t, True))
    \<and> sessions_ok c1 \<and> (\<exists>e. session_of c1 t = Some e \<and> new_session (sample_system now) t e)"
proof -
  note ok = sessions_ok_created [OF empty_sessions_created]
  have none: "findSessionLocked n empty_sessions None = Inr (empty_sessions, None)" for n by (simp add: findSessionLocked_def)
  let ?hm = "sessionTable empty_sessions" and ?raw = "replicate 32 (CHR ''A'')"
  have tok: "AmmServer_GenerateSecureToken (Some ?raw) SESSION_TOKEN_STRING_SIZE SESSION_TOKEN_RANDOM_BYTES True = Some (token_of ?raw)"
    by (rule token_generated) simp
  have d: "hashMap_ContainsKey ?hm (Some u) = Inr (?hm, False)" for u
    by (simp add: hashMap_ContainsKey_def hashMap_FindIndex_def empty_sessions_def hashMap_IsOK_def Let_def
        hashMap_FindIndexSerialWithPrecomputedHash_def find_serial.simps)
  have "evictOldestSessionIfAtCapacity empty_sessions = Inr empty_sessions"
    using evict_spec [OF ok(1)] by (auto simp: empty_sessions_def MAX_SESSIONS_def)
  then obtain c1 t where "createSessionLocked (sample_system now) empty_sessions = Inr (c1, Some t)"
    by (simp add: createSessionLocked_def sample_system_def tok d)
      (simp add: hashMap_Create_def hashMap_Grow_def hashMap_AddULong_def hashMap_Add_def empty_sessions_def hashMap_IsOK_def Let_def)
  then have run: "getSessionFromHeader (sample_system now) empty_sessions None SESSION_TOKEN_STRING_SIZE
      = Inr (c1, Some (into_array SESSION_TOKEN_STRING_SIZE t, True))"
    by (simp add: getSessionFromHeader_def none)
  have "\<forall>c1. findSessionLocked (clock (sample_system now)) empty_sessions None = Inr (c1, None) \<longrightarrow> system_ok (sample_system now) c1"
    using empty_sessions_system by (simp add: none)
  from get_session_spec [OF ok(1) this] run show ?thesis by (auto simp: live_session_def)
qed



section \<open>What a session remembers\<close>

text \<open>The value of a name in the session of a token at a time.\<close>

definition value_at :: "int \<Rightarrow> sessionListContext \<Rightarrow> string \<Rightarrow> string \<Rightarrow> string option" where
  "value_at now c t name =
     (case live_session now c (Some t) of None \<Rightarrow> None | Some e \<Rightarrow> value_in (session_data e) name)"

lemma live_session_data: "sessions_ok c \<Longrightarrow> live_session now c (Some t) = Some e \<Longrightarrow> data_ok (session_data e) \<and> token e = t"
  using session_of_token [of c t e] by (simp add: live_session_Some)

lemma GetInfo_live:
  assumes "sessions_ok c" and "live_session now c (Some t) = Some e"
  shows "\<exists>c' d. sessiontList_GetInfo now c (Some t) (Some name) = Inr (c', value_in (session_data e) name) \<and> sessions_ok c'
    \<and> session_of c' = (session_of c)(t \<mapsto> e\<lparr>session_data := d\<rparr>)
    \<and> hm_stored d = hm_stored (session_data e) \<and> (has_room (session_data e) \<longrightarrow> has_room d)"
proof -
  obtain d where d: "get_value name (session_data e) = Inr (d, value_in (session_data e) name)" "data_ok d"
    "hm_stored d = hm_stored (session_data e)" "has_room (session_data e) \<longrightarrow> has_room d"
    using get_value_spec [of "session_data e" name] live_session_data [OF assms] by blast
  then show ?thesis
    using with_session_spec [OF assms(1), of now t "get_value name" None] assms(2) by (auto simp: sessiontList_GetInfo_def)
qed

lemma GetInfo_value:
  assumes "sessions_ok c"
  shows "\<exists>c'. sessiontList_GetInfo now c (Some t) (Some name) = Inr (c', value_at now c t name)"
proof (cases "live_session now c (Some t)")
  case None
  then show ?thesis
    using with_session_spec [OF assms, of now t "get_value name" None] by (auto simp: sessiontList_GetInfo_def value_at_def)
next
  case (Some e)
  then show ?thesis using GetInfo_live [OF assms Some, of name] by (auto simp: value_at_def)
qed

lemma StoreInfo_live:
  assumes "sessions_ok c" and "live_session now c (Some t) = Some e" and "has_room (session_data e)" and "ptr \<noteq> 0"
  shows "\<exists>c' d. sessiontList_StoreInfo True True ptr now c (Some t) (Some name) (Some v) = Inr (c', True) \<and> sessions_ok c'
    \<and> session_of c' = (session_of c)(t \<mapsto> e\<lparr>session_data := d\<rparr>)
    \<and> hm_stored d = (hm_stored (session_data e))(name \<mapsto> (ptr, length v + 1, v @ [NUL]))
    \<and> same_kind (session_data e) d
    \<and> maxNumberOfEntries d \<le> maxNumberOfEntries (session_data e) + entryAllocationStep (session_data e)"
proof -
  obtain d where d: "put_value True True ptr name v (session_data e) = Inr (d, True)" "data_ok d"
    "hm_stored d = (hm_stored (session_data e))(name \<mapsto> (ptr, length v + 1, v @ [NUL]))"
    "same_kind (session_data e) d"
    "maxNumberOfEntries d \<le> maxNumberOfEntries (session_data e) + entryAllocationStep (session_data e)"
    using put_value_spec [OF _ assms(3,4)] live_session_data [OF assms(1,2)] by blast
  moreover have "\<exists>d r. put_value True True ptr name v (session_data e') = Inr (d, r) \<and> data_ok d"
    if "live_session now c (Some t) = Some e'" for e' using that assms(2) d(1,2) by auto
  then obtain c' r where "with_session now c (Some t) False (put_value True True ptr name v) = Inr (c', r)" "sessions_ok c'"
    and "case live_session now c (Some t) of
          None \<Rightarrow> r = False \<and> (session_of c')(t := None) = (session_of c)(t := None)
        | Some e \<Rightarrow> \<exists>d. put_value True True ptr name v (session_data e) = Inr (d, r)
            \<and> session_of c' = (session_of c)(t \<mapsto> e\<lparr>session_data := d\<rparr>)"
    using with_session_spec [OF assms(1), of now t "put_value True True ptr name v" False] by blast
  ultimately show ?thesis using assms(2) by (auto simp: sessiontList_StoreInfo_def)
qed

text \<open>What is remembered after a value was stored, at any time.\<close>

lemma value_after_store:
  assumes "session_of c' = (session_of c)(t \<mapsto> e\<lparr>session_data := d\<rparr>)" and "session_of c t = Some e"
    and "hm_stored d = (hm_stored (session_data e))(name \<mapsto> (ptr, length v + 1, v @ [NUL]))" and "ptr \<noteq> 0"
  shows "value_at now c' u n = (if u = t \<and> n = name then
      (if sessionIsExpired now e then None else Some (take (SESSION_VALUE_SCRATCH_SIZE - 1) v)) else value_at now c u n)"
proof -
  have live: "live_session now c' (Some u)
      = (if u = t then (if sessionIsExpired now e then None else Some (e\<lparr>session_data := d\<rparr>)) else live_session now c (Some u))"
    using assms(1) by (simp add: live_session_def sessionIsExpired_def)
  have "value_in d n = (if n = name then Some (take (SESSION_VALUE_SCRATCH_SIZE - 1) v) else value_in (session_data e) n)"
    using assms(3,4) by (simp add: value_in_def SESSION_VALUE_SCRATCH_SIZE_def min_def)
  moreover have "live_session now c (Some t) = (if sessionIsExpired now e then None else Some e)"
    using assms(2) by (simp add: live_session_def)
  ultimately show ?thesis unfolding value_at_def live by auto
qed

text \<open>
  C18: A value that is stored in a session is what a later request reads under its name, cut at 4095 bytes, for
  as long as the session lives; no other name and no other session is changed.
\<close>

theorem session_value_kept:
  assumes "sessions_ok c" and "session_of c t = Some e" and "\<not> sessionIsExpired now e" and "\<not> sessionIsExpired now' e"
    and "has_room (session_data e)" and "ptr \<noteq> 0"
  shows "\<exists>c1. sessiontList_StoreInfo True True ptr now c (Some t) (Some name) (Some v) = Inr (c1, True)
    \<and> (\<forall>u n. \<exists>c2. sessiontList_GetInfo now' c1 (Some u) (Some n)
          = Inr (c2, if u = t \<and> n = name then Some (take 4095 v) else value_at now' c u n))"
proof -
  have live: "live_session now c (Some t) = Some e" using assms(2,3) by (simp add: live_session_Some)
  obtain c1 d where c1: "sessiontList_StoreInfo True True ptr now c (Some t) (Some name) (Some v) = Inr (c1, True)" "sessions_ok c1"
    "session_of c1 = (session_of c)(t \<mapsto> e\<lparr>session_data := d\<rparr>)"
    "hm_stored d = (hm_stored (session_data e))(name \<mapsto> (ptr, length v + 1, v @ [NUL]))"
    using StoreInfo_live [OF assms(1) live assms(5,6)] by blast
  have "\<exists>c2. sessiontList_GetInfo now' c1 (Some u) (Some n)
      = Inr (c2, if u = t \<and> n = name then Some (take 4095 v) else value_at now' c u n)" for u n
  proof -
    have "value_at now' c1 u n = (if u = t \<and> n = name then Some (take 4095 v) else value_at now' c u n)"
      using value_after_store [OF c1(3) assms(2) c1(4) assms(6), of now' u n] assms(4) by (simp add: SESSION_VALUE_SCRATCH_SIZE_def)
    then show ?thesis using GetInfo_value [OF c1(2), of now' u n] by (simp only:)
  qed
  then show ?thesis using c1(1) by blast
qed

theorem session_value_kept_witness:
  "\<exists>c t c1 c2. sessiontList_StoreInfo True True 8192 5 c (Some t) (Some ''username'') (Some ''ammar'') = Inr (c1, True)
    \<and> sessiontList_GetInfo 65 c1 (Some t) (Some ''username'') = Inr (c2, Some ''ammar'')"
proof -
  obtain c t e where first: "sessions_ok c" "session_of c t = Some e" "new_session (sample_system 0) t e" using first_session by blast
  have "\<not> sessionIsExpired 5 e" "\<not> sessionIsExpired 65 e" "has_room (session_data e)"
    using first(3) by (simp_all add: new_session_def sessionIsExpired_def SESSION_IDLE_TIMEOUT_SECONDS_def sample_system_def)
  then obtain c1 where store: "sessiontList_StoreInfo True True 8192 5 c (Some t) (Some ''username'') (Some ''ammar'') = Inr (c1, True)"
    and get: "\<forall>u n. \<exists>c2. sessiontList_GetInfo 65 c1 (Some u) (Some n)
          = Inr (c2, if u = t \<and> n = ''username'' then Some (take 4095 ''ammar'') else value_at 65 c u n)"
    using session_value_kept [OF first(1,2), of 5 65 8192 "''username''" "''ammar''"] by auto
  obtain c2 where "sessiontList_GetInfo 65 c1 (Some t) (Some ''username'') = Inr (c2, Some (take 4095 ''ammar''))"
    using get [rule_format, of t "''username''"] by auto
  then show ?thesis using store by auto
qed

section \<open>Forged requests\<close>

lemma csrf_token_generated:
  assumes "length raw = CSRF_TOKEN_RANDOM_BYTES"
  shows "AmmServer_GenerateSecureToken (Some raw) 64 CSRF_TOKEN_RANDOM_BYTES True = Some (token_of raw)"
    and "length (token_of raw) = 32"
proof -
  have "6 * length (token_of raw) = 8 * length raw + token_pad (8 * length raw)"
    using token_loop_spec [of 0 0 raw] by (simp add: token_of_def)
  then show "length (token_of raw) = 32" using assms by (simp add: token_pad_def CSRF_TOKEN_RANDOM_BYTES_def)
  show "AmmServer_GenerateSecureToken (Some raw) 64 CSRF_TOKEN_RANDOM_BYTES True = Some (token_of raw)"
    using assms by (simp add: AmmServer_GenerateSecureToken_def CSRF_TOKEN_RANDOM_BYTES_def token_of_def)
qed

lemma validate_value:
  assumes "sessions_ok c" and "value_at now c (sessionToken rqst) CSRF_SESSION_KEY = Some tok" and "length tok < 64" and "tok \<noteq> []"
  shows "\<exists>c'. AmmServer_ValidateCSRFToken now c rqst submitted = Inr (c', submitted = Some tok)"
proof -
  obtain c' where "sessiontList_GetInfo now c (Some (sessionToken rqst)) (Some CSRF_SESSION_KEY) = Inr (c', Some tok)"
    using GetInfo_value [OF assms(1), of now "sessionToken rqst" CSRF_SESSION_KEY] assms(2) by auto
  then show ?thesis using assms(3,4)
    by (cases submitted) (auto simp: AmmServer_ValidateCSRFToken_def SESSIONcpy_def SESSION_value_def)
qed

text \<open>
  C17: The token a page hands out against forged requests is the only one that is accepted from that session, now
  and as long as the session lives; an absent or empty one never is.
\<close>

theorem csrf_token_checked:
  assumes "sessions_ok c" and "session_of c (sessionToken rqst) = Some e" and "\<not> sessionIsExpired now e" and "\<not> sessionIsExpired now' e"
    and "has_room (session_data e)" and "ptr \<noteq> 0" and "length raw = CSRF_TOKEN_RANDOM_BYTES"
    and "\<forall>old. value_in (session_data e) CSRF_SESSION_KEY = Some old \<longrightarrow> old \<noteq> [] \<and> length old < 64"
  shows "\<exists>c1 tok. AmmServer_GenerateCSRFToken True True ptr (Some raw) now c rqst 64 = Inr (c1, Some tok)
    \<and> tok \<noteq> [] \<and> (\<forall>submitted. \<exists>c2. AmmServer_ValidateCSRFToken now' c1 rqst submitted = Inr (c2, submitted = Some tok))"
proof -
  let ?t = "sessionToken rqst"
  have live: "live_session now c (Some ?t) = Some e" using assms(2,3) by (simp add: live_session_Some)
  obtain c1 d where c1: "sessiontList_GetInfo now c (Some ?t) (Some CSRF_SESSION_KEY) = Inr (c1, value_in (session_data e) CSRF_SESSION_KEY)"
      "sessions_ok c1" "session_of c1 = (session_of c)(?t \<mapsto> e\<lparr>session_data := d\<rparr>)"
      "hm_stored d = hm_stored (session_data e)" "has_room (session_data e) \<longrightarrow> has_room d"
    using GetInfo_live [OF assms(1) live, of CSRF_SESSION_KEY] by blast
  let ?e = "e\<lparr>session_data := d\<rparr>"
  have e1: "session_of c1 ?t = Some ?e" "\<not> sessionIsExpired now ?e" "\<not> sessionIsExpired now' ?e"
    using c1(3) assms(3,4) by (simp_all add: sessionIsExpired_def)
  show ?thesis
  proof (cases "value_in (session_data e) CSRF_SESSION_KEY")
    case (Some old)
    then have old: "old \<noteq> []" "length old < 64" using assms(8) by auto
    have "AmmServer_GenerateCSRFToken True True ptr (Some raw) now c rqst 64 = Inr (c1, Some old)"
      using c1(1) Some old by (simp add: AmmServer_GenerateCSRFToken_def SESSIONcpy_def SESSION_value_def)
    moreover have "value_at now' c1 ?t CSRF_SESSION_KEY = Some old"
      using e1 Some c1(4) by (simp add: value_at_def live_session_def value_in_def)
    ultimately show ?thesis using validate_value [OF c1(2)] old by blast
  next
    case None
    have live1: "live_session now c1 (Some ?t) = Some ?e" using e1 by (simp add: live_session_Some)
    have room: "has_room (session_data ?e)" using c1(5) assms(5) by simp
    obtain c2 d2 where c2: "sessiontList_StoreInfo True True ptr now c1 (Some ?t) (Some CSRF_SESSION_KEY) (Some (token_of raw)) = Inr (c2, True)"
        "sessions_ok c2" "session_of c2 = (session_of c1)(?t \<mapsto> ?e\<lparr>session_data := d2\<rparr>)"
        "hm_stored d2 = (hm_stored (session_data ?e))(CSRF_SESSION_KEY \<mapsto> (ptr, length (token_of raw) + 1, token_of raw @ [NUL]))"
      using StoreInfo_live [OF c1(2) live1 room assms(6)] by blast
    have len: "length (token_of raw) = 32" by (rule csrf_token_generated(2) [OF assms(7)])
    have "AmmServer_GenerateCSRFToken True True ptr (Some raw) now c rqst 64 = Inr (c2, Some (token_of raw))"
      using c1(1) None csrf_token_generated(1) [OF assms(7)] c2(1) len
      by (simp add: AmmServer_GenerateCSRFToken_def SESSIONcpy_def SESSION_value_def SESSIONset_def into_array_def)
    moreover have "value_at now' c2 ?t CSRF_SESSION_KEY = Some (token_of raw)"
      using value_after_store [OF c2(3) e1(1) c2(4) assms(6), of now' ?t CSRF_SESSION_KEY] e1(3) len
      by (simp add: SESSION_VALUE_SCRATCH_SIZE_def)
    moreover have "token_of raw \<noteq> []" using len by auto
    ultimately show ?thesis using validate_value [OF c2(2)] len by (metis numeral_less_iff semiring_norm(75,76,78))
  qed
qed

theorem csrf_token_checked_witness:
  "\<exists>c t c1 tok c2. AmmServer_GenerateCSRFToken True True 8192 (Some (replicate 24 (CHR ''B''))) 5 c
      \<lparr>sessionToken = t, pendingResponseHeaders = []\<rparr> 64 = Inr (c1, Some tok)
    \<and> AmmServer_ValidateCSRFToken 65 c1 \<lparr>sessionToken = t, pendingResponseHeaders = []\<rparr> (Some tok) = Inr (c2, True)"
proof -
  obtain c t e where first: "sessions_ok c" "session_of c t = Some e" "new_session (sample_system 0) t e" using first_session by blast
  let ?r = "\<lparr>sessionToken = t, pendingResponseHeaders = []\<rparr>"
  have e: "\<not> sessionIsExpired 5 e" "\<not> sessionIsExpired 65 e" "has_room (session_data e)" "value_in (session_data e) CSRF_SESSION_KEY = None"
    using first(3) by (simp_all add: new_session_def sessionIsExpired_def SESSION_IDLE_TIMEOUT_SECONDS_def sample_system_def value_in_def)
  have "session_of c (sessionToken ?r) = Some e" using first(2) by simp
  from csrf_token_checked [OF first(1) this e(1,2,3), of 8192 "replicate 24 (CHR ''B'')"] e(4)
  obtain c1 tok where "AmmServer_GenerateCSRFToken True True 8192 (Some (replicate 24 (CHR ''B''))) 5 c ?r 64 = Inr (c1, Some tok)"
    and check: "\<forall>submitted. \<exists>c2. AmmServer_ValidateCSRFToken 65 c1 ?r submitted = Inr (c2, submitted = Some tok)"
    by (auto simp: CSRF_TOKEN_RANDOM_BYTES_def)
  moreover obtain c2 where "AmmServer_ValidateCSRFToken 65 c1 ?r (Some tok) = Inr (c2, True)"
    using check [rule_format, of "Some tok"] by auto
  ultimately show ?thesis by blast
qed

section \<open>Signing in\<close>

lemma SetCookie_token [simp]: "sessionToken (fst (AmmServer_SetCookie ssl rqst name v age h)) = sessionToken rqst"
  by (simp add: AmmServer_SetCookie_def Let_def)

text \<open>The two values a sign-in stores in its new session.\<close>

lemma login_values:
  assumes "sessions_ok c" and "session_of c t = Some e" and "new_session env t e" and "p1 \<noteq> 0" and "p2 \<noteq> 0"
  obtains c1 c2 d where "sessiontList_StoreInfo True True p1 (clock env) c (Some t) (Some ''username'') (Some name) = Inr (c1, True)"
    and "sessiontList_StoreInfo True True p2 (clock env) c1 (Some t) (Some ''uid'') (Some n) = Inr (c2, True)"
    and "sessions_ok c2" and "session_of c2 = (session_of c)(t \<mapsto> e\<lparr>session_data := d\<rparr>)"
    and "hm_stored d = [''username'' \<mapsto> (p1, length name + 1, name @ [NUL]), ''uid'' \<mapsto> (p2, length n + 1, n @ [NUL])]"
proof -
  have new: "lastSeen e = clock env" "hm_stored (session_data e) = Map.empty" "has_room (session_data e)"
    "entryAllocationStep (session_data e) = 8" "maxNumberOfEntries (session_data e) = 8"
    using assms(3) by (simp_all add: new_session_def)
  have live: "live_session (clock env) c (Some t) = Some e"
    using assms(2) new(1) by (simp add: live_session_Some sessionIsExpired_def SESSION_IDLE_TIMEOUT_SECONDS_def)
  obtain c1 d1 where c1: "sessiontList_StoreInfo True True p1 (clock env) c (Some t) (Some ''username'') (Some name) = Inr (c1, True)"
      "sessions_ok c1" "session_of c1 = (session_of c)(t \<mapsto> e\<lparr>session_data := d1\<rparr>)"
      "hm_stored d1 = (hm_stored (session_data e))(''username'' \<mapsto> (p1, length name + 1, name @ [NUL]))"
      "same_kind (session_data e) d1" "maxNumberOfEntries d1 \<le> maxNumberOfEntries (session_data e) + entryAllocationStep (session_data e)"
    using StoreInfo_live [OF assms(1) live new(3) assms(4)] by blast
  let ?e = "e\<lparr>session_data := d1\<rparr>"
  have live1: "live_session (clock env) c1 (Some t) = Some ?e"
    using c1(3) new(1) by (simp add: live_session_Some sessionIsExpired_def SESSION_IDLE_TIMEOUT_SECONDS_def)
  have "has_room (session_data ?e)" using c1(5,6) new(4,5) by (simp add: has_room_def same_kind_def)
  from StoreInfo_live [OF c1(2) live1 this assms(5), of "''uid''" n]
  obtain c2 d2 where c2: "sessiontList_StoreInfo True True p2 (clock env) c1 (Some t) (Some ''uid'') (Some n) = Inr (c2, True)"
      "sessions_ok c2" "session_of c2 = (session_of c1)(t \<mapsto> ?e\<lparr>session_data := d2\<rparr>)"
      "hm_stored d2 = (hm_stored (session_data ?e))(''uid'' \<mapsto> (p2, length n + 1, n @ [NUL]))"
    by blast
  show thesis
  proof (rule that [OF c1(1) c2(1,2)])
    show "session_of c2 = (session_of c)(t \<mapsto> e\<lparr>session_data := d2\<rparr>)" using c1(3) c2(3) by simp
    show "hm_stored d2 = [''username'' \<mapsto> (p1, length name + 1, name @ [NUL]), ''uid'' \<mapsto> (p2, length n + 1, n @ [NUL])]"
      using c1(4) c2(4) new(2) by simp
  qed
qed

text \<open>What a session that was signed in holds, and how the name is read from it.\<close>

definition signed_in :: "int \<Rightarrow> sessionListContext \<Rightarrow> string \<Rightarrow> string \<Rightarrow> nat \<Rightarrow> bool" where
  "signed_in now c t name user \<longleftrightarrow>
     (\<exists>e. session_of c t = Some e \<and> created e = now
        \<and> (\<forall>n. value_in (session_data e) n
              = [''username'' \<mapsto> take 4095 name, ''uid'' \<mapsto> take 4095 (into_array 16 (show_u user))] n))
     \<and> (\<forall>rqst later size. sessionToken rqst = t \<longrightarrow> later - now \<le> SESSION_IDLE_TIMEOUT_SECONDS \<longrightarrow> length name < size \<longrightarrow> size \<le> 4096
          \<longrightarrow> (\<exists>c2. AmmServer_CurrentUsername later c rqst size = Inr (c2, Some name)))"

lemma login_signed_in:
  assumes "sessions_ok c" and "session_of c t = Some e" and "new_session env t e" and "p1 \<noteq> 0" and "p2 \<noteq> 0"
  obtains c1 c2 where "sessiontList_StoreInfo True True p1 (clock env) c (Some t) (Some ''username'') (Some name) = Inr (c1, True)"
    and "sessiontList_StoreInfo True True p2 (clock env) c1 (Some t) (Some ''uid'') (Some (into_array 16 (show_u user))) = Inr (c2, True)"
    and "signed_in (clock env) c2 t name user" and "(session_of c2)(t := None) = (session_of c)(t := None)"
proof -
  let ?n = "into_array 16 (show_u user)"
  obtain c1 c2 d where v: "sessiontList_StoreInfo True True p1 (clock env) c (Some t) (Some ''username'') (Some name) = Inr (c1, True)"
      "sessiontList_StoreInfo True True p2 (clock env) c1 (Some t) (Some ''uid'') (Some ?n) = Inr (c2, True)" "sessions_ok c2"
      "session_of c2 = (session_of c)(t \<mapsto> e\<lparr>session_data := d\<rparr>)"
      "hm_stored d = [''username'' \<mapsto> (p1, length name + 1, name @ [NUL]), ''uid'' \<mapsto> (p2, length ?n + 1, ?n @ [NUL])]"
    using login_values [OF assms] .
  have vals: "value_in d n = [''username'' \<mapsto> take 4095 name, ''uid'' \<mapsto> take 4095 ?n] n" for n
    using assms(4,5) by (simp add: value_in_def v(5) SESSION_VALUE_SCRATCH_SIZE_def min_def)
  have new: "created e = clock env" "lastSeen e = clock env" using assms(3) by (simp_all add: new_session_def)
  have "\<exists>c3. AmmServer_CurrentUsername later c2 rqst size = Inr (c3, Some name)"
    if "sessionToken rqst = t" "later - clock env \<le> SESSION_IDLE_TIMEOUT_SECONDS" "length name < size" "size \<le> 4096" for rqst later size
  proof -
    have "live_session later c2 (Some t) = Some (e\<lparr>session_data := d\<rparr>)"
      using v(4) new(2) that(2) by (simp add: live_session_Some sessionIsExpired_def)
    then have "value_at later c2 t ''username'' = Some name" using that(3,4) by (simp add: value_at_def vals)
    then show ?thesis using GetInfo_value [OF v(3), of later t "''username''"] that(1,3)
      by (auto simp: AmmServer_CurrentUsername_def SESSIONcpy_def SESSION_value_def)
  qed
  then have "signed_in (clock env) c2 t name user" using v(4) vals new(1) by (simp add: signed_in_def)
  then show thesis using that [OF v(1,2)] v(4) by (simp add: fun_upd_upd)
qed

text \<open>What a request signs in to after the old session is gone.\<close>

lemma login_destroys:
  assumes "sessions_ok c"
  obtains c1 where "(if t \<noteq> [] then map_sum id fst (sessionList_Destroy c (Some t)) else Inr c) = Inr c1"
    and "sessions_ok c1" and "session_of c1 = (session_of c)(t := None)"
    and "if t = [] then c1 = c else \<exists>ok. sessionList_Destroy c (Some t) = Inr (c1, ok)"
proof (cases "t = []")
  case True
  then have "session_of c t = None" using session_of_token [OF assms, of t] by (cases "session_of c t") auto
  then show thesis using that [of c] assms True by (auto simp: fun_eq_iff)
next
  case False
  obtain c' where "remove_session c t = Inr (c', session_of c t \<noteq> None)" "sessions_ok c'" "session_of c' = (session_of c)(t := None)"
    using remove_session_spec [OF assms, of t] by blast
  then show thesis using that [of c'] False by (auto simp: sessionList_Destroy_def)
qed

text \<open>
  C14: Signing in never keeps the session of the visitor: the old token is dead, the new one stands for a session
  made at that moment that holds the name and the number of the user and nothing else, from which the name is
  read as long as it lives; it only fails when there is no memory or no random bytes, and a wrong password
  changes nothing.
\<close>

theorem login_fresh_session:
  assumes "sessions_ok c" and "p1 \<noteq> 0" and "p2 \<noteq> 0"
    and "\<forall>raw. Some raw \<in> set (draws env) \<longrightarrow> token_of raw \<noteq> sessionToken rqst"
    and "\<forall>c1. (if sessionToken rqst = [] then c1 = c else \<exists>ok. sessionList_Destroy c (Some (sessionToken rqst)) = Inr (c1, ok))
          \<longrightarrow> system_ok env c1"
  shows "\<exists>c' rqst' ok. AmmServer_Login ssl ctx env (True, True, p1) (True, True, p2) c uadb rqst name pass = Inr (c', rqst', ok)
    \<and> (case uadb_authenticateUser ctx (Some uadb) name pass of
          None \<Rightarrow> c' = c \<and> rqst' = rqst \<and> \<not> ok
        | Some tok \<Rightarrow> session_of c' (sessionToken rqst) = None
            \<and> (ok \<longrightarrow> signed_in (clock env) c' (sessionToken rqst') name (uid tok)) \<and> (can_make env \<longrightarrow> ok))"
proof (cases "uadb_authenticateUser ctx (Some uadb) name pass")
  case None
  then show ?thesis by (auto simp: AmmServer_Login_def)
next
  case auth: (Some tok)
  let ?t0 = "sessionToken rqst"
  obtain c1 where c1: "(if ?t0 \<noteq> [] then map_sum id fst (sessionList_Destroy c (Some ?t0)) else Inr c) = Inr c1"
    "sessions_ok c1" "session_of c1 = (session_of c)(?t0 := None)"
    "if ?t0 = [] then c1 = c else \<exists>ok. sessionList_Destroy c (Some ?t0) = Inr (c1, ok)"
    using login_destroys [OF assms(1)] .
  have "\<forall>c2. findSessionLocked (clock env) c1 None = Inr (c2, None) \<longrightarrow> system_ok env c2"
    using assms(5) c1(4) by (simp add: findSessionLocked_def)
  from get_session_spec [OF c1(2) this]
  obtain c2 r where c2: "getSessionFromHeader env c1 None SESSION_TOKEN_STRING_SIZE = Inr (c2, r)" "sessions_ok c2"
    and r: "case r of None \<Rightarrow> session_of c2 \<subseteq>\<^sub>m session_of c1 \<and> \<not> can_make env
       | Some (t, isNew) \<Rightarrow> isNew \<and> length t = 43 \<and> (\<exists>e. new_session env t e \<and> session_of c2 t = Some e)
            \<and> (session_of c2)(t := None) \<subseteq>\<^sub>m session_of c1 \<and> (\<exists>raw. Some raw \<in> set (draws env) \<and> t = token_of raw)"
    by (auto simp: live_session_def)
  show ?thesis
  proof (cases r)
    case None
    then have "session_of c2 ?t0 = None" using r c1(3) by (auto simp: map_le_def dom_def)
    then show ?thesis using r auth None c1(1) c2(1) by (auto simp: AmmServer_Login_def)
  next
    case (Some p)
    then obtain t isNew e where p: "r = Some (t, isNew)" and t: "new_session env t e" "session_of c2 t = Some e"
      "(session_of c2)(t := None) \<subseteq>\<^sub>m session_of c1" "t \<noteq> ?t0"
      using r assms(4) by (cases p) auto
    obtain c3 c4 where v: "sessiontList_StoreInfo True True p1 (clock env) c2 (Some t) (Some ''username'') (Some name) = Inr (c3, True)"
        "sessiontList_StoreInfo True True p2 (clock env) c3 (Some t) (Some ''uid'') (Some (into_array 16 (show_u (uid tok)))) = Inr (c4, True)"
        "signed_in (clock env) c4 t name (uid tok)" "(session_of c4)(t := None) = (session_of c2)(t := None)"
      using login_signed_in [OF c2(2) t(2,1) assms(2,3)] .
    let ?r = "fst (AmmServer_SetCookie ssl (rqst\<lparr>sessionToken := t\<rparr>) SESSION_COOKIE_NAME t 0 True)"
    have "AmmServer_Login ssl ctx env (True, True, p1) (True, True, p2) c uadb rqst name pass = Inr (c4, ?r, True)"
      using auth c1(1) c2(1) p v(1,2) by (simp add: AmmServer_Login_def SESSIONset_def Let_def)
    moreover have "session_of c4 ?t0 = None"
      using t(3,4) c1(3) fun_cong [OF v(4), of ?t0] by (auto simp: map_le_def dom_def split: if_splits)
    ultimately show ?thesis using v(3) auth by auto
  qed
qed

text \<open>A visitor with an unknown token signs in to an account.\<close>

lemma no_sessions_system:
  assumes "sessions_ok c" and "session_of c = Map.empty" and "curNumberOfEntries (sessionTable c) < MAX_SESSIONS"
  shows "system_ok (sample_system now) c"
proof -
  have "evictOldestSessionIfAtCapacity c = Inr c" using evict_spec [OF assms(1)] assms(3) by auto
  moreover have "hm_view (sessionTable c) t = None" for t using session_of_None [OF assms(1), of t] assms(2) by simp
  ultimately show ?thesis using assms(2) by (auto simp: system_ok_def sample_system_def)
qed

abbreviation one_user :: UserAccountDatabase where
  "one_user \<equiv> \<lparr>userList = [\<lparr>username = ''ammar'', password = hashPassword fresh_context ''secret'' ''0123456789abcdef'' 128,
     sessionID = []\<rparr>], userListMaxSize = 100\<rparr>"

lemma one_user_signs_in: "\<exists>tok. uadb_authenticateUser fresh_context (Some one_user) ''ammar'' ''secret'' = Some tok \<and> uid tok = 0"
  using password_verified [of fresh_context fresh_context "''0123456789abcdef''" "''secret''" "''secret''"]
  by (simp add: uadb_authenticateUser_def PASSWORD_SALT_BYTES_def)

theorem login_fresh_session_witness:
  "\<exists>c' rqst'. AmmServer_Login True fresh_context (sample_system 5) (True, True, 8192) (True, True, 8208) empty_sessions one_user
        \<lparr>sessionToken = ''fixed'', pendingResponseHeaders = []\<rparr> ''ammar'' ''secret'' = Inr (c', rqst', True)
     \<and> session_of c' ''fixed'' = None \<and> signed_in 5 c' (sessionToken rqst') ''ammar'' 0"
  (is "\<exists>c' rqst'. AmmServer_Login _ _ ?env _ _ _ _ ?r _ _ = _ \<and> _")
proof -
  note ok = sessions_ok_created [OF empty_sessions_created]
  obtain tok where tok: "uadb_authenticateUser fresh_context (Some one_user) ''ammar'' ''secret'' = Some tok" "uid tok = 0"
    using one_user_signs_in by blast
  have sys: "\<forall>c1. (if sessionToken ?r = [] then c1 = empty_sessions
        else \<exists>ok. sessionList_Destroy empty_sessions (Some (sessionToken ?r)) = Inr (c1, ok)) \<longrightarrow> system_ok ?env c1"
    using remove_session_spec [OF ok(1), of "''fixed''"] ok(2)
    by (auto simp: sessionList_Destroy_def empty_sessions_def MAX_SESSIONS_def intro!: no_sessions_system)
  have "length (token_of raw) = 43" if "Some raw \<in> set (draws ?env)" for raw
    using that by (auto simp: sample_system_def intro!: token_generated(2))
  then have other: "\<forall>raw. Some raw \<in> set (draws ?env) \<longrightarrow> token_of raw \<noteq> sessionToken ?r" by force
  have make: "can_make ?env" by (simp add: can_make_def sample_system_def)
  obtain c' rqst' b where run: "AmmServer_Login True fresh_context ?env (True, True, 8192) (True, True, 8208) empty_sessions one_user
        ?r ''ammar'' ''secret'' = Inr (c', rqst', b)"
    and "session_of c' (sessionToken ?r) = None \<and> (b \<longrightarrow> signed_in (clock ?env) c' (sessionToken rqst') ''ammar'' (uid tok)) \<and> (can_make ?env \<longrightarrow> b)"
    using login_fresh_session [OF ok(1) _ _ other sys, of 8192 8208 True fresh_context one_user "''ammar''" "''secret''"] tok(1)
    by auto
  then show ?thesis using tok(2) make by (auto simp: sample_system_def)
qed

section \<open>Cookies\<close>

lemma append_into_take: "append_into n (take (n - 1) s) t = take (n - 1) (s @ t)"
  by (cases "length s \<le> n - 1") (simp_all add: append_into_def)

text \<open>The line of a cookie as it is meant.\<close>

definition cookie_attributes :: "bool \<Rightarrow> int \<Rightarrow> bool \<Rightarrow> string" where
  "cookie_attributes ssl maxAgeSeconds httpOnly =
     (if maxAgeSeconds < 0 then '' Max-Age=0;''
      else if maxAgeSeconds > 0 then into_array 48 ('' Max-Age='' @ show_u (nat maxAgeSeconds) @ '';'') else [])
     @ (if httpOnly then '' HttpOnly;'' else []) @ (if ssl then '' Secure;'' else []) @ '' SameSite=Lax'' @ [LF]"

lemma set_cookie_line_cut:
  assumes "length (''Set-Cookie: '' @ name @ ''='' @ v @ ''; Path=/;'') < 256"
  shows "set_cookie_line ssl name v maxAgeSeconds httpOnly
    = take 255 (''Set-Cookie: '' @ name @ ''='' @ v @ ''; Path=/;'' @ cookie_attributes ssl maxAgeSeconds httpOnly)"
proof -
  define s where "s = ''Set-Cookie: '' @ name @ ''='' @ v @ ''; Path=/;''"
  have app: "append_into 256 (take 255 u) w = take 255 (u @ w)" for u w using append_into_take [of 256 u w] by simp
  have "length s \<le> 255" using assms by (simp add: s_def)
  then have start: "append_into 256 s w = take 255 (s @ w)" for w by (simp add: append_into_def)
  have "set_cookie_line ssl name v maxAgeSeconds httpOnly = take 255 (s @ cookie_attributes ssl maxAgeSeconds httpOnly)"
    unfolding set_cookie_line_def cookie_attributes_def s_def [symmetric] Let_def
    by (cases "maxAgeSeconds < 0"; cases "maxAgeSeconds > 0"; cases httpOnly; cases ssl) (simp_all only: if_True if_False start app append_assoc append_Nil)
  then show ?thesis by (simp add: s_def)
qed


text \<open>A value of 230 characters loses every attribute and the end of its line.\<close>

lemma cookie_attributes_lost:
  "\<exists>rqst'. AmmServer_SetCookie True \<lparr>sessionToken = [], pendingResponseHeaders = []\<rparr> ''sid'' (replicate 230 (CHR ''x'')) 0 True = (rqst', True)
    \<and> pendingResponseHeaders rqst' = ''Set-Cookie: sid='' @ replicate 230 (CHR ''x'') @ ''; Path=/;''"
  using set_cookie_line_cut [of "''sid''" "replicate 230 (CHR ''x'')" True 0 True]
  by (simp add: AmmServer_SetCookie_def)

end
